(* ===== verification/Prelude.thy ===== *)
theory Prelude
  imports Main "HOL-Library.Sublist"
begin

text \<open>
  What the components share: the outcome of a fallible, possibly panicking Rust function, slices of
  byte buffers, \<open>usize\<close> arithmetic, and the part of Rust's \<open>u8\<close> and \<open>str\<close> library the sources use
  (ASCII case folding, UTF-8 validation, splitting, trimming, number formatting and parsing).
  A byte string is a \<^typ>\<open>string\<close>: a HOL \<^typ>\<open>char\<close> is one byte. The collections declared here gather
  the rewrite rules the component theories add to.
\<close>

named_theorems str_simps \<open>evaluation rules of the string library\<close>
named_theorems step_simps \<open>unfoldings of a component's operations\<close>
named_theorems inv_intros \<open>operations preserve their component's invariant\<close>

type_synonym bytes = string

section \<open>Outcomes\<close>

text \<open>
  An I/O error is what the operating system reports, the \<open>WriteZero\<close> kind, or an error of kind
  \<open>Other\<close> with a message; \<open>Wrapped\<close> is a message that prints the error it was made from.
  A function of type \<open>tokio::io::Result<T>\<close> returns \<open>Ok\<close> or \<open>Err\<close>; a failed \<open>unwrap\<close>, \<open>expect\<close>,
  slice bound or explicit \<open>panic!\<close> is \<open>Panic\<close>.
\<close>

datatype io_error = OsError string | WriteZero | Other string | Wrapped string io_error

datatype 'a outcome = Ok 'a | Err io_error | Panic string

fun bind_outcome :: "'a outcome \<Rightarrow> ('a \<Rightarrow> 'b outcome) \<Rightarrow> 'b outcome" where
  "bind_outcome (Ok x) f = f x"
| "bind_outcome (Err e) f = Err e"
| "bind_outcome (Panic p) f = Panic p"

fun is_panic :: "'a outcome \<Rightarrow> bool" where
  "is_panic (Panic p) = True"
| "is_panic r = False"

lemma bind_outcome_Ok [simp]:
  "bind_outcome r f = Ok y \<longleftrightarrow> (\<exists>x. r = Ok x \<and> f x = Ok y)"
  by (cases r) auto

lemma not_panic_cases:
  assumes "\<not> is_panic r"
  obtains (Ok) x where "r = Ok x" | (Err) e where "r = Err e"
  using assms by (cases r) auto

text \<open>\<open>Option::unwrap_or\<close>\<close>

definition unwrap_or :: "'a \<Rightarrow> 'a option \<Rightarrow> 'a" where
  "unwrap_or d v = (case v of None \<Rightarrow> d | Some x \<Rightarrow> x)"

section \<open>Slices and sizes\<close>

definition usize_mod :: nat where
  "usize_mod = 18446744073709551616"

text \<open>\<open>usize\<close> addition of a release build: it wraps at \<open>2 ^ 64\<close>.\<close>

definition uadd :: "nat \<Rightarrow> nat \<Rightarrow> nat" where
  "uadd a b = (a + b) mod usize_mod"

lemma uadd_exact [simp]: "a + b < usize_mod \<Longrightarrow> uadd a b = a + b"
  by (simp add: uadd_def)

lemma uadd_0_0 [simp]: "uadd 0 0 = 0"
  by (simp add: uadd_def)

lemma uadd_less: "uadd a b < usize_mod"
  by (simp add: uadd_def usize_mod_def)

definition usub :: "nat \<Rightarrow> nat \<Rightarrow> nat" where
  "usub a b = (if b \<le> a then a - b else a + usize_mod - b)"

lemma usub_exact [simp]: "b \<le> a \<Longrightarrow> usub a b = a - b"
  by (simp add: usub_def)

definition slice :: "nat \<Rightarrow> nat \<Rightarrow> 'a list \<Rightarrow> 'a list" where
  "slice a b xs = take (b - a) (drop a xs)"

text \<open>\<open>&buf[a..b]\<close>: out of range, or with the ends crossed, it panics.\<close>

definition get_slice :: "nat \<Rightarrow> nat \<Rightarrow> 'a list \<Rightarrow> 'a list outcome" where
  "get_slice a b xs =
     (if a \<le> b \<and> b \<le> length xs then Ok (slice a b xs) else Panic ''slice index out of range'')"

lemma length_slice [simp]: "b \<le> length xs \<Longrightarrow> length (slice a b xs) = b - a"
  by (simp add: slice_def)

lemma slice_whole [simp]: "slice 0 (length xs) xs = xs"
  by (simp add: slice_def)

lemma slice_same [simp]: "slice a a xs = []"
  by (simp add: slice_def)

lemma slice_0: "slice 0 n xs = take n xs"
  by (simp add: slice_def)

lemma slice_append:
  assumes "a \<le> b" "b \<le> c"
  shows "slice a b xs @ slice b c xs = slice a c xs"
proof -
  have "take (c - a) (drop a xs) = take ((b - a) + (c - b)) (drop a xs)"
    using assms by simp
  also have "\<dots> = take (b - a) (drop a xs) @ take (c - b) (drop (b - a) (drop a xs))"
    by (rule take_add)
  finally show ?thesis
    using assms by (simp add: slice_def)
qed

lemma slice_take:
  assumes "b \<le> n"
  shows "slice a b (take n xs) = slice a b xs"
proof -
  have "min (b - a) (n - a) = b - a" using assms by auto
  then show ?thesis by (simp add: slice_def drop_take)
qed

lemma slice_append_left: "b \<le> length xs \<Longrightarrow> slice a b (xs @ ys) = slice a b xs"
  by (cases "a \<le> length xs") (auto simp: slice_def)

lemma get_slice_Ok [simp]:
  "get_slice a b xs = Ok ys \<longleftrightarrow> a \<le> b \<and> b \<le> length xs \<and> ys = slice a b xs"
  by (auto simp: get_slice_def)

lemma get_slice_panic [simp]: "is_panic (get_slice a b xs) \<longleftrightarrow> \<not> (a \<le> b \<and> b \<le> length xs)"
  by (simp add: get_slice_def)

text \<open>Overwriting the front of \<open>buf[k..]\<close> with freshly read bytes.\<close>

definition splice :: "nat \<Rightarrow> 'a list \<Rightarrow> 'a list \<Rightarrow> 'a list" where
  "splice k new buf = take k buf @ new @ drop (k + length new) buf"

lemma length_splice [simp]: "k + length new \<le> length buf \<Longrightarrow> length (splice k new buf) = length buf"
  by (simp add: splice_def)

lemma take_splice: "k \<le> length buf \<Longrightarrow> take (k + length new) (splice k new buf) = take k buf @ new"
  by (simp add: splice_def)

lemma append_split_take:
  assumes "xs @ ys = us @ vs" "length us \<le> length xs"
  shows "xs = us @ drop (length us) xs" "drop (length us) xs @ ys = vs"
proof -
  have "take (length us) xs = us"
    using arg_cong [OF assms(1), of "take (length us)"] assms(2) by simp
  then show "xs = us @ drop (length us) xs"
    by (metis append_take_drop_id)
  show "drop (length us) xs @ ys = vs"
    using arg_cong [OF assms(1), of "drop (length us)"] assms(2) by simp
qed

lemma append_strict_prefix:
  assumes "xs @ ys = us @ vs" "length xs < length us"
  shows "strict_prefix xs us"
proof -
  have "take (length xs) us = xs"
    using arg_cong [OF assms(1), of "take (length xs)"] assms(2) by simp
  then have "prefix xs us" by (metis take_is_prefix)
  then show ?thesis using assms(2) by (auto simp: strict_prefix_def)
qed

section \<open>Bytes and strings\<close>

definition byte :: "char \<Rightarrow> nat" where
  "byte c = of_char c"

definition crlf :: bytes where
  "crlf = [CHR 0x0D, CHR 0x0A]"

text \<open>\<open>u8::to_ascii_lowercase\<close>, and \<open>eq_ignore_ascii_case\<close> on byte strings.\<close>

definition to_ascii_lowercase :: "char \<Rightarrow> char" where
  "to_ascii_lowercase c = (if 65 \<le> byte c \<and> byte c \<le> 90 then char_of (byte c + 32) else c)"

definition eq_ignore_ascii_case :: "bytes \<Rightarrow> bytes \<Rightarrow> bool" where
  "eq_ignore_ascii_case a b \<longleftrightarrow> map to_ascii_lowercase a = map to_ascii_lowercase b"

lemma eq_ignore_ascii_case_refl [simp]: "eq_ignore_ascii_case a a"
  by (simp add: eq_ignore_ascii_case_def)

lemma eq_ignore_ascii_case_trans:
  "eq_ignore_ascii_case a b \<Longrightarrow> eq_ignore_ascii_case a c \<Longrightarrow> eq_ignore_ascii_case b c"
  by (simp add: eq_ignore_ascii_case_def)

text \<open>\<open>std::str::from_utf8\<close> succeeds on exactly the well-formed UTF-8 sequences.\<close>

definition cont :: "char \<Rightarrow> bool" where
  "cont c \<longleftrightarrow> 128 \<le> byte c \<and> byte c \<le> 191"

definition between :: "nat \<Rightarrow> char \<Rightarrow> nat \<Rightarrow> bool" where
  "between lo c hi \<longleftrightarrow> lo \<le> byte c \<and> byte c \<le> hi"

fun utf8_valid :: "bytes \<Rightarrow> bool" where
  "utf8_valid [] = True"
| "utf8_valid (a # xs) =
     (if byte a < 128 then utf8_valid xs
      else (case xs of
        [] \<Rightarrow> False
      | b # ys \<Rightarrow>
          if between 194 a 223 then cont b \<and> utf8_valid ys
          else (case ys of
            [] \<Rightarrow> False
          | c # zs \<Rightarrow>
              if byte a = 224 then between 160 b 191 \<and> cont c \<and> utf8_valid zs
              else if byte a = 237 then between 128 b 159 \<and> cont c \<and> utf8_valid zs
              else if between 225 a 239 then cont b \<and> cont c \<and> utf8_valid zs
              else (case zs of
                [] \<Rightarrow> False
              | d # ws \<Rightarrow>
                  if byte a = 240 then between 144 b 191 \<and> cont c \<and> cont d \<and> utf8_valid ws
                  else if byte a = 244 then between 128 b 143 \<and> cont c \<and> cont d \<and> utf8_valid ws
                  else between 241 a 243 \<and> cont b \<and> cont c \<and> cont d \<and> utf8_valid ws))))"

lemma utf8_valid_ascii: "list_all (\<lambda>c. byte c < 128) s \<Longrightarrow> utf8_valid s"
  by (induction s) auto

definition from_utf8 :: "bytes \<Rightarrow> string option" where
  "from_utf8 b = (if utf8_valid b then Some b else None)"

text \<open>\<open>str::split(c)\<close>: always at least one piece.\<close>

fun split_on :: "char \<Rightarrow> string \<Rightarrow> string list" where
  "split_on c [] = [[]]"
| "split_on c (x # xs) =
     (if x = c then [] # split_on c xs
      else (case split_on c xs of [] \<Rightarrow> [[x]] | p # ps \<Rightarrow> (x # p) # ps))"

lemma split_on_nonempty [simp]: "split_on c s \<noteq> []"
  by (induction s) (auto split: list.splits)

lemma split_on_no_sep: "p \<in> set (split_on c s) \<Longrightarrow> c \<notin> set p"
  by (induction s arbitrary: p) (auto split: list.splits if_splits)

text \<open>Splitting loses nothing: joining the pieces with the separator gives the text back.\<close>

fun join_with :: "char \<Rightarrow> string list \<Rightarrow> string" where
  "join_with c [] = []"
| "join_with c [p] = p"
| "join_with c (p # ps) = p @ c # join_with c ps"

lemma join_with_Cons: "ps \<noteq> [] \<Longrightarrow> join_with c (p # ps) = p @ c # join_with c ps"
  by (cases ps) auto

lemma join_split_on: "join_with c (split_on c s) = s"
proof (induction s)
  case Nil
  show ?case by simp
next
  case (Cons x xs)
  obtain p ps where ps: "split_on c xs = p # ps"
    by (cases "split_on c xs") auto
  show ?case
    using Cons.IH ps by (cases ps) (auto simp: join_with_Cons)
qed

lemma split_on_no_char: "c \<notin> set s \<Longrightarrow> split_on c s = [s]"
  by (induction s) auto

lemma split_on_append: "c \<notin> set p \<Longrightarrow> split_on c (p @ c # s) = p # split_on c s"
  by (induction p) (auto split: list.splits)

text \<open>\<open>str::split_once(c)\<close>: at the first occurrence.\<close>

fun split_once :: "char \<Rightarrow> string \<Rightarrow> (string \<times> string) option" where
  "split_once c [] = None"
| "split_once c (x # xs) =
     (if x = c then Some ([], xs)
      else map_option (\<lambda>(a, b). (x # a, b)) (split_once c xs))"

lemma split_once_Some:
  "split_once c s = Some (a, b) \<longleftrightarrow> s = a @ c # b \<and> c \<notin> set a"
proof (induction s arbitrary: a)
  case Nil
  show ?case by simp
next
  case (Cons x xs)
  then show ?case by (cases a) auto
qed

lemma split_once_None: "split_once c s = None \<longleftrightarrow> c \<notin> set s"
  by (induction s) auto

text \<open>
  \<open>str::trim\<close> removes characters with the Unicode property \<open>White_Space\<close>: their UTF-8 encodings are
  listed. On well-formed UTF-8 text an encoding occurs at either end exactly when the character
  does.
\<close>

definition white_space :: "string list" where
  "white_space =
     map (\<lambda>n. [char_of n]) [9, 10, 11, 12, 13, 32 :: nat]
     @ map (map char_of)
         [[194, 133], [194, 160], [225, 154, 128],
          [226, 128, 128], [226, 128, 129], [226, 128, 130], [226, 128, 131], [226, 128, 132],
          [226, 128, 133], [226, 128, 134], [226, 128, 135], [226, 128, 136], [226, 128, 137],
          [226, 128, 138], [226, 128, 168], [226, 128, 169], [226, 128, 175], [226, 129, 159],
          [227, 128, 128 :: nat]]"

fun strip_one :: "string list \<Rightarrow> string \<Rightarrow> string option" where
  "strip_one [] s = None"
| "strip_one (w # ws) s = (if w \<noteq> [] \<and> prefix w s then Some (drop (length w) s) else strip_one ws s)"

lemma strip_one_shorter: "strip_one ws s = Some s' \<Longrightarrow> length s' < length s"
  by (induction ws) (auto split: if_splits simp: prefix_def)

function strip_all :: "string list \<Rightarrow> string \<Rightarrow> string" where
  "strip_all ws s = (case strip_one ws s of None \<Rightarrow> s | Some s' \<Rightarrow> strip_all ws s')"
  by pat_completeness auto
termination
  by (relation "measure (\<lambda>(ws, s). length s)") (auto dest: strip_one_shorter)

declare strip_all.simps [simp del]

definition trim_start :: "string \<Rightarrow> string" where
  "trim_start s = strip_all white_space s"

definition trim_end :: "string \<Rightarrow> string" where
  "trim_end s = rev (strip_all (map rev white_space) (rev s))"

definition trim :: "string \<Rightarrow> string" where
  "trim s = trim_end (trim_start s)"

text \<open>\<open>str::trim_start_matches(p)\<close> removes the prefix \<open>p\<close> as often as it occurs.\<close>

definition trim_start_matches :: "string \<Rightarrow> string \<Rightarrow> string" where
  "trim_start_matches p s = strip_all [p] s"

lemma strip_one_None: "strip_one ws s = None \<longleftrightarrow> (\<forall>w\<in>set ws. w \<noteq> [] \<longrightarrow> \<not> prefix w s)"
  by (induction ws) auto

lemma strip_all_id: "strip_one ws s = None \<Longrightarrow> strip_all ws s = s"
  by (subst strip_all.simps) simp

lemma strip_all_step: "strip_one ws s = Some s' \<Longrightarrow> strip_all ws s = strip_all ws s'"
  by (subst strip_all.simps) simp

lemma strip_one_strip_all [simp]: "strip_one ws (strip_all ws s) = None"
  by (induction ws s rule: strip_all.induct) (subst strip_all.simps, simp split: option.split)

lemma suffix_strip_one: "strip_one ws s = Some s' \<Longrightarrow> suffix s' s"
  by (induction ws) (auto split: if_splits simp: suffix_drop)

lemma suffix_strip_all: "suffix (strip_all ws s) s"
proof (induction ws s rule: strip_all.induct)
  case (1 ws s)
  show ?case
  proof (cases "strip_one ws s")
    case None
    then show ?thesis by (simp add: strip_all_id)
  next
    case (Some s')
    with 1 have "suffix (strip_all ws s') s'" by simp
    moreover have "suffix s' s" using Some by (rule suffix_strip_one)
    ultimately show ?thesis
      using Some by (auto simp: strip_all_step dest: suffix_order.trans)
  qed
qed

lemma strip_one_Nil [simp]: "strip_one ws [] = None"
  by (induction ws) auto

lemma trim_Nil [simp]: "trim [] = []"
  by (simp add: trim_def trim_start_def trim_end_def strip_all_id)

text \<open>A text that starts and ends with a visible ASCII character is left as it is.\<close>

lemma white_space_ends:
  "\<forall>w\<in>set white_space. w \<noteq> [] \<and> (byte (hd w) \<le> 32 \<or> 127 < byte (hd w)) \<and>
     (byte (last w) \<le> 32 \<or> 127 < byte (last w))"
  by (simp add: white_space_def byte_def)

lemma trim_visible:
  assumes "s \<noteq> []" "between 33 (hd s) 127" "between 33 (last s) 127"
  shows "trim s = s"
proof -
  have "strip_one white_space s = None"
    using white_space_ends assms(1,2)
    by (force simp: strip_one_None between_def prefix_def neq_Nil_conv)
  then have "trim_start s = s" by (simp add: trim_start_def strip_all_id)
  moreover have "strip_one (map rev white_space) (rev s) = None"
    unfolding strip_one_None
  proof (intro ballI impI notI)
    fix w
    assume "w \<in> set (map rev white_space)" and p: "prefix w (rev s)"
    then obtain v where v: "v \<in> set white_space" "w = rev v" by auto
    then have "suffix v s" using p by (simp add: suffix_to_prefix)
    then obtain ys where "s = ys @ v" by (auto simp: suffix_def)
    then have "last s = last v" using white_space_ends v(1) by simp
    then show False using white_space_ends v(1) assms(3) by (auto simp: between_def)
  qed
  then have "trim_end s = s" by (simp add: trim_end_def strip_all_id)
  ultimately show ?thesis by (simp add: trim_def)
qed

section \<open>Numbers as text\<close>

definition digit_value :: "char \<Rightarrow> nat option" where
  "digit_value c = (if between 48 c 57 then Some (byte c - 48) else None)"

fun digits_value :: "nat \<Rightarrow> string \<Rightarrow> nat option" where
  "digits_value acc [] = Some acc"
| "digits_value acc (c # cs) =
     (case digit_value c of None \<Rightarrow> None | Some d \<Rightarrow> digits_value (10 * acc + d) cs)"

text \<open>
  \<open>str::parse::<i64>\<close> and the unsigned \<open>parse::<u64>\<close>, \<open>parse::<usize>\<close>: an optional sign (a minus
  only for the signed type), at least one digit, nothing else, and no overflow.
\<close>

definition parse_i64 :: "string \<Rightarrow> int option" where
  "parse_i64 s =
     (case s of
        [] \<Rightarrow> None
      | c # cs \<Rightarrow>
          if c = CHR ''-'' then
            (if cs = [] then None
             else (case digits_value 0 cs of
                     None \<Rightarrow> None
                   | Some n \<Rightarrow> if n \<le> 9223372036854775808 then Some (- int n) else None))
          else
            (let ds = (if c = CHR ''+'' then cs else s) in
             if ds = [] then None
             else (case digits_value 0 ds of
                     None \<Rightarrow> None
                   | Some n \<Rightarrow> if n < 9223372036854775808 then Some (int n) else None)))"

definition parse_u64 :: "string \<Rightarrow> nat option" where
  "parse_u64 s =
     (case s of
        [] \<Rightarrow> None
      | c # cs \<Rightarrow>
          (let ds = (if c = CHR ''+'' then cs else s) in
           if ds = [] then None
           else (case digits_value 0 ds of
                   None \<Rightarrow> None
                 | Some n \<Rightarrow> if n < usize_mod then Some n else None)))"

definition digit_char :: "nat \<Rightarrow> char" where
  "digit_char d = char_of (if d < 10 then 48 + d else 55 + d)"

text \<open>Printing in base \<open>b\<close> without leading zeros: \<open>{}\<close> for ten, \<open>{:X}\<close> for sixteen.\<close>

fun show_base :: "nat \<Rightarrow> nat \<Rightarrow> string" where
  "show_base b n =
     (if b < 2 \<or> n < b then [digit_char n] else show_base b (n div b) @ [digit_char (n mod b)])"

declare show_base.simps [simp del]

definition show_nat :: "nat \<Rightarrow> string" where
  "show_nat n = show_base 10 n"

definition show_hex :: "nat \<Rightarrow> string" where
  "show_hex n = show_base 16 n"

lemma show_base_nonempty [simp]: "show_base b n \<noteq> []"
  by (subst show_base.simps) simp

lemma show_hex_nonempty [simp]: "show_hex n \<noteq> []"
  by (simp add: show_hex_def)

lemmas str_eval [str_simps] =
  strip_all.simps show_base.simps digit_value_def between_def byte_def cont_def
  to_ascii_lowercase_def eq_ignore_ascii_case_def

end
