(* ===== verification/StreamIo.thy ===== *)
theory StreamIo
  imports Prelude
begin

text \<open>
  The socket stream the sessions read from and write to (core/src/stream). The stream itself is a
  trait object over \<open>tokio\<close> sockets, code outside the repository: it is a type \<open>'s\<close> with a record of
  its operations, an argument of every definition that uses a stream. What the sessions rely on is
  stated as predicates over such a record (\<open>io_contract\<close>, \<open>delivers\<close>, \<open>accepts\<close>). The vectored write
  loop of core/src/stream/write\_vec.rs is the repository's own and is defined on top of it.
  An await point that has to wait resumes where it stopped, so only the result of a finished
  operation is visible; dropping a future at an await point is modelled where it matters.
\<close>

declare concat_eq_Nil_conv [simp del] Nil_eq_concat_conv [simp del]

section \<open>Operations of a stream\<close>

record 's io =
  io_read :: "nat \<Rightarrow> 's \<Rightarrow> (io_error + bytes) \<times> 's"
  io_read_buf :: "'s \<Rightarrow> (io_error + bytes) \<times> 's"
  io_write :: "bytes \<Rightarrow> 's \<Rightarrow> (io_error + nat) \<times> 's"
  io_write_vectored :: "bytes list \<Rightarrow> 's \<Rightarrow> (io_error + nat) \<times> 's"
  io_is_write_vectored :: "'s \<Rightarrow> bool"
  io_write_all :: "bytes \<Rightarrow> 's \<Rightarrow> (io_error + unit) \<times> 's"
  io_flush :: "'s \<Rightarrow> (io_error + unit) \<times> 's"

text \<open>
  The documented contract of \<open>AsyncRead\<close>, \<open>AsyncWrite\<close> and their extension traits, relative to the
  bytes \<open>sent s\<close> a stream has accepted so far: a read returns at most as many bytes as the buffer
  holds and writes nothing; a successful write of \<open>n\<close> bytes accepts a prefix of length \<open>n\<close>;
  \<open>write_all\<close> accepts everything or fails after a prefix; a flush accepts nothing new.
\<close>

definition io_contract :: "'s io \<Rightarrow> ('s \<Rightarrow> bytes) \<Rightarrow> bool" where
  "io_contract io sent \<longleftrightarrow>
     (\<forall>k s r s'. io_read io k s = (r, s') \<longrightarrow>
        sent s' = sent s \<and> (case r of Inl e \<Rightarrow> True | Inr bs \<Rightarrow> length bs \<le> k)) \<and>
     (\<forall>s r s'. io_read_buf io s = (r, s') \<longrightarrow> sent s' = sent s) \<and>
     (\<forall>bs s r s'. io_write io bs s = (r, s') \<longrightarrow>
        (case r of Inl e \<Rightarrow> sent s' = sent s
         | Inr n \<Rightarrow> n \<le> length bs \<and> sent s' = sent s @ take n bs)) \<and>
     (\<forall>bss s r s'. io_write_vectored io bss s = (r, s') \<longrightarrow>
        (case r of Inl e \<Rightarrow> sent s' = sent s
         | Inr n \<Rightarrow> n \<le> length (concat bss) \<and> sent s' = sent s @ take n (concat bss))) \<and>
     (\<forall>bs s r s'. io_write_all io bs s = (r, s') \<longrightarrow>
        (case r of Inl e \<Rightarrow> (\<exists>n. sent s' = sent s @ take n bs)
         | Inr u \<Rightarrow> sent s' = sent s @ bs)) \<and>
     (\<forall>s r s'. io_flush io s = (r, s') \<longrightarrow> sent s' = sent s)"

lemma io_read_contract:
  assumes "io_contract io sent" "io_read io k s = (r, s')"
  shows "sent s' = sent s" "r = Inr bs \<Longrightarrow> length bs \<le> k"
proof -
  note * = assms(1) [unfolded io_contract_def, THEN conjunct1, rule_format, OF assms(2)]
  then show "sent s' = sent s" by simp
  show "length bs \<le> k" if "r = Inr bs" using * that by simp
qed

lemma io_write_contract:
  assumes "io_contract io sent" "io_write io bs s = (r, s')"
  shows "case r of Inl e \<Rightarrow> sent s' = sent s
         | Inr n \<Rightarrow> n \<le> length bs \<and> sent s' = sent s @ take n bs"
  using assms(1) [unfolded io_contract_def, THEN conjunct2, THEN conjunct2, THEN conjunct1, rule_format, OF assms(2)] .

lemma io_write_vectored_contract:
  assumes "io_contract io sent" "io_write_vectored io bss s = (r, s')"
  shows "case r of Inl e \<Rightarrow> sent s' = sent s
         | Inr n \<Rightarrow> n \<le> length (concat bss) \<and> sent s' = sent s @ take n (concat bss)"
  using assms(1) [unfolded io_contract_def, THEN conjunct2, THEN conjunct2, THEN conjunct2, THEN conjunct1, rule_format, OF assms(2)] .

lemma io_write_all_contract:
  assumes "io_contract io sent" "io_write_all io bs s = (r, s')"
  shows "case r of Inl e \<Rightarrow> (\<exists>n. sent s' = sent s @ take n bs) | Inr u \<Rightarrow> sent s' = sent s @ bs"
  using assms(1) [unfolded io_contract_def, THEN conjunct2, THEN conjunct2, THEN conjunct2, THEN conjunct2, THEN conjunct1, rule_format, OF assms(2)] .

lemma io_flush_contract:
  assumes "io_contract io sent" "io_flush io s = (r, s')"
  shows "sent s' = sent s"
  using assms(1) [unfolded io_contract_def, THEN conjunct2, THEN conjunct2, THEN conjunct2, THEN conjunct2, THEN conjunct2, rule_format, OF assms(2)] .

text \<open>
  A peer that delivers exactly the bytes \<open>pending s\<close>, cut into arbitrary non-empty pieces, and then
  closes: every read with room returns a piece, and an empty one only at the end.
\<close>

definition delivers :: "'s io \<Rightarrow> ('s \<Rightarrow> bytes) \<Rightarrow> bool" where
  "delivers io pending \<longleftrightarrow>
     (\<forall>k s. 0 < k \<longrightarrow>
        (\<exists>bs s'. io_read io k s = (Inr bs, s') \<and> length bs \<le> k \<and> pending s = bs @ pending s'
                 \<and> (bs = [] \<longrightarrow> pending s = [])))"

lemma deliversE:
  assumes "delivers io pending" "0 < k"
  obtains bs s' where "io_read io k s = (Inr bs, s')" "length bs \<le> k"
    "pending s = bs @ pending s'" "bs = [] \<Longrightarrow> pending s = []"
  using assms unfolding delivers_def by blast

text \<open>A peer that accepts every byte: each write succeeds and takes at least one of the bytes.\<close>

definition accepts :: "'s io \<Rightarrow> ('s \<Rightarrow> bytes) \<Rightarrow> bool" where
  "accepts io sent \<longleftrightarrow>
     io_contract io sent \<and>
     (\<forall>bs s. bs \<noteq> [] \<longrightarrow> (\<exists>n s'. io_write io bs s = (Inr n, s') \<and> 0 < n)) \<and>
     (\<forall>bss s. concat bss \<noteq> [] \<longrightarrow> (\<exists>n s'. io_write_vectored io bss s = (Inr n, s') \<and> 0 < n)) \<and>
     (\<forall>bs s. \<exists>s'. io_write_all io bs s = (Inr (), s')) \<and>
     (\<forall>s. \<exists>s'. io_flush io s = (Inr (), s'))"

lemma accepts_contract: "accepts io sent \<Longrightarrow> io_contract io sent"
  by (simp add: accepts_def)

lemma accepts_write_all:
  assumes "accepts io sent"
  obtains s' where "io_write_all io bs s = (Inr (), s')" "sent s' = sent s @ bs"
proof -
  obtain s' where s': "io_write_all io bs s = (Inr (), s')"
    using assms unfolding accepts_def by blast
  with io_write_all_contract [OF accepts_contract [OF assms] s'] show ?thesis
    using that by simp
qed

lemma accepts_flush:
  assumes "accepts io sent"
  obtains s' where "io_flush io s = (Inr (), s')" "sent s' = sent s"
proof -
  obtain s' where s': "io_flush io s = (Inr (), s')"
    using assms unfolding accepts_def by blast
  with io_flush_contract [OF accepts_contract [OF assms] s'] show ?thesis
    using that by blast
qed

section \<open>The vectored write loop (write\_vec.rs)\<close>

text \<open>
  A \<open>Buf\<close> is a chain of byte chunks. \<open>chunk()\<close> is the first non-empty one, \<open>chunks_vectored\<close> the
  non-empty ones (at most 64 slots), \<open>advance\<close> drops bytes from the front and panics past the end.
\<close>

definition max_bufs :: nat where
  "max_bufs = 64"

fun buf_chunk :: "bytes list \<Rightarrow> bytes" where
  "buf_chunk [] = []"
| "buf_chunk (b # bs) = (if b = [] then buf_chunk bs else b)"

fun buf_advance :: "nat \<Rightarrow> bytes list \<Rightarrow> bytes list" where
  "buf_advance n [] = []"
| "buf_advance n (b # bs) =
     (if n \<le> length b then drop n b # bs else buf_advance (n - length b) bs)"

lemma concat_buf_advance: "n \<le> length (concat bs) \<Longrightarrow> concat (buf_advance n bs) = drop n (concat bs)"
  by (induction n bs rule: buf_advance.induct) auto

lemma buf_chunk_prefix: "\<exists>rest. concat bs = buf_chunk bs @ rest"
  by (induction bs rule: buf_chunk.induct) auto

lemma buf_chunk_Nil: "buf_chunk bs = [] \<longleftrightarrow> concat bs = []"
  by (induction bs rule: buf_chunk.induct) auto

lemma concat_filter_nonempty: "concat (filter (\<lambda>b. b \<noteq> []) bs) = concat bs"
  by (induction bs) auto

lemma filter_nonempty_Cons: "filter (\<lambda>b. b \<noteq> []) bs = c # cs \<Longrightarrow> c \<noteq> []"
  by (induction bs) (auto split: if_splits)

lemma concat_filter_Nil: "filter (\<lambda>b. b \<noteq> []) bs = [] \<longleftrightarrow> concat bs = []"
  by (auto simp: filter_empty_conv concat_eq_Nil_conv)

lemma concat_take_prefix: "\<exists>rest. concat bs = concat (take n bs) @ rest"
  by (metis append_take_drop_id concat_append)

definition poll_write_vec :: "'s io \<Rightarrow> bytes list \<Rightarrow> 's \<Rightarrow> nat outcome \<times> bytes list \<times> 's" where
  "poll_write_vec io buf s =
     (if concat buf = [] then (Ok 0, buf, s)
      else
        (let (r, s') = (if io_is_write_vectored io s
                        then io_write_vectored io (take max_bufs (filter (\<lambda>b. b \<noteq> []) buf)) s
                        else io_write io (buf_chunk buf) s)
         in case r of
              Inl e \<Rightarrow> (Err e, buf, s')
            | Inr n \<Rightarrow> if length (concat buf) < n then (Panic ''advance past end'', buf, s')
                       else (Ok n, buf_advance n buf, s')))"

lemma poll_write_vec_remaining:
  assumes "poll_write_vec io buf s = (Ok n, buf', s')"
  shows "n \<le> length (concat buf)" "concat buf' = drop n (concat buf)"
  using assms
  by (auto simp: poll_write_vec_def concat_buf_advance Let_def
        split: if_splits prod.splits sum.splits)

lemma poll_write_vec_shrinks:
  assumes "poll_write_vec io buf s = (Ok n, buf', s')" "n \<noteq> 0" "concat buf \<noteq> []"
  shows "length (concat buf') < length (concat buf)"
proof -
  have "0 < length (concat buf)" using assms(3) by blast
  then show ?thesis
    using poll_write_vec_remaining [OF assms(1)] assms(2) by (simp del: length_concat)
qed

text \<open>\<open>WriteVecAll::poll\<close>: a write that makes no progress is the error \<open>WriteZero\<close>.\<close>

function write_vec_all :: "'s io \<Rightarrow> bytes list \<Rightarrow> 's \<Rightarrow> unit outcome \<times> 's" where
  "write_vec_all io buf s =
     (if concat buf = [] then (Ok (), s)
      else
        (case poll_write_vec io buf s of
           (Err e, buf', s') \<Rightarrow> (Err e, s')
         | (Panic p, buf', s') \<Rightarrow> (Panic p, s')
         | (Ok n, buf', s') \<Rightarrow> if n = 0 then (Err WriteZero, s') else write_vec_all io buf' s'))"
  by pat_completeness auto
termination
proof (relation "measure (\<lambda>(io, buf, s). length (concat buf))", goal_cases)
  case 1
  show ?case by (rule wf_measure)
next
  case (2 io buf s w y n buf' s')
  then have "poll_write_vec io buf s = (Ok n, buf', s')" by simp
  from poll_write_vec_shrinks [OF this] 2 show ?case by (auto simp only: in_measure prod.case)
qed

declare write_vec_all.simps [simp del]

lemma poll_write_vec_contract:
  assumes "io_contract io sent" "poll_write_vec io buf s = (r, buf', s')"
  shows "case r of Ok n \<Rightarrow> sent s' = sent s @ take n (concat buf)
         | Err e \<Rightarrow> sent s' = sent s | Panic p \<Rightarrow> False"
proof (cases "concat buf = []")
  case True
  with assms show ?thesis by (auto simp: poll_write_vec_def)
next
  case False
  define presented where
    "presented = (if io_is_write_vectored io s
                  then concat (take max_bufs (filter (\<lambda>b. b \<noteq> []) buf)) else buf_chunk buf)"
  have pre: "\<exists>rest. concat buf = presented @ rest"
    using buf_chunk_prefix [of buf] concat_take_prefix [of "filter (\<lambda>b. b \<noteq> []) buf" max_bufs]
    by (auto simp: presented_def concat_filter_nonempty)
  obtain w t where w: "(if io_is_write_vectored io s
                  then io_write_vectored io (take max_bufs (filter (\<lambda>b. b \<noteq> []) buf)) s
                  else io_write io (buf_chunk buf) s) = (w, t)"
    by fastforce
  have c: "case w of Inl e \<Rightarrow> sent t = sent s
           | Inr n \<Rightarrow> n \<le> length presented \<and> sent t = sent s @ take n presented"
  proof (cases "io_is_write_vectored io s")
    case True
    with w have "io_write_vectored io (take max_bufs (filter (\<lambda>b. b \<noteq> []) buf)) s = (w, t)"
      by simp
    from io_write_vectored_contract [OF assms(1) this] True show ?thesis
      by (simp only: presented_def if_True)
  next
    case False
    with w have "io_write io (buf_chunk buf) s = (w, t)" by simp
    from io_write_contract [OF assms(1) this] False show ?thesis
      by (simp only: presented_def if_False)
  qed
  show ?thesis
    using assms(2) False w c pre
    by (auto simp: poll_write_vec_def Let_def split: sum.splits if_splits)
qed

lemma write_vec_all_contract:
  assumes "io_contract io sent" "write_vec_all io buf s = (r, s')"
  shows "case r of Ok u \<Rightarrow> sent s' = sent s @ concat buf
         | Err e \<Rightarrow> (\<exists>n. sent s' = sent s @ take n (concat buf)) | Panic p \<Rightarrow> False"
  using assms
proof (induction io buf s arbitrary: r s' rule: write_vec_all.induct)
  case (1 io buf s)
  show ?case
  proof (cases "concat buf = []")
    case True
    with "1.prems" show ?thesis by (auto simp: write_vec_all.simps)
  next
    case False
    obtain w buf1 s1 where p: "poll_write_vec io buf s = (w, buf1, s1)"
      by (metis prod_cases3)
    note c = poll_write_vec_contract [OF "1.prems"(1) p]
    show ?thesis
    proof (cases w)
      case (Ok n)
      note rem = poll_write_vec_remaining [OF p [unfolded Ok]]
      show ?thesis
      proof (cases "n = 0")
        case True
        with "1.prems"(2) False p Ok c show ?thesis
          by (auto simp: write_vec_all.simps [of io buf s] intro: exI [of _ 0])
      next
        case n: False
        with "1.prems"(2) False p Ok have "write_vec_all io buf1 s1 = (r, s')"
          by (simp add: write_vec_all.simps [of io buf s])
        then have ih: "case r of Ok u \<Rightarrow> sent s' = sent s1 @ concat buf1
            | Err e \<Rightarrow> (\<exists>n. sent s' = sent s1 @ take n (concat buf1)) | Panic p \<Rightarrow> False"
          by (rule "1.IH" [OF False p [symmetric] Ok refl n "1.prems"(1)])
        have all: "sent s1 @ concat buf1 = sent s @ concat buf"
          using c Ok rem by simp
        have part: "sent s1 @ take m (concat buf1) = sent s @ take (n + m) (concat buf)" for m
          using c Ok rem by (simp add: take_add)
        show ?thesis
        proof (cases r)
          case (Err e)
          with ih obtain m where "sent s' = sent s1 @ take m (concat buf1)" by auto
          with part Err show ?thesis by auto
        qed (use ih all in simp_all)
      qed
    next
      case (Err e)
      with "1.prems"(2) False p c show ?thesis
        by (auto simp: write_vec_all.simps [of io buf s] intro: exI [of _ 0])
    next
      case (Panic q)
      with c show ?thesis by simp
    qed
  qed
qed

lemma write_vec_all_accepts:
  assumes "accepts io sent"
  shows "\<exists>s'. write_vec_all io buf s = (Ok (), s') \<and> sent s' = sent s @ concat buf"
proof -
  have "\<exists>s'. write_vec_all io buf s = (Ok (), s')"
    using assms
  proof (induction io buf s rule: write_vec_all.induct)
    case (1 io buf s)
    show ?case
    proof (cases "concat buf = []")
      case True
      then show ?thesis by (simp add: write_vec_all.simps)
    next
      case False
      have "concat (take max_bufs (filter (\<lambda>b. b \<noteq> []) buf)) \<noteq> []"
        using False concat_filter_Nil [of buf] filter_nonempty_Cons [of buf]
        by (cases "filter (\<lambda>b. b \<noteq> []) buf") (auto simp: max_bufs_def)
      then obtain n t where n: "(if io_is_write_vectored io s
           then io_write_vectored io (take max_bufs (filter (\<lambda>b. b \<noteq> []) buf)) s
           else io_write io (buf_chunk buf) s) = (Inr n, t)" "0 < n"
        using "1.prems" False by (metis (no_types, lifting) accepts_def buf_chunk_Nil)
      obtain w buf1 s1 where p: "poll_write_vec io buf s = (w, buf1, s1)"
        by (metis prod_cases3)
      with n False poll_write_vec_contract [OF accepts_contract [OF "1.prems"] p]
      have w: "w = Ok n" by (auto simp: poll_write_vec_def split: if_splits)
      with "1.IH" [OF False p [symmetric] w refl] n "1.prems"
      show ?thesis by (simp add: write_vec_all.simps [of io buf s] False p)
    qed
  qed
  then obtain s' where s': "write_vec_all io buf s = (Ok (), s')" ..
  with write_vec_all_contract [OF accepts_contract [OF assms] s'] show ?thesis by auto
qed

section \<open>A scripted stream\<close>

text \<open>
  A concrete stream for the witnesses: the peer's bytes arrive in the given segments, everything
  written is recorded.
\<close>

record script =
  rx :: "bytes list"
  tx :: bytes

fun script_read :: "nat \<Rightarrow> script \<Rightarrow> (io_error + bytes) \<times> script" where
  "script_read k s =
     (case filter (\<lambda>b. b \<noteq> []) (rx s) of
        [] \<Rightarrow> (Inr [], s)
      | b # bs \<Rightarrow> (Inr (take k b), s\<lparr>rx := drop k b # bs\<rparr>))"

definition script_io :: "script io" where
  "script_io =
     \<lparr>io_read = script_read,
      io_read_buf = script_read 1024,
      io_write = (\<lambda>bs s. (Inr (length bs), s\<lparr>tx := tx s @ bs\<rparr>)),
      io_write_vectored = (\<lambda>bss s. (Inr (length (concat bss)), s\<lparr>tx := tx s @ concat bss\<rparr>)),
      io_is_write_vectored = (\<lambda>s. True),
      io_write_all = (\<lambda>bs s. (Inr (), s\<lparr>tx := tx s @ bs\<rparr>)),
      io_flush = (\<lambda>s. (Inr (), s))\<rparr>"

lemma script_accepts: "accepts script_io tx"
  by (auto simp: accepts_def io_contract_def script_io_def split: list.splits)

lemma script_delivers: "delivers script_io (\<lambda>s. concat (rx s))"
proof -
  have "\<exists>bs s'. io_read script_io k s = (Inr bs, s') \<and> length bs \<le> k
            \<and> concat (rx s) = bs @ concat (rx s') \<and> (bs = [] \<longrightarrow> concat (rx s) = [])"
    if "0 < k" for k s
  proof (cases "filter (\<lambda>b. b \<noteq> []) (rx s)")
    case Nil
    then have "concat (rx s) = []" by (simp add: concat_filter_Nil)
    with Nil show ?thesis by (auto simp: script_io_def)
  next
    case (Cons b bs)
    then have "b \<noteq> []" by (rule filter_nonempty_Cons)
    moreover have "concat (rx s) = b @ concat bs"
      using Cons concat_filter_nonempty [of "rx s"] by simp
    ultimately show ?thesis
      using Cons that by (auto simp: script_io_def)
  qed
  then show ?thesis unfolding delivers_def by blast
qed

end
