(* ===== verification/Buffers.thy ===== *)
theory Buffers
  imports Prelude
begin

text \<open>
  The two small data types every session uses: the offsets into a shared buffer
  (core/src/session/offset.rs) and the bounded copy of a request body that is kept for a retry
  (core/src/session/buffer.rs).
\<close>

section \<open>Offsets (offset.rs)\<close>

datatype offset = Offset nat nat

fun offset_new :: "nat \<Rightarrow> nat \<Rightarrow> offset" where
  "offset_new start len = Offset start (uadd start len)"

fun offset_get :: "offset \<Rightarrow> bytes \<Rightarrow> bytes outcome" where
  "offset_get (Offset a b) buf = get_slice a b buf"

fun offset_get_bytes :: "offset \<Rightarrow> bytes \<Rightarrow> bytes outcome" where
  "offset_get_bytes (Offset a b) buf = get_slice a b buf"

fun offset_len :: "offset \<Rightarrow> nat" where
  "offset_len (Offset a b) = usub b a"

fun offset_is_empty :: "offset \<Rightarrow> bool" where
  "offset_is_empty (Offset a b) \<longleftrightarrow> b = a"

record kv_offset =
  kv_key :: offset
  kv_value :: offset

definition kv_offset_new :: "nat \<Rightarrow> nat \<Rightarrow> nat \<Rightarrow> nat \<Rightarrow> kv_offset" where
  "kv_offset_new key_start key_len value_start value_len =
     \<lparr>kv_key = Offset key_start (uadd key_start key_len),
      kv_value = Offset value_start (uadd value_start value_len)\<rparr>"

definition kv_get_key :: "kv_offset \<Rightarrow> bytes \<Rightarrow> bytes outcome" where
  "kv_get_key kv buf = offset_get (kv_key kv) buf"

definition kv_get_value :: "kv_offset \<Rightarrow> bytes \<Rightarrow> bytes outcome" where
  "kv_get_value kv buf = offset_get (kv_value kv) buf"

definition kv_get_key_bytes :: "kv_offset \<Rightarrow> bytes \<Rightarrow> bytes outcome" where
  "kv_get_key_bytes kv buf = offset_get_bytes (kv_key kv) buf"

definition kv_get_value_bytes :: "kv_offset \<Rightarrow> bytes \<Rightarrow> bytes outcome" where
  "kv_get_value_bytes kv buf = offset_get_bytes (kv_value kv) buf"

lemma offset_new_get:
  assumes "start + len \<le> length buf" "length buf < usize_mod"
  shows "offset_get (offset_new start len) buf = Ok (slice start (start + len) buf)"
    and "offset_len (offset_new start len) = len"
  using assms by simp_all

text \<open>A range that ends past the buffer, or whose end has wrapped around, panics when it is used.\<close>

lemma offset_new_get_panics:
  assumes "length buf < start + len" "start \<le> length buf" "length buf < usize_mod" "0 < len" "len < usize_mod"
  shows "is_panic (offset_get (offset_new start len) buf)"
proof (cases "start + len < usize_mod")
  case True
  with assms show ?thesis by simp
next
  case False
  have "uadd start len = start + len - usize_mod"
    using False assms by (simp add: uadd_def mod_if)
  with False assms show ?thesis by simp
qed

section \<open>The storage buffer (buffer.rs)\<close>

record storage_buffer =
  sb_buffer :: bytes
  sb_capacity :: nat
  sb_truncated :: bool

definition storage_new :: "nat \<Rightarrow> storage_buffer" where
  "storage_new cap = \<lparr>sb_buffer = [], sb_capacity = cap, sb_truncated = False\<rparr>"

definition write_buffer :: "bytes \<Rightarrow> storage_buffer \<Rightarrow> storage_buffer" where
  "write_buffer bs sb =
     (if \<not> sb_truncated sb \<and> length (sb_buffer sb) + length bs \<le> sb_capacity sb
      then sb\<lparr>sb_buffer := sb_buffer sb @ bs\<rparr>
      else sb\<lparr>sb_truncated := True\<rparr>)"

definition clear_buffer :: "storage_buffer \<Rightarrow> storage_buffer" where
  "clear_buffer sb = sb\<lparr>sb_truncated := False, sb_buffer := []\<rparr>"

definition is_buffer_empty :: "storage_buffer \<Rightarrow> bool" where
  "is_buffer_empty sb \<longleftrightarrow> length (sb_buffer sb) = 0"

definition is_buffer_truncated :: "storage_buffer \<Rightarrow> bool" where
  "is_buffer_truncated sb = sb_truncated sb"

definition get_buffer :: "storage_buffer \<Rightarrow> bytes option" where
  "get_buffer sb = (if \<not> is_buffer_empty sb then Some (sb_buffer sb) else None)"

text \<open>The writes of one request body, in order.\<close>

definition write_buffers :: "bytes list \<Rightarrow> storage_buffer \<Rightarrow> storage_buffer" where
  "write_buffers bss sb = fold write_buffer bss sb"

lemma write_buffer_capacity [simp]: "sb_capacity (write_buffer bs sb) = sb_capacity sb"
  by (simp add: write_buffer_def)

text \<open>
  What the buffer holds after the pieces written so far, \<open>xs\<close>: all of them if they fit, otherwise a
  prefix of the pieces and the truncation mark.
\<close>

definition storage_holds :: "bytes list \<Rightarrow> storage_buffer \<Rightarrow> bool" where
  "storage_holds xs sb \<longleftrightarrow>
     length (sb_buffer sb) \<le> sb_capacity sb \<and>
     sb_truncated sb = (sb_capacity sb < length (concat xs)) \<and>
     (if sb_truncated sb then prefix (sb_buffer sb) (concat xs) else sb_buffer sb = concat xs)"

lemma storage_holds_new [inv_intros]: "storage_holds [] (storage_new cap)"
  by (simp add: storage_holds_def storage_new_def)

lemma storage_holds_clear [inv_intros]: "storage_holds [] (clear_buffer sb)"
  by (simp add: storage_holds_def clear_buffer_def)

lemma storage_holds_write [inv_intros]:
  "storage_holds xs sb \<Longrightarrow> storage_holds (xs @ [bs]) (write_buffer bs sb)"
  by (auto simp: storage_holds_def write_buffer_def prefix_def)

lemma storage_holds_writes [inv_intros]:
  "storage_holds xs sb \<Longrightarrow> storage_holds (xs @ bss) (write_buffers bss sb)"
proof (induction bss arbitrary: xs sb)
  case Nil
  then show ?case by (simp add: write_buffers_def)
next
  case (Cons b bss)
  from Cons.IH [OF storage_holds_write [OF Cons.prems]]
  show ?case by (simp add: write_buffers_def)
qed

lemma write_buffers_capacity [simp]: "sb_capacity (write_buffers bss sb) = sb_capacity sb"
  by (induction bss arbitrary: sb) (simp_all add: write_buffers_def)

lemmas storage_facts = storage_holds_def is_buffer_truncated_def is_buffer_empty_def get_buffer_def

end
