(* ===== verification/Headers.thy ===== *)
theory Headers
  imports Prelude
begin

text \<open>
  Message headers (core/src/session/case.rs, request.rs, response.rs): a request or response header
  keeps the \<open>http\<close> crate's header map and, beside it, a second map with the names as they were
  spelled. The crate is code outside the repository: its maps are a type \<open>'m\<close> with a record of
  operations, an argument of every definition; \<open>http_laws\<close> states the documented behaviour.
  Serialisation zips the two maps and panics if their names differ; the locale \<open>header_block\<close> shows
  for both kinds of header that they never do.
\<close>

section \<open>The http crate\<close>

text \<open>
  A header name is its canonical lower-case text, a header value its bytes, a method and a URI
  their text. \<open>name_of\<close>, \<open>value_of\<close>, \<open>method_of\<close>, \<open>uri_of\<close>, \<open>status_of\<close> are the fallible conversions.
\<close>

datatype http_version = HTTP_09 | HTTP_10 | HTTP_11 | HTTP_2 | HTTP_3

record 'm http =
  hm_new :: 'm
  hm_append :: "string \<Rightarrow> bytes \<Rightarrow> 'm \<Rightarrow> 'm"
  hm_insert :: "string \<Rightarrow> bytes \<Rightarrow> 'm \<Rightarrow> 'm"
  hm_remove :: "string \<Rightarrow> 'm \<Rightarrow> 'm"
  hm_get_all :: "string \<Rightarrow> 'm \<Rightarrow> bytes list"
  hm_iter :: "'m \<Rightarrow> (string \<times> bytes) list"
  name_of :: "bytes \<Rightarrow> string option"
  value_of :: "bytes \<Rightarrow> bytes option"
  method_of :: "bytes \<Rightarrow> string option"
  uri_of :: "bytes \<Rightarrow> string option"
  uri_path :: "string \<Rightarrow> string"
  uri_query :: "string \<Rightarrow> string option"
  status_of :: "nat \<Rightarrow> nat option"
  canonical_reason :: "nat \<Rightarrow> string option"

definition hm_names :: "'m http \<Rightarrow> 'm \<Rightarrow> string list" where
  "hm_names H m = map fst (hm_iter H m)"

text \<open>\<open>HeaderMap::get\<close> returns the first of the values.\<close>

definition hm_get :: "'m http \<Rightarrow> string \<Rightarrow> 'm \<Rightarrow> bytes option" where
  "hm_get H n m = (case hm_get_all H n m of [] \<Rightarrow> None | v # vs \<Rightarrow> Some v)"

text \<open>
  Documented behaviour: a multimap; iterating yields the values of each name in insertion order; the
  order in which the names come depends on the names that were added and removed, not on the values.
\<close>

definition names_stable :: "'m http \<Rightarrow> bool" where
  "names_stable H \<longleftrightarrow>
     (\<forall>k v v' m m'. hm_names H m = hm_names H m' \<longrightarrow>
        hm_names H (hm_append H k v m) = hm_names H (hm_append H k v' m') \<and>
        hm_names H (hm_insert H k v m) = hm_names H (hm_insert H k v' m') \<and>
        hm_names H (hm_remove H k m) = hm_names H (hm_remove H k m'))"

definition http_laws :: "'m http \<Rightarrow> bool" where
  "http_laws H \<longleftrightarrow>
     hm_iter H (hm_new H) = [] \<and>
     (\<forall>n m. hm_get_all H n m = map snd (filter (\<lambda>e. fst e = n) (hm_iter H m))) \<and>
     (\<forall>n k v m. hm_get_all H n (hm_append H k v m)
        = (if n = k then hm_get_all H n m @ [v] else hm_get_all H n m)) \<and>
     (\<forall>n k v m. hm_get_all H n (hm_insert H k v m) = (if n = k then [v] else hm_get_all H n m)) \<and>
     (\<forall>n k m. hm_get_all H n (hm_remove H k m) = (if n = k then [] else hm_get_all H n m)) \<and>
     names_stable H"

section \<open>Case-preserving names (case.rs)\<close>

text \<open>
  The implementors of \<open>IntoCaseHeaderName\<close>: text (\<open>String\<close>, \<open>&str\<close>, \<open>Bytes\<close>, \<open>CaseHeaderName\<close>) is kept as
  it is, a \<open>HeaderName\<close> gets its usual title case.
\<close>

datatype header_key = KText bytes | KName string

definition titled_header_name_str :: "string \<Rightarrow> string option" where
  "titled_header_name_str n =
     map_of [(''age'', ''Age''), (''cache-control'', ''Cache-Control''), (''connection'', ''Connection''),
       (''content-type'', ''Content-Type''), (''content-encoding'', ''Content-Encoding''),
       (''content-length'', ''Content-Length''), (''date'', ''Date''),
       (''transfer-encoding'', ''Transfer-Encoding''), (''host'', ''Host''), (''server'', ''Server''),
       (''set-cookie'', ''Set-Cookie'')] n"

definition titled_header_name :: "string \<Rightarrow> bytes" where
  "titled_header_name n = (case titled_header_name_str n of None \<Rightarrow> n | Some s \<Rightarrow> s)"

fun into_case_header_name :: "header_key \<Rightarrow> bytes" where
  "into_case_header_name (KText b) = b"
| "into_case_header_name (KName n) = titled_header_name n"

text \<open>The name a lookup or removal uses: text that is no header name finds nothing.\<close>

fun lookup_name :: "'m http \<Rightarrow> header_key \<Rightarrow> string option" where
  "lookup_name H (KText b) = name_of H b"
| "lookup_name H (KName n) = Some n"

lemma titled_same_name: "map to_ascii_lowercase (titled_header_name n) = map to_ascii_lowercase n"
proof (cases "titled_header_name_str n")
  case None
  then show ?thesis by (simp add: titled_header_name_def)
next
  case (Some t)
  then have "(n, t) \<in> set [(''age'', ''Age''), (''cache-control'', ''Cache-Control''),
       (''connection'', ''Connection''),
       (''content-type'', ''Content-Type''), (''content-encoding'', ''Content-Encoding''),
       (''content-length'', ''Content-Length''), (''date'', ''Date''),
       (''transfer-encoding'', ''Transfer-Encoding''), (''host'', ''Host''), (''server'', ''Server''),
       (''set-cookie'', ''Set-Cookie'')]"
    unfolding titled_header_name_str_def by (rule map_of_SomeD)
  moreover have "\<forall>(n, t) \<in> set [(''age'', ''Age''), (''cache-control'', ''Cache-Control''),
       (''connection'', ''Connection''),
       (''content-type'', ''Content-Type''), (''content-encoding'', ''Content-Encoding''),
       (''content-length'', ''Content-Length''), (''date'', ''Date''),
       (''transfer-encoding'', ''Transfer-Encoding''), (''host'', ''Host''), (''server'', ''Server''),
       (''set-cookie'', ''Set-Cookie'')]. map to_ascii_lowercase t = map to_ascii_lowercase n"
    by code_simp
  ultimately show ?thesis using Some by (auto simp: titled_header_name_def)
qed

section \<open>The two maps of a header\<close>

text \<open>A value is given as text, which is validated, or already as a \<open>HeaderValue\<close>.\<close>

datatype header_val = VText bytes | VRaw bytes

fun into_header_value :: "'m http \<Rightarrow> header_val \<Rightarrow> bytes option" where
  "into_header_value H (VText b) = value_of H b"
| "into_header_value H (VRaw b) = Some b"

fun header_pair :: "'m http \<Rightarrow> header_key \<Rightarrow> header_val \<Rightarrow> (bytes \<times> string \<times> bytes) outcome" where
  "header_pair H k v =
     (let case_name = into_case_header_name k
      in case name_of H case_name of
           None \<Rightarrow> Panic ''Failed to convert header name''
         | Some hn \<Rightarrow>
             (case into_header_value H v of
                None \<Rightarrow> Panic ''Failed to convert header value''
              | Some hv \<Rightarrow> Ok (case_name, hn, hv)))"

text \<open>The loop that writes the header lines, over the two iterations zipped.\<close>

fun put_headers :: "(string \<times> bytes) list \<Rightarrow> (string \<times> bytes) list \<Rightarrow> bytes outcome" where
  "put_headers ((h, c) # cs) ((h', v) # vs) =
     (if h \<noteq> h' then Panic ''header iter mismatch''
      else bind_outcome (put_headers cs vs) (\<lambda>rest. Ok (c @ '': '' @ v @ crlf @ rest)))"
| "put_headers cs vs = Ok []"

definition header_lines :: "(string \<times> bytes) list \<Rightarrow> (string \<times> bytes) list \<Rightarrow> bytes" where
  "header_lines cs vs = concat (map2 (\<lambda>c v. snd c @ '': '' @ snd v @ crlf) cs vs)"

lemma put_headers_in_step: "map fst cs = map fst vs \<Longrightarrow> put_headers cs vs = Ok (header_lines cs vs)"
  by (induction cs vs rule: put_headers.induct) (auto simp: header_lines_def)

definition raw_version :: "http_version \<Rightarrow> string outcome" where
  "raw_version v =
     (case v of
        HTTP_09 \<Rightarrow> Ok ''HTTP/0.9'' | HTTP_10 \<Rightarrow> Ok ''HTTP/1.0'' | HTTP_11 \<Rightarrow> Ok ''HTTP/1.1''
      | HTTP_2 \<Rightarrow> Ok ''HTTP/2'' | HTTP_3 \<Rightarrow> Panic ''unsupported version'')"

definition serve_capacity :: "nat option \<Rightarrow> nat" where
  "serve_capacity s = min (case s of None \<Rightarrow> 8 | Some n \<Rightarrow> n) 4096"

section \<open>Request headers (request.rs)\<close>

record 'm request_header =
  rq_method :: string
  rq_uri :: string
  rq_version :: http_version
  rq_headers :: 'm
  rq_case :: 'm
  rq_raw_path :: bytes

definition rq_build :: "'m http \<Rightarrow> bytes \<Rightarrow> bytes \<Rightarrow> http_version \<Rightarrow> 'm request_header outcome" where
  "rq_build H method raw_path version =
     (case method_of H method of
        None \<Rightarrow> Panic ''Failed to convert method''
      | Some m \<Rightarrow>
          (case uri_of H raw_path of
             None \<Rightarrow> Panic ''Failed to create base request''
           | Some u \<Rightarrow>
               Ok \<lparr>rq_method = m, rq_uri = u, rq_version = version, rq_headers = hm_new H,
                   rq_case = hm_new H, rq_raw_path = raw_path\<rparr>))"

definition rq_append_header ::
  "'m http \<Rightarrow> header_key \<Rightarrow> header_val \<Rightarrow> 'm request_header \<Rightarrow> 'm request_header outcome" where
  "rq_append_header H k v h =
     bind_outcome (header_pair H k v) (\<lambda>(c, hn, hv).
       Ok (h\<lparr>rq_case := hm_append H hn c (rq_case h), rq_headers := hm_append H hn hv (rq_headers h)\<rparr>))"

definition rq_insert_header ::
  "'m http \<Rightarrow> header_key \<Rightarrow> header_val \<Rightarrow> 'm request_header \<Rightarrow> 'm request_header outcome" where
  "rq_insert_header H k v h =
     bind_outcome (header_pair H k v) (\<lambda>(c, hn, hv).
       Ok (h\<lparr>rq_case := hm_insert H hn c (rq_case h), rq_headers := hm_insert H hn hv (rq_headers h)\<rparr>))"

definition rq_remove_header :: "'m http \<Rightarrow> header_key \<Rightarrow> 'm request_header \<Rightarrow> 'm request_header" where
  "rq_remove_header H k h =
     (case lookup_name H k of
        None \<Rightarrow> h
      | Some n \<Rightarrow> h\<lparr>rq_case := hm_remove H n (rq_case h), rq_headers := hm_remove H n (rq_headers h)\<rparr>)"

definition rq_get_headers :: "'m http \<Rightarrow> header_key \<Rightarrow> 'm request_header \<Rightarrow> bytes list" where
  "rq_get_headers H k h = (case lookup_name H k of None \<Rightarrow> [] | Some n \<Rightarrow> hm_get_all H n (rq_headers h))"

definition rq_get_header :: "'m http \<Rightarrow> header_key \<Rightarrow> 'm request_header \<Rightarrow> bytes option" where
  "rq_get_header H k h = (case lookup_name H k of None \<Rightarrow> None | Some n \<Rightarrow> hm_get H n (rq_headers h))"

definition rq_set_method :: "string \<Rightarrow> 'm request_header \<Rightarrow> 'm request_header" where
  "rq_set_method m h = h\<lparr>rq_method := m\<rparr>"

definition rq_set_uri :: "string \<Rightarrow> 'm request_header \<Rightarrow> 'm request_header" where
  "rq_set_uri u h = h\<lparr>rq_uri := u\<rparr>"

definition rq_set_version :: "http_version \<Rightarrow> 'm request_header \<Rightarrow> 'm request_header" where
  "rq_set_version v h = h\<lparr>rq_version := v\<rparr>"

definition rq_build_to_buffer :: "'m http \<Rightarrow> 'm request_header \<Rightarrow> bytes outcome" where
  "rq_build_to_buffer H h =
     bind_outcome (raw_version (rq_version h)) (\<lambda>v.
     bind_outcome (put_headers (hm_iter H (rq_case h)) (hm_iter H (rq_headers h))) (\<lambda>lines.
       Ok (rq_method h @ '' '' @ rq_raw_path h @ '' '' @ v @ crlf @ lines @ crlf)))"

section \<open>Response headers (response.rs)\<close>

record 'm response_header =
  rs_status :: nat
  rs_version :: http_version
  rs_headers :: 'm
  rs_case :: 'm
  rs_reason :: "string option"

definition rs_build :: "'m http \<Rightarrow> nat \<Rightarrow> http_version \<Rightarrow> 'm response_header outcome" where
  "rs_build H status version =
     (case status_of H status of
        None \<Rightarrow> Panic ''Failed to convert status code''
      | Some st \<Rightarrow>
          Ok \<lparr>rs_status = st, rs_version = version, rs_headers = hm_new H, rs_case = hm_new H,
              rs_reason = None\<rparr>)"

definition rs_append_header ::
  "'m http \<Rightarrow> header_key \<Rightarrow> header_val \<Rightarrow> 'm response_header \<Rightarrow> 'm response_header outcome" where
  "rs_append_header H k v h =
     bind_outcome (header_pair H k v) (\<lambda>(c, hn, hv).
       Ok (h\<lparr>rs_case := hm_append H hn c (rs_case h), rs_headers := hm_append H hn hv (rs_headers h)\<rparr>))"

definition rs_insert_header ::
  "'m http \<Rightarrow> header_key \<Rightarrow> header_val \<Rightarrow> 'm response_header \<Rightarrow> 'm response_header outcome" where
  "rs_insert_header H k v h =
     bind_outcome (header_pair H k v) (\<lambda>(c, hn, hv).
       Ok (h\<lparr>rs_case := hm_insert H hn c (rs_case h), rs_headers := hm_insert H hn hv (rs_headers h)\<rparr>))"

definition rs_remove_header :: "'m http \<Rightarrow> header_key \<Rightarrow> 'm response_header \<Rightarrow> 'm response_header" where
  "rs_remove_header H k h =
     (case lookup_name H k of
        None \<Rightarrow> h
      | Some n \<Rightarrow> h\<lparr>rs_case := hm_remove H n (rs_case h), rs_headers := hm_remove H n (rs_headers h)\<rparr>)"

definition rs_get_headers :: "'m http \<Rightarrow> header_key \<Rightarrow> 'm response_header \<Rightarrow> bytes list" where
  "rs_get_headers H k h = (case lookup_name H k of None \<Rightarrow> [] | Some n \<Rightarrow> hm_get_all H n (rs_headers h))"

definition rs_get_header :: "'m http \<Rightarrow> header_key \<Rightarrow> 'm response_header \<Rightarrow> bytes option" where
  "rs_get_header H k h = (case lookup_name H k of None \<Rightarrow> None | Some n \<Rightarrow> hm_get H n (rs_headers h))"

definition rs_set_version :: "http_version \<Rightarrow> 'm response_header \<Rightarrow> 'm response_header" where
  "rs_set_version v h = h\<lparr>rs_version := v\<rparr>"

definition rs_set_status_code ::
  "'m http \<Rightarrow> nat \<Rightarrow> 'm response_header \<Rightarrow> 'm response_header outcome" where
  "rs_set_status_code H status h =
     (case status_of H status of
        None \<Rightarrow> Panic ''Failed to convert status code''
      | Some st \<Rightarrow> Ok (h\<lparr>rs_status := st\<rparr>))"

definition rs_set_reason_phrase ::
  "'m http \<Rightarrow> string option \<Rightarrow> 'm response_header \<Rightarrow> 'm response_header" where
  "rs_set_reason_phrase H phrase h =
     (if phrase = canonical_reason H (rs_status h) then h\<lparr>rs_reason := None\<rparr>
      else h\<lparr>rs_reason := phrase\<rparr>)"

definition rs_get_reason_phrase :: "'m http \<Rightarrow> 'm response_header \<Rightarrow> string option" where
  "rs_get_reason_phrase H h =
     (case rs_reason h of Some r \<Rightarrow> Some r | None \<Rightarrow> canonical_reason H (rs_status h))"

fun show_status :: "nat \<Rightarrow> string" where
  "show_status n = [digit_char (n div 100 mod 10), digit_char (n div 10 mod 10), digit_char (n mod 10)]"

definition rs_build_to_buffer :: "'m http \<Rightarrow> 'm response_header \<Rightarrow> bytes outcome" where
  "rs_build_to_buffer H h =
     bind_outcome (raw_version (rs_version h)) (\<lambda>v.
     bind_outcome (put_headers (hm_iter H (rs_case h)) (hm_iter H (rs_headers h))) (\<lambda>lines.
       Ok (v @ '' '' @ show_status (rs_status h) @ '' ''
           @ (case rs_get_reason_phrase H h of Some r \<Rightarrow> r | None \<Rightarrow> []) @ crlf @ lines @ crlf)))"

definition is_informational :: "nat \<Rightarrow> bool" where
  "is_informational st \<longleftrightarrow> 100 \<le> st \<and> st \<le> 199"

section \<open>The two maps stay in step\<close>

lemma names_append:
  assumes "http_laws H" "hm_names H m = hm_names H m'"
  shows "hm_names H (hm_append H k v m) = hm_names H (hm_append H k v' m')"
    and "hm_names H (hm_insert H k v m) = hm_names H (hm_insert H k v' m')"
    and "hm_names H (hm_remove H k m) = hm_names H (hm_remove H k m')"
proof -
  have "names_stable H" using assms(1) by (simp add: http_laws_def)
  note * = this [unfolded names_stable_def, rule_format, OF assms(2)]
  show "hm_names H (hm_append H k v m) = hm_names H (hm_append H k v' m')" by (rule * [THEN conjunct1])
  show "hm_names H (hm_insert H k v m) = hm_names H (hm_insert H k v' m')"
    by (rule * [THEN conjunct2, THEN conjunct1])
  show "hm_names H (hm_remove H k m) = hm_names H (hm_remove H k m')"
    by (rule * [THEN conjunct2, THEN conjunct2])
qed

datatype header_op = HAppend header_key header_val | HInsert header_key header_val | HRemove header_key

fun apply_header_ops ::
  "(header_key \<Rightarrow> header_val \<Rightarrow> 'h \<Rightarrow> 'h outcome) \<Rightarrow> (header_key \<Rightarrow> header_val \<Rightarrow> 'h \<Rightarrow> 'h outcome) \<Rightarrow>
   (header_key \<Rightarrow> 'h \<Rightarrow> 'h) \<Rightarrow> header_op list \<Rightarrow> 'h \<Rightarrow> 'h outcome" where
  "apply_header_ops app ins rem [] h = Ok h"
| "apply_header_ops app ins rem (HAppend k v # ops) h =
     bind_outcome (app k v h) (apply_header_ops app ins rem ops)"
| "apply_header_ops app ins rem (HInsert k v # ops) h =
     bind_outcome (ins k v h) (apply_header_ops app ins rem ops)"
| "apply_header_ops app ins rem (HRemove k # ops) h = apply_header_ops app ins rem ops (rem k h)"

text \<open>
  What a series of operations leaves, told over the calls alone: the entries (name, spelling, value)
  in the order they were added. An insertion first drops the entries of its name; text is spelled as
  it was given, a \<open>HeaderName\<close> in its usual title case.
\<close>

fun given_spelling :: "header_key \<Rightarrow> bytes" where
  "given_spelling (KText b) = b"
| "given_spelling (KName n) = titled_header_name n"

definition header_entry :: "'m http \<Rightarrow> header_key \<Rightarrow> header_val \<Rightarrow> (string \<times> bytes \<times> bytes) list" where
  "header_entry H k v =
     (case (name_of H (given_spelling k), into_header_value H v) of
        (Some n, Some x) \<Rightarrow> [(n, given_spelling k, x)] | _ \<Rightarrow> [])"

definition without_name :: "string option \<Rightarrow> (string \<times> 'e) list \<Rightarrow> (string \<times> 'e) list" where
  "without_name n es = filter (\<lambda>e. Some (fst e) \<noteq> n) es"

definition of_name :: "string \<Rightarrow> (string \<times> 'e) list \<Rightarrow> 'e list" where
  "of_name n es = map snd (filter (\<lambda>e. fst e = n) es)"

fun kept_headers ::
  "'m http \<Rightarrow> header_op list \<Rightarrow> (string \<times> bytes \<times> bytes) list \<Rightarrow> (string \<times> bytes \<times> bytes) list" where
  "kept_headers H [] es = es"
| "kept_headers H (HAppend k v # ops) es = kept_headers H ops (es @ header_entry H k v)"
| "kept_headers H (HInsert k v # ops) es =
     kept_headers H ops (without_name (name_of H (given_spelling k)) es @ header_entry H k v)"
| "kept_headers H (HRemove k # ops) es = kept_headers H ops (without_name (lookup_name H k) es)"

text \<open>The entries of the two maps side by side, as the lines are written.\<close>

definition wire_headers :: "(string \<times> bytes) list \<Rightarrow> (string \<times> bytes) list \<Rightarrow> (string \<times> bytes \<times> bytes) list" where
  "wire_headers cs vs = map2 (\<lambda>c v. (fst v, snd c, snd v)) cs vs"

lemma header_lines_wire:
  "header_lines cs vs = concat (map (\<lambda>(n, c, v). c @ '': '' @ v @ crlf) (wire_headers cs vs))"
  by (auto simp: header_lines_def wire_headers_def intro!: arg_cong [of _ _ concat] map_cong)

lemma of_name_wire:
  "map fst cs = map fst vs \<Longrightarrow> of_name n (wire_headers cs vs)
     = zip (map snd (filter (\<lambda>e. fst e = n) cs)) (map snd (filter (\<lambda>e. fst e = n) vs))"
proof (induction cs arbitrary: vs)
  case Nil
  then show ?case by (simp add: wire_headers_def of_name_def)
next
  case (Cons c cs)
  then obtain v vs' where "vs = v # vs'" "fst c = fst v" "map fst cs = map fst vs'"
    by (cases vs) auto
  with Cons.IH [of vs'] show ?case by (simp add: wire_headers_def of_name_def)
qed

lemma of_name_simps [simp]:
  "of_name n [] = []"
  "of_name n (es @ es') = of_name n es @ of_name n es'"
  "of_name n (without_name k es) = (if k = Some n then [] else of_name n es)"
  by (auto simp: of_name_def without_name_def filter_empty_conv intro!: arg_cong [of _ _ "map snd"] filter_cong)

lemma header_entry_pair:
  assumes "header_pair H k v = Ok (c, n, x)"
  shows "header_entry H k v = [(n, c, x)]" "name_of H (given_spelling k) = Some n"
proof -
  have "into_case_header_name k = given_spelling k"
    by (cases k) simp_all
  then show "header_entry H k v = [(n, c, x)]" "name_of H (given_spelling k) = Some n"
    using assms by (auto simp: header_entry_def Let_def split: option.splits)
qed

text \<open>The values and the spellings under a name are those of the entries kept.\<close>

definition holds_entries :: "'m http \<Rightarrow> 'm \<Rightarrow> 'm \<Rightarrow> (string \<times> bytes \<times> bytes) list \<Rightarrow> bool" where
  "holds_entries H cs vs es \<longleftrightarrow>
     (\<forall>n. hm_get_all H n cs = map fst (of_name n es) \<and> hm_get_all H n vs = map snd (of_name n es))"

lemma holds_entries_step:
  assumes "http_laws H" "holds_entries H cs vs es"
  shows "holds_entries H (hm_append H n c cs) (hm_append H n x vs) (es @ [(n, c, x)])"
    and "holds_entries H (hm_insert H n c cs) (hm_insert H n x vs) (without_name (Some n) es @ [(n, c, x)])"
    and "holds_entries H (hm_remove H n cs) (hm_remove H n vs) (without_name (Some n) es)"
proof -
  have one: "of_name m [(n, c, x)] = (if m = n then [(c, x)] else [])" for m
    by (simp add: of_name_def)
  have gets: "\<And>m k v mp. hm_get_all H m (hm_append H k v mp)
        = (if m = k then hm_get_all H m mp @ [v] else hm_get_all H m mp)"
    "\<And>m k v mp. hm_get_all H m (hm_insert H k v mp) = (if m = k then [v] else hm_get_all H m mp)"
    "\<And>m k mp. hm_get_all H m (hm_remove H k mp) = (if m = k then [] else hm_get_all H m mp)"
    using assms(1) unfolding http_laws_def by blast+
  show "holds_entries H (hm_append H n c cs) (hm_append H n x vs) (es @ [(n, c, x)])"
    "holds_entries H (hm_insert H n c cs) (hm_insert H n x vs) (without_name (Some n) es @ [(n, c, x)])"
    "holds_entries H (hm_remove H n cs) (hm_remove H n vs) (without_name (Some n) es)"
    using assms(2) by (auto simp: holds_entries_def gets one)
qed

lemma holds_entries_wire:
  assumes "http_laws H" "holds_entries H cs vs es" "hm_names H cs = hm_names H vs"
  shows "of_name n (wire_headers (hm_iter H cs) (hm_iter H vs)) = of_name n es"
proof -
  have "\<And>n m. map snd (filter (\<lambda>e. fst e = n) (hm_iter H m)) = hm_get_all H n m"
    using assms(1) unfolding http_laws_def by metis
  then show ?thesis
    using assms(2,3) by (simp add: of_name_wire hm_names_def holds_entries_def zip_map_fst_snd)
qed

lemma holds_entries_new: "http_laws H \<Longrightarrow> holds_entries H (hm_new H) (hm_new H) []"
  by (simp add: holds_entries_def http_laws_def)

text \<open>
  The interface of a header: two maps \<open>cases\<close> and \<open>vals\<close> that every operation changes under the same
  name, the first with the name's spelling, the second with the value.
\<close>

locale header_block =
  fixes H :: "'m http"
    and cases :: "'h \<Rightarrow> 'm"
    and vals :: "'h \<Rightarrow> 'm"
    and app :: "header_key \<Rightarrow> header_val \<Rightarrow> 'h \<Rightarrow> 'h outcome"
    and ins :: "header_key \<Rightarrow> header_val \<Rightarrow> 'h \<Rightarrow> 'h outcome"
    and rem :: "header_key \<Rightarrow> 'h \<Rightarrow> 'h"
  assumes app: "app k v h = Ok h' \<Longrightarrow> \<exists>n c x. header_pair H k v = Ok (c, n, x) \<and>
      cases h' = hm_append H n c (cases h) \<and> vals h' = hm_append H n x (vals h)"
    and ins: "ins k v h = Ok h' \<Longrightarrow> \<exists>n c x. header_pair H k v = Ok (c, n, x) \<and>
      cases h' = hm_insert H n c (cases h) \<and> vals h' = hm_insert H n x (vals h)"
    and rem: "cases (rem k h) = (case lookup_name H k of None \<Rightarrow> cases h | Some n \<Rightarrow> hm_remove H n (cases h))"
      "vals (rem k h) = (case lookup_name H k of None \<Rightarrow> vals h | Some n \<Rightarrow> hm_remove H n (vals h))"
begin

lemma step_in_step:
  assumes "http_laws H" "hm_names H (cases h) = hm_names H (vals h)"
  shows "app k v h = Ok h' \<Longrightarrow> hm_names H (cases h') = hm_names H (vals h')"
    and "ins k v h = Ok h' \<Longrightarrow> hm_names H (cases h') = hm_names H (vals h')"
    and "hm_names H (cases (rem k h)) = hm_names H (vals (rem k h))"
proof -
  note names = names_append [OF assms]
  show "hm_names H (cases h') = hm_names H (vals h')" if ok: "app k v h = Ok h'"
  proof -
    obtain n c x where "cases h' = hm_append H n c (cases h)" "vals h' = hm_append H n x (vals h)"
      using app [OF ok] by blast
    with names(1) show ?thesis by simp
  qed
  show "hm_names H (cases h') = hm_names H (vals h')" if ok: "ins k v h = Ok h'"
  proof -
    obtain n c x where "cases h' = hm_insert H n c (cases h)" "vals h' = hm_insert H n x (vals h)"
      using ins [OF ok] by blast
    with names(2) show ?thesis by simp
  qed
  show "hm_names H (cases (rem k h)) = hm_names H (vals (rem k h))"
    using rem [of k h] names(3) assms(2) by (simp split: option.split)
qed

lemma ops_in_step:
  assumes "http_laws H" "apply_header_ops app ins rem ops h = Ok h'"
    and "hm_names H (cases h) = hm_names H (vals h)"
  shows "hm_names H (cases h') = hm_names H (vals h')"
  using assms(2,3)
proof (induction ops arbitrary: h)
  case Nil
  then show ?case by simp
next
  case (Cons op ops)
  then show ?case
    using step_in_step [OF assms(1) Cons.prems(2)] by (cases op) auto
qed

lemma ops_hold_entries:
  assumes "http_laws H" "apply_header_ops app ins rem ops h = Ok h'"
    and "holds_entries H (cases h) (vals h) es"
  shows "holds_entries H (cases h') (vals h') (kept_headers H ops es)"
  using assms(2,3)
proof (induction ops arbitrary: h es)
  case Nil
  then show ?case by simp
next
  case (Cons op ops)
  note step = holds_entries_step [OF assms(1) Cons.prems(2)]
  show ?case
  proof (cases op)
    case (HAppend k v)
    then obtain g where g: "app k v h = Ok g" "apply_header_ops app ins rem ops g = Ok h'"
      using Cons.prems(1) by (cases "app k v h") auto
    then show ?thesis
      using Cons.IH [OF g(2)] step(1) app [OF g(1)] HAppend by (auto simp: header_entry_pair)
  next
    case (HInsert k v)
    then obtain g where g: "ins k v h = Ok g" "apply_header_ops app ins rem ops g = Ok h'"
      using Cons.prems(1) by (cases "ins k v h") auto
    then show ?thesis
      using Cons.IH [OF g(2)] step(2) ins [OF g(1)] HInsert by (auto simp: header_entry_pair)
  next
    case (HRemove k)
    have "without_name None es = es"
      by (simp add: without_name_def)
    then have "holds_entries H (cases (rem k h)) (vals (rem k h)) (without_name (lookup_name H k) es)"
      using rem [of k h] step(3) Cons.prems(2) by (simp split: option.split)
    then show ?thesis
      using Cons HRemove by simp
  qed
qed

lemma wire_after_ops:
  assumes "http_laws H" "apply_header_ops app ins rem ops h = Ok h'"
    and "cases h = hm_new H" "vals h = hm_new H"
  shows "of_name n (wire_headers (hm_iter H (cases h')) (hm_iter H (vals h')))
     = of_name n (kept_headers H ops [])"
  using holds_entries_wire [OF assms(1) ops_hold_entries ops_in_step] assms
  by (simp add: holds_entries_new)

lemma put_after_ops:
  assumes "http_laws H" "apply_header_ops app ins rem ops h = Ok h'"
    and "hm_names H (cases h) = hm_names H (vals h)"
  shows "put_headers (hm_iter H (cases h')) (hm_iter H (vals h'))
     = Ok (header_lines (hm_iter H (cases h')) (hm_iter H (vals h')))"
  using ops_in_step [OF assms] by (simp add: hm_names_def put_headers_in_step)

end

interpretation request_block: header_block H rq_case rq_headers "rq_append_header H" "rq_insert_header H"
  "rq_remove_header H" for H :: "'m http"
  by unfold_locales
    (auto simp: rq_append_header_def rq_insert_header_def rq_remove_header_def
       simp del: header_pair.simps split: option.split)

interpretation response_block: header_block H rs_case rs_headers "rs_append_header H" "rs_insert_header H"
  "rs_remove_header H" for H :: "'m http"
  by unfold_locales
    (auto simp: rs_append_header_def rs_insert_header_def rs_remove_header_def
       simp del: header_pair.simps split: option.split)

definition rq_line :: "'m request_header \<Rightarrow> string \<times> bytes \<times> http_version" where
  "rq_line h = (rq_method h, rq_raw_path h, rq_version h)"

lemma rq_op_line:
  "rq_append_header H k v h = Ok h' \<Longrightarrow> rq_line h' = rq_line h"
  "rq_insert_header H k v h = Ok h' \<Longrightarrow> rq_line h' = rq_line h"
  "rq_line (rq_remove_header H k h) = rq_line h"
  by (auto simp: rq_line_def rq_append_header_def rq_insert_header_def rq_remove_header_def
        simp del: header_pair.simps split: option.split)

lemma rq_ops_line:
  assumes "apply_header_ops (rq_append_header H) (rq_insert_header H) (rq_remove_header H) ops h = Ok h'"
  shows "rq_line h' = rq_line h"
  using assms
proof (induction ops arbitrary: h)
  case (Cons op ops)
  then show ?case by (cases op) (auto simp: rq_op_line)
qed simp

lemma rs_op_version:
  "rs_append_header H k v h = Ok h' \<Longrightarrow> rs_version h' = rs_version h"
  "rs_insert_header H k v h = Ok h' \<Longrightarrow> rs_version h' = rs_version h"
  "rs_version (rs_remove_header H k h) = rs_version h"
  by (auto simp: rs_append_header_def rs_insert_header_def rs_remove_header_def
        simp del: header_pair.simps split: option.split)

lemma rs_ops_version:
  assumes "apply_header_ops (rs_append_header H) (rs_insert_header H) (rs_remove_header H) ops h = Ok h'"
  shows "rs_version h' = rs_version h"
  using assms
proof (induction ops arbitrary: h)
  case (Cons op ops)
  then show ?case by (cases op) (auto simp: rs_op_version)
qed simp

section \<open>A concrete header map\<close>

text \<open>
  An instance of the laws for the witnesses: one entry per name with the values in order; adding a
  new name puts its entry at the end.
\<close>


type_synonym entries = "(string \<times> bytes) list"

definition token_name :: "bytes \<Rightarrow> string option" where
  "token_name b = (if b \<noteq> [] \<and> list_all (\<lambda>c. between 33 c 126 \<and> c \<noteq> CHR '':'') b
                   then Some (map to_ascii_lowercase b) else None)"

definition list_http :: "entries http" where
  "list_http =
     \<lparr>hm_new = [],
      hm_append = (\<lambda>k v m. m @ [(k, v)]),
      hm_insert = (\<lambda>k v m. filter (\<lambda>e. fst e \<noteq> k) m @ [(k, v)]),
      hm_remove = (\<lambda>k m. filter (\<lambda>e. fst e \<noteq> k) m),
      hm_get_all = (\<lambda>k m. map snd (filter (\<lambda>e. fst e = k) m)),
      hm_iter = (\<lambda>m. m),
      name_of = token_name,
      value_of = (\<lambda>b. if list_all (\<lambda>c. 32 \<le> byte c \<and> byte c \<noteq> 127) b then Some b else None),
      method_of = (\<lambda>b. if b = [] then None else Some b),
      uri_of = (\<lambda>b. if b = [] then None else Some b),
      uri_path = (\<lambda>u. takeWhile (\<lambda>c. c \<noteq> CHR ''?'') u),
      uri_query = (\<lambda>u. map_option snd (split_once (CHR ''?'') u)),
      status_of = (\<lambda>n. if 100 \<le> n \<and> n < 1000 then Some n else None),
      canonical_reason = map_of [(200, ''OK''), (404, ''Not Found''), (429, ''Too Many Requests'')]\<rparr>"

lemma filter_names: "map fst (filter (\<lambda>e. fst e \<noteq> k) m) = filter (\<lambda>n. n \<noteq> k) (map fst m)"
  by (induction m) auto

lemma filter_two: "n \<noteq> k \<Longrightarrow> filter (\<lambda>e. fst e \<noteq> k \<and> fst e = n) m = filter (\<lambda>e. fst e = n) m"
  by (induction m) auto

lemma list_http_ops [simp]:
  "hm_new list_http = []"
  "hm_append list_http k v m = m @ [(k, v)]"
  "hm_insert list_http k v m = filter (\<lambda>e. fst e \<noteq> k) m @ [(k, v)]"
  "hm_remove list_http k m = filter (\<lambda>e. fst e \<noteq> k) m"
  "hm_get_all list_http k m = map snd (filter (\<lambda>e. fst e = k) m)"
  "hm_iter list_http m = m"
  "name_of list_http b = token_name b"
  by (simp_all add: list_http_def)

lemma list_http_laws: "http_laws list_http"
proof -
  have "names_stable list_http"
    by (simp add: names_stable_def hm_names_def filter_names)
  then show ?thesis
    by (simp add: http_laws_def filter_two filter_empty_conv)
qed

section \<open>Properties\<close>

text \<open>
  C18 (safety). Serialising a request header never panics, and writes what was put into it: whatever
  series of appends, insertions and removals the header has been through, its case map and its value
  map still list the same names in the same order, and the buffer is the request line of the method,
  the path and the version it was built with, followed by one line per entry. The entries of every
  name are exactly those the series leaves (\<open>kept_headers\<close>), in the order they were added, each with
  the spelling it was added under and its own value.
\<close>

theorem request_serialisation:
  assumes "http_laws H" "rq_build H m path ver = Ok h0" "ver \<noteq> HTTP_3"
    and "apply_header_ops (rq_append_header H) (rq_insert_header H) (rq_remove_header H) ops h0 = Ok h"
  shows "\<exists>v meth es. raw_version ver = Ok v \<and> method_of H m = Some meth \<and>
     map fst (hm_iter H (rq_case h)) = map fst (hm_iter H (rq_headers h)) \<and>
     (\<forall>n. of_name n es = of_name n (kept_headers H ops [])) \<and>
     rq_build_to_buffer H h = Ok (meth @ '' '' @ path @ '' '' @ v @ crlf
        @ concat (map (\<lambda>(n, c, x). c @ '': '' @ x @ crlf) es) @ crlf)"
proof -
  let ?es = "wire_headers (hm_iter H (rq_case h)) (hm_iter H (rq_headers h))"
  obtain meth where meth: "method_of H m = Some meth" and line0: "rq_line h0 = (meth, path, ver)"
    and new: "rq_case h0 = hm_new H" "rq_headers h0 = hm_new H"
    using assms(2) by (auto simp: rq_build_def rq_line_def split: option.splits)
  have line: "rq_method h = meth" "rq_raw_path h = path" "rq_version h = ver"
    using rq_ops_line [OF assms(4)] line0 by (simp_all add: rq_line_def)
  obtain v where v: "raw_version ver = Ok v"
    using assms(3) by (cases ver) (auto simp: raw_version_def)
  have start: "hm_names H (rq_case h0) = hm_names H (rq_headers h0)"
    by (simp add: new)
  have kept: "\<forall>n. of_name n ?es = of_name n (kept_headers H ops [])"
    using request_block.wire_after_ops [OF assms(1,4) new] by simp
  have buffer: "rq_build_to_buffer H h = Ok (meth @ '' '' @ path @ '' '' @ v @ crlf
      @ concat (map (\<lambda>(n, c, x). c @ '': '' @ x @ crlf) ?es) @ crlf)"
    using request_block.put_after_ops [OF assms(1,4) start] line v
    by (simp add: rq_build_to_buffer_def header_lines_wire)
  have names: "map fst (hm_iter H (rq_case h)) = map fst (hm_iter H (rq_headers h))"
    using request_block.ops_in_step [OF assms(1,4) start] by (simp add: hm_names_def)
  show ?thesis
    using v meth names kept buffer by blast
qed

lemma request_serialisation_witness:
  "\<exists>h es. apply_header_ops (rq_append_header list_http) (rq_insert_header list_http) (rq_remove_header list_http)
       [HAppend (KText ''x-ID'') (VText ''1''), HAppend (KText ''HOST'') (VRaw ''a''),
        HInsert (KName ''host'') (VText ''b''), HRemove (KText ''X-id'')]
       \<lparr>rq_method = ''GET'', rq_uri = ''/'', rq_version = HTTP_11, rq_headers = [], rq_case = [], rq_raw_path = ''/''\<rparr> = Ok h
     \<and> of_name ''host'' es = [(''Host'', ''b'')] \<and> of_name ''x-id'' es = []
     \<and> rq_build_to_buffer list_http h = Ok (''GET / HTTP/1.1'' @ crlf
          @ concat (map (\<lambda>(n, c, x). c @ '': '' @ x @ crlf) es) @ crlf)"
proof -
  let ?ops = "[HAppend (KText ''x-ID'') (VText ''1''), HAppend (KText ''HOST'') (VRaw ''a''),
        HInsert (KName ''host'') (VText ''b''), HRemove (KText ''X-id'')]"
  let ?first = "\<lparr>rq_method = ''GET'', rq_uri = ''/'', rq_version = HTTP_11, rq_headers = [], rq_case = [],
      rq_raw_path = ''/''\<rparr> :: entries request_header"
  let ?last = "\<lparr>rq_method = ''GET'', rq_uri = ''/'', rq_version = HTTP_11, rq_headers = [(''host'', ''b'')],
      rq_case = [(''host'', ''Host'')], rq_raw_path = ''/''\<rparr>"
  have ops: "apply_header_ops (rq_append_header list_http) (rq_insert_header list_http) (rq_remove_header list_http)
       ?ops ?first = Ok ?last"
    by code_simp
  have build: "rq_build list_http ''GET'' ''/'' HTTP_11 = Ok ?first"
    by code_simp
  have version: "HTTP_11 \<noteq> HTTP_3"
    by simp
  have kept: "kept_headers list_http ?ops [] = [(''host'', ''Host'', ''b'')]" "method_of list_http ''GET'' = Some ''GET''"
    by code_simp+
  obtain v meth es where v: "raw_version HTTP_11 = Ok v" "method_of list_http ''GET'' = Some meth"
    and es: "\<forall>n. of_name n es = of_name n (kept_headers list_http ?ops [])"
    and buffer: "rq_build_to_buffer list_http ?last = Ok (meth @ '' '' @ ''/'' @ '' '' @ v @ crlf
        @ concat (map (\<lambda>(n, c, x). c @ '': '' @ x @ crlf) es) @ crlf)"
    using request_serialisation [OF list_http_laws build version ops] by blast
  have "of_name ''host'' es = [(''Host'', ''b'')]" "of_name ''x-id'' es = []"
    unfolding es [rule_format] kept(1) by (simp_all add: of_name_def)
  moreover have "v = ''HTTP/1.1''" "meth = ''GET''"
    using v kept(2) by (simp_all add: raw_version_def)
  with buffer have "rq_build_to_buffer list_http ?last = Ok (''GET / HTTP/1.1'' @ crlf
      @ concat (map (\<lambda>(n, c, x). c @ '': '' @ x @ crlf) es) @ crlf)"
    by simp
  ultimately show ?thesis
    using ops by blast
qed

text \<open>
  C19 (safety). The same holds for response headers, whose status line carries the reason phrase that
  was set or, without one, the status code's own; their lines are the entries kept, name by name.
\<close>

theorem response_serialisation:
  assumes "http_laws H" "rs_build H st ver = Ok h0" "ver \<noteq> HTTP_3"
    and "apply_header_ops (rs_append_header H) (rs_insert_header H) (rs_remove_header H) ops h0 = Ok h1"
    and "h = rs_set_reason_phrase H phrase h1"
  shows "\<exists>v. raw_version ver = Ok v \<and>
     map fst (hm_iter H (rs_case h)) = map fst (hm_iter H (rs_headers h)) \<and>
     rs_build_to_buffer H h = Ok (v @ '' '' @ show_status (rs_status h) @ '' ''
        @ (case phrase of Some r \<Rightarrow> r
           | None \<Rightarrow> (case canonical_reason H (rs_status h) of Some r \<Rightarrow> r | None \<Rightarrow> [])) @ crlf
        @ header_lines (hm_iter H (rs_case h)) (hm_iter H (rs_headers h)) @ crlf) \<and>
     (\<forall>n. of_name n (wire_headers (hm_iter H (rs_case h)) (hm_iter H (rs_headers h)))
        = of_name n (kept_headers H ops []))"
proof -
  have new: "rs_case h0 = hm_new H" "rs_headers h0 = hm_new H"
    and start: "hm_names H (rs_case h0) = hm_names H (rs_headers h0)" "rs_version h0 = ver"
    using assms(2) by (auto simp: rs_build_def split: option.splits)
  have "rs_version h1 = rs_version h0"
    using assms(4) by (rule rs_ops_version)
  then have v: "rs_version h = ver" "\<exists>v. raw_version ver = Ok v"
    using start(2) assms(3,5) by (cases ver; simp add: raw_version_def rs_set_reason_phrase_def)+
  have same: "rs_case h = rs_case h1" "rs_headers h = rs_headers h1"
    using assms(5) by (simp_all add: rs_set_reason_phrase_def)
  have phrase: "rs_get_reason_phrase H h = (case phrase of Some r \<Rightarrow> Some r | None \<Rightarrow> canonical_reason H (rs_status h))"
    using assms(5) by (auto simp: rs_set_reason_phrase_def rs_get_reason_phrase_def split: option.split)
  show ?thesis
    using response_block.put_after_ops [OF assms(1,4) start(1)]
      response_block.ops_in_step [OF assms(1,4) start(1)]
      response_block.wire_after_ops [OF assms(1,4) new] v same phrase
    by (auto simp: rs_build_to_buffer_def hm_names_def split: option.split)
qed

lemma response_serialisation_witness:
  "\<exists>h. rs_set_reason_phrase list_http (Some ''Gone fishing'')
        \<lparr>rs_status = 404, rs_version = HTTP_11, rs_headers = [(''age'', ''1'')], rs_case = [(''age'', ''Age'')], rs_reason = None\<rparr> = h
     \<and> rs_build_to_buffer list_http h = Ok (''HTTP/1.1 404 Gone fishing'' @ crlf @ ''Age: 1'' @ crlf @ crlf)"
proof -
  let ?first = "\<lparr>rs_status = 404, rs_version = HTTP_11, rs_headers = [], rs_case = [], rs_reason = None\<rparr>
      :: entries response_header"
  let ?last = "\<lparr>rs_status = 404, rs_version = HTTP_11, rs_headers = [(''age'', ''1'')],
      rs_case = [(''age'', ''Age'')], rs_reason = None\<rparr>"
  have status: "show_status 404 = ''404''" by code_simp
  have ops: "apply_header_ops (rs_append_header list_http) (rs_insert_header list_http) (rs_remove_header list_http)
       [HAppend (KName ''age'') (VText ''1'')] ?first = Ok ?last"
    by code_simp
  have build: "rs_build list_http 404 HTTP_11 = Ok ?first"
    by code_simp
  from response_serialisation [OF list_http_laws build _ ops refl, of "Some ''Gone fishing''"]
  show ?thesis
    using status by (auto simp: header_lines_def list_http_def raw_version_def rs_set_reason_phrase_def
        simp del: show_status.simps)
qed

end
