(* ===== verification/SessionUtils.thy ===== *)
theory SessionUtils
  imports Headers
begin

text \<open>
  The decisions both sessions take from header values (core/src/session/utils.rs, keepalive.rs) and
  the tasks they exchange (task.rs).
\<close>

section \<open>Tasks (task.rs)\<close>

datatype 'm task =
    THeader "'m response_header" bool
  | TBody "bytes option" bool
  | TTrailer
  | TDone
  | TFailed io_error

fun task_is_end :: "'m task \<Rightarrow> bool" where
  "task_is_end (THeader h e) = e"
| "task_is_end (TBody b e) = e"
| "task_is_end TTrailer = True"
| "task_is_end TDone = True"
| "task_is_end (TFailed e) = True"

section \<open>Keep-alive (keepalive.rs)\<close>

datatype keepalive_status = KTimeout nat | KInfinite | KOff

record connection_value =
  cv_keep_alive :: bool
  cv_upgrade :: bool
  cv_close :: bool

definition cv_new :: connection_value where
  "cv_new = \<lparr>cv_keep_alive = False, cv_upgrade = False, cv_close = False\<rparr>"

definition cv_set_close :: "connection_value \<Rightarrow> connection_value" where
  "cv_set_close v = v\<lparr>cv_close := True\<rparr>"

definition cv_set_upgrade :: "connection_value \<Rightarrow> connection_value" where
  "cv_set_upgrade v = v\<lparr>cv_upgrade := True\<rparr>"

definition cv_set_keep_alive :: "connection_value \<Rightarrow> connection_value" where
  "cv_set_keep_alive v = v\<lparr>cv_keep_alive := True\<rparr>"

lemmas cv_defs = cv_new_def cv_set_close_def cv_set_upgrade_def cv_set_keep_alive_def

section \<open>Header values (utils.rs)\<close>

definition is_header_value_chunk_encoding :: "bytes option \<Rightarrow> bool" where
  "is_header_value_chunk_encoding v =
     (case v of Some b \<Rightarrow> eq_ignore_ascii_case b ''chunked'' | None \<Rightarrow> False)"

definition get_content_length_value :: "bytes option \<Rightarrow> nat option" where
  "get_content_length_value v =
     (case v of
        None \<Rightarrow> None
      | Some b \<Rightarrow>
          (case from_utf8 b of
             None \<Rightarrow> None
           | Some s \<Rightarrow>
               (case parse_i64 s of
                  None \<Rightarrow> None
                | Some n \<Rightarrow> if 0 \<le> n then Some (nat n) else None)))"

definition is_request_upgrade :: "'m http \<Rightarrow> 'm request_header \<Rightarrow> bool" where
  "is_request_upgrade H rq \<longleftrightarrow> rq_version rq = HTTP_11 \<and> rq_get_header H (KName ''upgrade'') rq \<noteq> None"

definition is_response_upgrade :: "'m response_header \<Rightarrow> bool" where
  "is_response_upgrade rs \<longleftrightarrow> rs_version rs = HTTP_11 \<and> rs_status rs = 101"

definition is_request_expect_continue :: "'m http \<Rightarrow> 'm request_header \<Rightarrow> bool" where
  "is_request_expect_continue H rq \<longleftrightarrow>
     rq_version rq = HTTP_11 \<and>
     (case rq_get_header H (KName ''expect'') rq of
        Some b \<Rightarrow> eq_ignore_ascii_case b ''100-continue'' | None \<Rightarrow> False)"

text \<open>The tokens of the slow path, and its loop with the early return.\<close>

definition connection_tokens :: "string \<Rightarrow> string list" where
  "connection_tokens v = filter (\<lambda>t. t \<noteq> []) (map trim (split_on (CHR '','') v))"

fun scan_connection :: "bool \<Rightarrow> bool \<Rightarrow> string list \<Rightarrow> connection_value" where
  "scan_connection close upgrade [] =
     (if close then cv_set_close cv_new else if upgrade then cv_set_upgrade cv_new else cv_new)"
| "scan_connection close upgrade (t # ts) =
     (let close' = (close \<or> eq_ignore_ascii_case t ''close'');
          upgrade' = (upgrade \<or> \<not> eq_ignore_ascii_case t ''close'' \<and> eq_ignore_ascii_case t ''upgrade'')
      in if upgrade' \<and> close' then cv_set_close (cv_set_upgrade cv_new)
         else scan_connection close' upgrade' ts)"

definition parse_connection_header :: "bytes \<Rightarrow> connection_value" where
  "parse_connection_header v =
     (if eq_ignore_ascii_case v ''close'' then cv_set_close cv_new
      else if eq_ignore_ascii_case v ''keep-alive'' then cv_set_keep_alive cv_new
      else if eq_ignore_ascii_case v ''upgrade'' then cv_set_upgrade cv_new
      else scan_connection False False
             (connection_tokens (case from_utf8 v of Some s \<Rightarrow> s | None \<Rightarrow> [])))"

definition is_connection_keepalive :: "bytes \<Rightarrow> bool option" where
  "is_connection_keepalive v =
     (let c = parse_connection_header v
      in if cv_keep_alive c then Some True else if cv_close c then Some False else None)"

section \<open>The fast path agrees with the slow path\<close>

text \<open>A word of letters is its own only token.\<close>

lemma word_token:
  assumes "eq_ignore_ascii_case v w" "w \<noteq> []" "\<forall>c\<in>set w. between 97 c 122"
  shows "utf8_valid v" "connection_tokens v = [v]"
proof -
  have letters: "between 65 c 122" if "c \<in> set v" for c
  proof -
    have low: "map to_ascii_lowercase v = map to_ascii_lowercase w"
      using assms(1) by (simp add: eq_ignore_ascii_case_def)
    have "to_ascii_lowercase c \<in> set (map to_ascii_lowercase w)"
      using that by (simp flip: low)
    then obtain d where "d \<in> set w" "to_ascii_lowercase c = to_ascii_lowercase d" by auto
    with assms(3) show ?thesis
      by (auto simp: to_ascii_lowercase_def between_def byte_def split: if_splits)
  qed
  show "utf8_valid v" using letters by (intro utf8_valid_ascii) (force simp: list_all_iff between_def)
  have "CHR '','' \<notin> set v" using letters [of "CHR '',''"] by (auto simp: byte_def between_def)
  moreover have "trim v = v" "v \<noteq> []"
  proof -
    show ne: "v \<noteq> []" using assms(1,2) by (auto simp: eq_ignore_ascii_case_def)
    then have "hd v \<in> set v" "last v \<in> set v" by auto
    then show "trim v = v"
      using ne letters [of "hd v"] letters [of "last v"] by (intro trim_visible) (auto simp: between_def)
  qed
  ultimately show "connection_tokens v = [v]"
    by (simp add: connection_tokens_def split_on_no_char)
qed

lemma scan_connection_flags:
  "cv_close (scan_connection c u ts) \<longleftrightarrow> c \<or> (\<exists>t\<in>set ts. eq_ignore_ascii_case t ''close'')"
  "\<not> cv_keep_alive (scan_connection c u ts)"
  by (induction c u ts rule: scan_connection.induct) (auto simp: cv_defs Let_def)

text \<open>
  C21 (equivalence). The keep-alive decision equals its specification over the comma-separated
  tokens: a value that is exactly \<open>keep-alive\<close> keeps the connection, a value that contains the
  token \<open>close\<close> closes it, anything else (also \<open>keep-alive\<close> as one token of several, or bytes that are
  no UTF-8) leaves it to the HTTP version. The fast path is only a short cut.
\<close>

theorem connection_keepalive_spec:
  "is_connection_keepalive v =
     (if eq_ignore_ascii_case v ''keep-alive'' then Some True
      else if utf8_valid v \<and> list_ex (\<lambda>t. eq_ignore_ascii_case t ''close'') (connection_tokens v)
      then Some False else None)"
proof (cases "eq_ignore_ascii_case v ''close''")
  case True
  then have "\<not> eq_ignore_ascii_case v ''keep-alive''"
    by (auto simp: eq_ignore_ascii_case_def to_ascii_lowercase_def byte_def)
  with True word_token [OF True] show ?thesis
    by (simp add: is_connection_keepalive_def parse_connection_header_def cv_defs between_def byte_def)
next
  case False
  note close = this
  show ?thesis
  proof (cases "eq_ignore_ascii_case v ''upgrade''")
    case True
    then have "\<not> eq_ignore_ascii_case v ''keep-alive''"
      by (auto simp: eq_ignore_ascii_case_def to_ascii_lowercase_def byte_def)
    with True close word_token [OF True] show ?thesis
      by (simp add: is_connection_keepalive_def parse_connection_header_def cv_defs between_def byte_def)
  next
    case False
    with close show ?thesis
      by (auto simp: is_connection_keepalive_def parse_connection_header_def Let_def from_utf8_def
            scan_connection_flags list_ex_iff cv_defs connection_tokens_def)
  qed
qed

lemma digit_value_char [simp]: "d < 10 \<Longrightarrow> digit_value (digit_char d) = Some d"
  by (simp add: digit_value_def digit_char_def between_def byte_def)

lemma digits_value_show:
  "digits_value acc (show_base 10 n @ rest) = digits_value (10 ^ length (show_base 10 n) * acc + n) rest"
proof (induction "10 :: nat" n arbitrary: rest rule: show_base.induct)
  case (1 n)
  show ?case
  proof (cases "n < 10")
    case True
    then show ?thesis by (simp add: show_base.simps [of 10 n])
  next
    case False
    then have "digits_value acc (show_base 10 n @ rest)
        = digits_value acc (show_base 10 (n div 10) @ (digit_char (n mod 10) # rest))"
      by (simp add: show_base.simps [of 10 n])
    with 1 [of "digit_char (n mod 10) # rest"] False show ?thesis
      by (simp add: show_base.simps [of 10 n] algebra_simps)
  qed
qed

lemma show_nat_digits: "c \<in> set (show_nat n) \<Longrightarrow> between 48 c 57"
  unfolding show_nat_def
proof (induction "10 :: nat" n rule: show_base.induct)
  case (1 n)
  have "between 48 (digit_char (n mod 10)) 57"
    using digit_value_char [of "n mod 10"] by (simp add: digit_value_def split: if_splits)
  with 1 show ?case
    unfolding show_base.simps [of 10 n] by (auto split: if_splits)
qed

text \<open>
  The decimal text of a number is accepted as that content length up to \<open>i64::MAX\<close>, and
  rejected (no content length) beyond it: no value wraps around.
\<close>

theorem content_length_text:
  "get_content_length_value (Some (show_nat n)) = (if n < 9223372036854775808 then Some n else None)"
proof -
  have utf8: "utf8_valid (show_nat n)"
    using show_nat_digits [of _ n] by (intro utf8_valid_ascii) (force simp: list_all_iff between_def)
  obtain c cs where s: "show_nat n = c # cs" by (cases "show_nat n") (auto simp: show_nat_def)
  then have "c \<noteq> CHR ''-''" "c \<noteq> CHR ''+''"
    using show_nat_digits [of c n] by (auto simp: between_def byte_def)
  moreover have "digits_value 0 (c # cs) = Some n"
    using digits_value_show [of 0 n "[]"] s by (simp add: show_nat_def)
  ultimately show ?thesis
    using utf8 s by (simp add: get_content_length_value_def from_utf8_def parse_i64_def del: digits_value.simps)
qed

end
