(* ===== verification/SessionHead.thy ===== *)
theory SessionHead
  imports StreamIo Buffers SessionUtils
begin

text \<open>
  What the two sessions (core/src/session/downstream.rs, upstream.rs) share: actions on a session and
  its stream, the loop that reads a message head, and the assembly of a header from the spans the
  parser reports. The \<open>httparse\<close> parsers are parameters; a parser answers with the length of the head
  and where in the buffer the parts of the head are.
\<close>

section \<open>Actions\<close>

text \<open>
  An async method of a session: a function of the session's state and its stream that returns a
  result and both, also when it fails (the \<open>?\<close> operator leaves the changes made so far).
\<close>

type_synonym ('a, 'd, 's) action = "'d \<times> 's \<Rightarrow> 'a outcome \<times> 'd \<times> 's"

definition areturn :: "'a \<Rightarrow> ('a, 'd, 's) action" where
  "areturn x st = (Ok x, st)"

definition afail :: "io_error \<Rightarrow> ('a, 'd, 's) action" where
  "afail e st = (Err e, st)"

definition alift :: "'a outcome \<Rightarrow> ('a, 'd, 's) action" where
  "alift r st = (r, st)"

definition abind :: "('a, 'd, 's) action \<Rightarrow> ('a \<Rightarrow> ('b, 'd, 's) action) \<Rightarrow> ('b, 'd, 's) action" where
  "abind m f st =
     (case m st of
        (Ok x, st') \<Rightarrow> f x st'
      | (Err e, st') \<Rightarrow> (Err e, st')
      | (Panic p, st') \<Rightarrow> (Panic p, st'))"

definition aget :: "('d \<Rightarrow> 'a) \<Rightarrow> ('a, 'd, 's) action" where
  "aget f st = (Ok (f (fst st)), st)"

definition asession :: "('d \<Rightarrow> 'd) \<Rightarrow> (unit, 'd, 's) action" where
  "asession f st = (Ok (), f (fst st), snd st)"

definition awrite_all :: "'s io \<Rightarrow> bytes \<Rightarrow> (unit, 'd, 's) action" where
  "awrite_all io bs st =
     (case io_write_all io bs (snd st) of
        (Inr u, s') \<Rightarrow> (Ok (), fst st, s') | (Inl e, s') \<Rightarrow> (Err e, fst st, s'))"

definition aflush :: "'s io \<Rightarrow> (unit, 'd, 's) action" where
  "aflush io st =
     (case io_flush io (snd st) of
        (Inr u, s') \<Rightarrow> (Ok (), fst st, s') | (Inl e, s') \<Rightarrow> (Err e, fst st, s'))"

definition amap_err :: "(io_error \<Rightarrow> io_error) \<Rightarrow> ('a, 'd, 's) action \<Rightarrow> ('a, 'd, 's) action" where
  "amap_err g m st =
     (case m st of (Err e, st') \<Rightarrow> (Err (g e), st') | r \<Rightarrow> r)"

lemma abind_basic [simp]:
  "abind (areturn x) f = f x"
  "abind (aget g) f st = f (g (fst st)) st"
  "abind (asession h) k st = k () (h (fst st), snd st)"
  "abind (alift (Ok x)) f = f x"
  by (auto simp: abind_def areturn_def aget_def asession_def alift_def)

lemmas action_defs [step_simps] =
  areturn_def afail_def alift_def aget_def asession_def awrite_all_def aflush_def amap_err_def

section \<open>Reading a message head\<close>

definition max_buffer_size :: nat where
  "max_buffer_size = 8192"

datatype 'p parse_status = PComplete nat 'p | PPartial | PError string

datatype 'p head_read = HeadEof | HeadError io_error | HeadParsed bytes nat 'p

text \<open>
  The loop of \<open>read_request\<close> and \<open>read_response\<close>: \<open>buf\<close> is what has been read, its length the code's
  \<open>read_buf_size\<close>.
\<close>

function read_head :: "(bytes \<Rightarrow> 'p parse_status) \<Rightarrow> 's io \<Rightarrow> bytes \<Rightarrow> 's \<Rightarrow> 'p head_read \<times> 's" where
  "read_head parse io buf s =
     (if max_buffer_size < length buf
      then (HeadError (Other ''request larger than 8192''), s)
      else
        (case io_read_buf io s of
           (Inl e, s') \<Rightarrow> (HeadError e, s')
         | (Inr bs, s') \<Rightarrow>
             (if bs = []
              then (if buf \<noteq> [] then (HeadError (Other ''connection closed''), s') else (HeadEof, s'))
              else
                (case parse (buf @ bs) of
                   PComplete n p \<Rightarrow> (HeadParsed (buf @ bs) n p, s')
                 | PPartial \<Rightarrow> read_head parse io (buf @ bs) s'
                 | PError msg \<Rightarrow> (HeadError (Other msg), s')))))"
  by pat_completeness auto
termination
  by (relation "measure (\<lambda>(parse, io, buf, s). Suc max_buffer_size - length buf)")
    (auto simp: neq_Nil_conv)

declare read_head.simps [simp del]

text \<open>
  Reading a head whose future is dropped at an await: the pieces it had taken from the stream, none of which
  completed the head, go with its local buffer.
\<close>

inductive head_read_dropped :: "(bytes \<Rightarrow> 'p parse_status) \<Rightarrow> 's io \<Rightarrow> bytes \<Rightarrow> 's \<Rightarrow> 's \<Rightarrow> bool" for parse io where
  awaiting: "length buf \<le> max_buffer_size \<Longrightarrow> head_read_dropped parse io buf s s"
| taken: "length buf \<le> max_buffer_size \<Longrightarrow> io_read_buf io s = (Inr bs, s1) \<Longrightarrow> bs \<noteq> [] \<Longrightarrow> parse (buf @ bs) = PPartial \<Longrightarrow>
    head_read_dropped parse io (buf @ bs) s1 s2 \<Longrightarrow> head_read_dropped parse io buf s s2"

text \<open>A peer that delivers \<open>pending\<close> to \<open>read_buf\<close> in arbitrary non-empty pieces.\<close>

definition delivers_buf :: "'s io \<Rightarrow> ('s \<Rightarrow> bytes) \<Rightarrow> bool" where
  "delivers_buf io pending \<longleftrightarrow>
     (\<forall>s. \<exists>bs s'. io_read_buf io s = (Inr bs, s') \<and> pending s = bs @ pending s' \<and>
        (bs = [] \<longrightarrow> pending s = []))"

lemma script_delivers_buf: "delivers_buf script_io (\<lambda>s. concat (rx s))"
proof -
  have "\<exists>bs s'. io_read_buf script_io s = (Inr bs, s') \<and> concat (rx s) = bs @ concat (rx s') \<and>
          (bs = [] \<longrightarrow> concat (rx s) = [])" for s
  proof -
    have "io_read_buf script_io = io_read script_io 1024" by (simp add: script_io_def)
    moreover obtain bs s' where "io_read script_io 1024 s = (Inr bs, s')" "concat (rx s) = bs @ concat (rx s')"
        "bs = [] \<Longrightarrow> concat (rx s) = []"
      by (rule deliversE [OF script_delivers, of 1024 s]) (simp, blast)
    ultimately show ?thesis by auto
  qed
  then show ?thesis by (simp add: delivers_buf_def)
qed

text \<open>The parser's law on one message head: complete heads are recognised, proper parts ask for more.\<close>

definition parses_head :: "(bytes \<Rightarrow> 'p parse_status) \<Rightarrow> bytes \<Rightarrow> 'p \<Rightarrow> bool" where
  "parses_head parse head p \<longleftrightarrow>
     head \<noteq> [] \<and> (\<forall>x. parse (head @ x) = PComplete (length head) p) \<and>
     (\<forall>q. strict_prefix q head \<longrightarrow> parse q = PPartial)"

text \<open>A parser that knows one head: an instance of the law, for the witnesses.\<close>

definition prefix_parser :: "bytes \<Rightarrow> 'p \<Rightarrow> bytes \<Rightarrow> 'p parse_status" where
  "prefix_parser head p b = (if prefix head b then PComplete (length head) p else PPartial)"

lemma prefix_parser_law: "head \<noteq> [] \<Longrightarrow> parses_head (prefix_parser head p) head p"
  by (auto simp: parses_head_def prefix_parser_def strict_prefix_def)

lemma read_head_complete:
  assumes "delivers_buf io pending" "parses_head parse head p" "length head \<le> Suc max_buffer_size"
    and "strict_prefix buf head" "buf @ pending s = head @ rest"
  shows "\<exists>extra s'. read_head parse io buf s = (HeadParsed (head @ extra) (length head) p, s') \<and>
           rest = extra @ pending s'"
  using assms
proof (induction parse io buf s rule: read_head.induct)
  case (1 parse io buf s)
  have len: "length buf < length head" using "1.prems"(4) by (rule prefix_length_less)
  then have small: "\<not> max_buffer_size < length buf" using "1.prems"(3) by simp
  obtain bs s' where rd: "io_read_buf io s = (Inr bs, s')" "pending s = bs @ pending s'"
      "bs = [] \<longrightarrow> pending s = []"
    using "1.prems"(1) unfolding delivers_buf_def by metis
  have ne: "bs \<noteq> []"
  proof
    assume "bs = []"
    then have "buf = head @ rest" using rd(3) "1.prems"(5) by simp
    then show False using len by simp
  qed
  have all: "(buf @ bs) @ pending s' = head @ rest" using "1.prems"(5) rd(2) by simp
  show ?case
  proof (cases "length head \<le> length (buf @ bs)")
    case True
    note split = append_split_take [OF all True]
    have "parse (buf @ bs) = PComplete (length head) p"
      using "1.prems"(2) split(1) unfolding parses_head_def by metis
    then have "read_head parse io buf s = (HeadParsed (buf @ bs) (length head) p, s')"
      using small rd(1) ne by (simp add: read_head.simps [of parse io buf s])
    with split show ?thesis by metis
  next
    case False
    then have pre: "strict_prefix (buf @ bs) head"
      using append_strict_prefix [OF all] by simp
    then have part: "parse (buf @ bs) = PPartial" using "1.prems"(2) by (simp add: parses_head_def)
    then have "read_head parse io buf s = read_head parse io (buf @ bs) s'"
      using small rd(1) ne by (simp add: read_head.simps [of parse io buf s])
    moreover have "\<exists>extra s''. read_head parse io (buf @ bs) s' = (HeadParsed (head @ extra) (length head) p, s'') \<and>
           rest = extra @ pending s''"
      by (rule "1.IH" [OF small rd(1) [symmetric] refl ne part "1.prems"(1-3) pre all])
    ultimately show ?thesis by simp
  qed
qed

section \<open>Assembling a header\<close>

text \<open>
  A header line as the parser reports it: where its name and its value start in the buffer and how
  long they are (the code subtracts the buffer's base address from the parser's slices).
\<close>

record header_span =
  sp_name_start :: nat
  sp_name_len :: nat
  sp_value_start :: nat
  sp_value_len :: nat

record parsed_request =
  pq_method :: "bytes option"
  pq_path :: "bytes option"
  pq_version :: "nat option"
  pq_headers :: "header_span list"

record parsed_response =
  pp_code :: "nat option"
  pp_reason :: "string option"
  pp_version :: "nat option"
  pp_headers :: "header_span list"

definition header_offsets :: "header_span list \<Rightarrow> kv_offset list" where
  "header_offsets spans =
     map (\<lambda>sp. kv_offset_new (sp_name_start sp) (sp_name_len sp) (sp_value_start sp) (sp_value_len sp))
       (filter (\<lambda>sp. sp_name_len sp \<noteq> 0) spans)"

definition parsed_version :: "nat option \<Rightarrow> http_version" where
  "parsed_version v = (if v = Some 1 then HTTP_11 else if v = Some 0 then HTTP_10 else HTTP_09)"

fun append_spans ::
  "(header_key \<Rightarrow> header_val \<Rightarrow> 'h \<Rightarrow> 'h outcome) \<Rightarrow> bytes \<Rightarrow> kv_offset list \<Rightarrow> 'h \<Rightarrow> 'h outcome" where
  "append_spans app buf [] h = Ok h"
| "append_spans app buf (kv # kvs) h =
     bind_outcome (kv_get_key_bytes kv buf) (\<lambda>k.
     bind_outcome (kv_get_value_bytes kv buf) (\<lambda>v.
     bind_outcome (app (KText k) (VRaw v) h) (append_spans app buf kvs)))"

definition assemble_request :: "'m http \<Rightarrow> bytes \<Rightarrow> parsed_request \<Rightarrow> 'm request_header outcome" where
  "assemble_request H buf p =
     bind_outcome
       (rq_build H (unwrap_or [] (pq_method p)) (unwrap_or [] (pq_path p)) (parsed_version (pq_version p)))
       (append_spans (rq_append_header H) buf (header_offsets (pq_headers p)))"

definition assemble_response :: "'m http \<Rightarrow> bytes \<Rightarrow> parsed_response \<Rightarrow> 'm response_header outcome" where
  "assemble_response H buf p =
     (case pp_code p of
        None \<Rightarrow> Panic ''unwrap on None''
      | Some code \<Rightarrow>
          bind_outcome (rs_build H code (parsed_version (pp_version p))) (\<lambda>h.
            append_spans (rs_append_header H) buf (header_offsets (pp_headers p))
              (rs_set_reason_phrase H (pp_reason p) h)))"

end
