(* ===== verification/BodyReader.thy ===== *)
theory BodyReader
  imports StreamIo Buffers
begin

text \<open>
  The body reader (core/src/session/reader.rs): a state machine that reads a message body with a
  content length, in chunked encoding, or until the connection closes, through one reusable
  buffer. The chunk-head parser is \<open>httparse::parse_chunk_size\<close>, code outside the repository: it is
  the argument \<open>pcs\<close>. Sizes computed from the peer's bytes are added with \<open>uadd\<close>, the wrapping
  addition of a release build.
\<close>

section \<open>Read states (reader.rs)\<close>

text \<open>
  \<open>RChunked read start end remaining\<close>: bytes read so far, where the next chunk starts in the buffer,
  where the buffer's data ends, and how much of a payload (or how long a partial head) is
  outstanding.
\<close>

datatype read_state =
    RStart
  | RCompleted nat
  | RDone nat
  | RPartial nat nat
  | RChunked nat nat nat nat
  | RHTTP10 nat

fun rs_finish :: "nat \<Rightarrow> read_state \<Rightarrow> read_state" where
  "rs_finish add (RPartial rd to_read) = RCompleted (uadd rd to_read)"
| "rs_finish add (RChunked rd a b c) = RCompleted (uadd rd add)"
| "rs_finish add (RHTTP10 rd) = RCompleted (uadd rd add)"
| "rs_finish add st = st"

fun rs_done :: "nat \<Rightarrow> read_state \<Rightarrow> read_state" where
  "rs_done add (RPartial rd a) = RDone (uadd rd add)"
| "rs_done add (RChunked rd a b c) = RDone (uadd rd add)"
| "rs_done add (RHTTP10 rd) = RDone (uadd rd add)"
| "rs_done add st = st"

fun rs_partial_chunk :: "nat \<Rightarrow> nat \<Rightarrow> read_state \<Rightarrow> read_state" where
  "rs_partial_chunk bytes_read bytes_to_read (RChunked rd a b c) =
     RChunked (uadd rd bytes_read) 0 0 bytes_to_read"
| "rs_partial_chunk bytes_read bytes_to_read st = st"

fun rs_multi_chunk :: "nat \<Rightarrow> nat \<Rightarrow> read_state \<Rightarrow> read_state" where
  "rs_multi_chunk bytes_read buf_start_index (RChunked rd a buf_end c) =
     RChunked (uadd rd bytes_read) buf_start_index buf_end 0"
| "rs_multi_chunk bytes_read buf_start_index st = st"

fun rs_partial_chunk_head :: "nat \<Rightarrow> nat \<Rightarrow> read_state \<Rightarrow> read_state" where
  "rs_partial_chunk_head head_end head_size (RChunked rd a b c) = RChunked rd 0 head_end head_size"
| "rs_partial_chunk_head head_end head_size st = st"

fun rs_new_buf :: "nat \<Rightarrow> read_state \<Rightarrow> read_state" where
  "rs_new_buf buf_end (RChunked rd a b c) = RChunked rd 0 buf_end 0"
| "rs_new_buf buf_end st = st"

section \<open>The reader and its modes\<close>

definition body_buffer_size :: nat where
  "body_buffer_size = 65536"

definition partial_chunk_head_limit :: nat where
  "partial_chunk_head_limit = 8192"

record body_reader =
  read_state :: read_state
  body_buffer :: "bytes option"
  body_size :: nat
  rewind_buf_size :: nat

definition body_reader_new :: body_reader where
  "body_reader_new =
     \<lparr>read_state = RStart, body_buffer = None, body_size = body_buffer_size, rewind_buf_size = 0\<rparr>"

definition is_start :: "body_reader \<Rightarrow> bool" where
  "is_start r \<longleftrightarrow> read_state r = RStart"

definition re_start :: "body_reader \<Rightarrow> body_reader" where
  "re_start r = r\<lparr>read_state := RStart\<rparr>"

definition get_sliced_body :: "offset \<Rightarrow> body_reader \<Rightarrow> bytes outcome" where
  "get_sliced_body off r =
     (case body_buffer r of None \<Rightarrow> Panic ''unwrap on None'' | Some buf \<Rightarrow> offset_get off buf)"

definition is_finished :: "body_reader \<Rightarrow> bool" where
  "is_finished r = (case read_state r of RCompleted n \<Rightarrow> True | RDone n \<Rightarrow> True | _ \<Rightarrow> False)"

definition is_body_empty :: "body_reader \<Rightarrow> bool" where
  "is_body_empty r \<longleftrightarrow> read_state r = RCompleted 0"

text \<open>
  The buffer starts with the bytes that were read together with the headers; the rest of the
  capacity is uninitialised memory, here zeros, which is overwritten before it is handed out.
\<close>

definition set_buffer :: "bytes \<Rightarrow> body_reader \<Rightarrow> body_reader" where
  "set_buffer rewind r =
     (let r' = (if rewind \<noteq> [] then r\<lparr>rewind_buf_size := length rewind\<rparr> else r);
          buffer = (if length rewind < body_size r
                    then rewind @ replicate (body_size r - length rewind) (CHR 0x00) else rewind)
      in r'\<lparr>body_buffer := Some buffer\<rparr>)"

definition with_chunked_read :: "bytes \<Rightarrow> body_reader \<Rightarrow> body_reader" where
  "with_chunked_read rewind r = set_buffer rewind (r\<lparr>read_state := RChunked 0 0 0 0\<rparr>)"

definition with_content_length_read :: "nat \<Rightarrow> bytes \<Rightarrow> body_reader \<Rightarrow> body_reader" where
  "with_content_length_read len rewind r =
     (if len = 0 then r\<lparr>read_state := RCompleted 0\<rparr>
      else (set_buffer rewind r)\<lparr>read_state := RPartial 0 len\<rparr>)"

definition with_until_closed_read :: "bytes \<Rightarrow> body_reader \<Rightarrow> body_reader" where
  "with_until_closed_read rewind r = (set_buffer rewind r)\<lparr>read_state := RHTTP10 0\<rparr>"

section \<open>Reading\<close>

text \<open>
  The opening of all three read functions: hand out the rewound bytes once, otherwise read into the
  whole buffer.
\<close>

definition read_or_rewind ::
  "'s io \<Rightarrow> body_reader \<Rightarrow> 's \<Rightarrow> nat outcome \<times> body_reader \<times> 's" where
  "read_or_rewind io r s =
     (case body_buffer r of
        None \<Rightarrow> (Panic ''unwrap on None'', r, s)
      | Some buf \<Rightarrow>
          (let n = rewind_buf_size r; r0 = r\<lparr>rewind_buf_size := 0\<rparr>
           in if n = 0
              then (case io_read io (length buf) s of
                      (Inl e, s') \<Rightarrow> (Err e, r0, s')
                    | (Inr bs, s') \<Rightarrow>
                        (Ok (length bs), r0\<lparr>body_buffer := Some (splice 0 bs buf)\<rparr>, s'))
              else (Ok n, r0, s)))"

definition read_partially ::
  "'s io \<Rightarrow> body_reader \<Rightarrow> 's \<Rightarrow> offset option outcome \<times> body_reader \<times> 's" where
  "read_partially io r s =
     (case read_or_rewind io r s of
        (Err e, r', s') \<Rightarrow> (Err e, r', s')
      | (Panic p, r', s') \<Rightarrow> (Panic p, r', s')
      | (Ok n, r', s') \<Rightarrow>
          (case read_state r' of
             RPartial rd to_read \<Rightarrow>
               (if n = 0 then (Err (Other ''connection closed''), r'\<lparr>read_state := RDone rd\<rparr>, s')
                else if to_read \<le> n then
                  (Ok (Some (offset_new 0 to_read)),
                   r'\<lparr>read_state := RCompleted (uadd rd to_read)\<rparr>, s')
                else
                  (Ok (Some (offset_new 0 n)),
                   r'\<lparr>read_state := RPartial (uadd rd n) (to_read - n)\<rparr>, s'))
           | _ \<Rightarrow> (Panic ''executing wrong read mode'', r', s')))"

definition read_until_closed ::
  "'s io \<Rightarrow> body_reader \<Rightarrow> 's \<Rightarrow> offset option outcome \<times> body_reader \<times> 's" where
  "read_until_closed io r s =
     (case read_or_rewind io r s of
        (Err e, r', s') \<Rightarrow> (Err e, r', s')
      | (Panic p, r', s') \<Rightarrow> (Panic p, r', s')
      | (Ok n, r', s') \<Rightarrow>
          (case read_state r' of
             RHTTP10 rd \<Rightarrow>
               (if n = 0 then (Ok None, r'\<lparr>read_state := RCompleted rd\<rparr>, s')
                else (Ok (Some (offset_new 0 n)), r'\<lparr>read_state := RHTTP10 (uadd rd n)\<rparr>, s'))
           | _ \<Rightarrow> (Panic ''executing wrong read mode'', r', s')))"

text \<open>What \<open>httparse::parse_chunk_size\<close> answers: the length of the chunk head and the size it states.\<close>

datatype chunk_status = ChunkComplete nat nat | ChunkPartial | ChunkInvalid string

definition parse_chunked_buf ::
  "(bytes \<Rightarrow> chunk_status) \<Rightarrow> nat \<Rightarrow> nat \<Rightarrow> body_reader \<Rightarrow> offset option outcome \<times> body_reader" where
  "parse_chunked_buf pcs buf_index_start buf_index_end r =
     (case body_buffer r of
        None \<Rightarrow> (Panic ''unwrap on None'', r)
      | Some full \<Rightarrow>
     (case get_slice buf_index_start buf_index_end full of
        Panic p \<Rightarrow> (Panic p, r)
      | Err e \<Rightarrow> (Err e, r)
      | Ok buffer \<Rightarrow>
     (case pcs buffer of
        ChunkComplete payload_index chunk_size \<Rightarrow>
          (if chunk_size = 0
           then (Ok None, r\<lparr>read_state := rs_finish 0 (read_state r)\<rparr>)
           else
             (let data_end_index = uadd payload_index chunk_size;
                  chunk_end_index = uadd data_end_index 2
              in if length buffer \<le> chunk_end_index
                 then
                   (let actual_size = (if length buffer < data_end_index
                                       then usub (length buffer) payload_index else chunk_size)
                    in (Ok (Some (offset_new (uadd buf_index_start payload_index) actual_size)),
                        r\<lparr>read_state := rs_partial_chunk actual_size
                             (chunk_end_index - length buffer) (read_state r)\<rparr>))
                 else
                   (Ok (Some (offset_new (uadd buf_index_start payload_index) chunk_size)),
                    r\<lparr>read_state := rs_multi_chunk chunk_size
                         (uadd buf_index_start chunk_end_index) (read_state r)\<rparr>)))
      | ChunkPartial \<Rightarrow>
          (if partial_chunk_head_limit < length buffer
           then (Err (Other ''chunk is over limit''), r\<lparr>read_state := rs_done 0 (read_state r)\<rparr>)
           else
             (Ok (Some (offset_new 0 0)),
              r\<lparr>read_state := rs_partial_chunk_head buf_index_end (length buffer) (read_state r)\<rparr>))
      | ChunkInvalid msg \<Rightarrow>
          (Err (Other msg), r\<lparr>read_state := rs_done 0 (read_state r)\<rparr>))))"

text \<open>\<open>buffer.copy_within(a..b, 0)\<close>: a memory move to the front.\<close>

definition copy_within :: "nat \<Rightarrow> nat \<Rightarrow> bytes \<Rightarrow> bytes outcome" where
  "copy_within a b buf =
     (if a \<le> b \<and> b \<le> length buf then Ok (slice a b buf @ drop (b - a) buf)
      else Panic ''slice index out of range'')"

text \<open>
  \<open>read_chunked\<close>, in the three steps of its body. First: move a partial head to the front of the
  buffer (this happens before the await).
\<close>

definition chunked_shift :: "body_reader \<Rightarrow> unit outcome \<times> body_reader" where
  "chunked_shift r =
     (case read_state r of
        RChunked tot st en ex \<Rightarrow>
          (case body_buffer r of
             None \<Rightarrow> (Panic ''unwrap on None'', r)
           | Some buf \<Rightarrow>
               (case copy_within (usub en ex) en buf of
                  Ok buf' \<Rightarrow> (Ok (), r\<lparr>body_buffer := Some buf'\<rparr>)
                | Err e \<Rightarrow> (Err e, r)
                | Panic p \<Rightarrow> (Panic p, r)))
      | _ \<Rightarrow> (Panic ''executing wrong read mode'', r))"

text \<open>Second: get new bytes if the buffer is used up. The result is \<open>existing_buf_end\<close> and
  \<open>expecting_from_io\<close>.\<close>

definition chunked_fill ::
  "'s io \<Rightarrow> body_reader \<Rightarrow> 's \<Rightarrow> (nat \<times> nat) outcome \<times> body_reader \<times> 's" where
  "chunked_fill io r s =
     (case read_state r of
        RChunked tot st en ex \<Rightarrow>
          (if st \<noteq> 0 then (Ok (en, ex), r, s)
           else if en = 0 then
             (case read_or_rewind io r s of
                (Ok n, r', s') \<Rightarrow> (Ok (n, ex), r'\<lparr>read_state := rs_new_buf n (read_state r')\<rparr>, s')
              | (Err e, r', s') \<Rightarrow> (Err e, r', s')
              | (Panic p, r', s') \<Rightarrow> (Panic p, r', s'))
           else
             (case chunked_shift r of
                (Err e, r') \<Rightarrow> (Err e, r', s)
              | (Panic p, r') \<Rightarrow> (Panic p, r', s)
              | (Ok u, r') \<Rightarrow>
                  (case body_buffer r' of
                     None \<Rightarrow> (Panic ''unwrap on None'', r', s)
                   | Some buf \<Rightarrow>
                       (if ex \<le> length buf
                        then (case io_read io (length buf - ex) s of
                                (Inl e, s') \<Rightarrow> (Err e, r', s')
                              | (Inr bs, s') \<Rightarrow>
                                  (Ok (ex + length bs, 0),
                                   r'\<lparr>body_buffer := Some (splice ex bs buf),
                                      read_state := rs_new_buf (ex + length bs) (read_state r')\<rparr>, s'))
                        else (Panic ''slice index out of range'', r', s)))))
      | _ \<Rightarrow> (Panic ''executing wrong read mode'', r, s))"

text \<open>Third: the bytes belong to a payload that is still outstanding.\<close>

definition chunked_payload ::
  "nat \<Rightarrow> nat \<Rightarrow> body_reader \<Rightarrow> offset option outcome \<times> body_reader" where
  "chunked_payload existing_buf_end expecting_from_io r =
     (if existing_buf_end + 2 \<le> expecting_from_io
      then (Ok (Some (offset_new 0 existing_buf_end)),
            r\<lparr>read_state := rs_partial_chunk existing_buf_end
                 (expecting_from_io - existing_buf_end) (read_state r)\<rparr>)
      else
        (let payload_size = (if 2 < expecting_from_io then expecting_from_io - 2 else 0)
         in if existing_buf_end \<le> expecting_from_io
            then (Ok (Some (offset_new 0 payload_size)),
                  r\<lparr>read_state := rs_partial_chunk payload_size
                       (expecting_from_io - existing_buf_end) (read_state r)\<rparr>)
            else (Ok (Some (offset_new 0 payload_size)),
                  r\<lparr>read_state := rs_multi_chunk payload_size expecting_from_io (read_state r)\<rparr>)))"

definition read_chunked ::
  "(bytes \<Rightarrow> chunk_status) \<Rightarrow> 's io \<Rightarrow> body_reader \<Rightarrow> 's \<Rightarrow> offset option outcome \<times> body_reader \<times> 's" where
  "read_chunked pcs io r s =
     (case read_state r of
        RChunked tot st en ex \<Rightarrow>
          (case chunked_fill io r s of
             (Err e, r', s') \<Rightarrow> (Err e, r', s')
           | (Panic p, r', s') \<Rightarrow> (Panic p, r', s')
           | (Ok (existing_buf_end, expecting_from_io), r', s') \<Rightarrow>
               (if existing_buf_end = 0
                then (Err (Other ''connection closed''),
                      r'\<lparr>read_state := rs_done 0 (read_state r')\<rparr>, s')
                else if 0 < expecting_from_io
                then (case chunked_payload existing_buf_end expecting_from_io r' of
                        (res, r'') \<Rightarrow> (res, r'', s'))
                else (case parse_chunked_buf pcs st existing_buf_end r' of
                        (res, r'') \<Rightarrow> (res, r'', s'))))
      | _ \<Rightarrow> (Panic ''executing wrong read mode'', r, s))"

definition read_body ::
  "(bytes \<Rightarrow> chunk_status) \<Rightarrow> 's io \<Rightarrow> body_reader \<Rightarrow> 's \<Rightarrow> offset option outcome \<times> body_reader \<times> 's" where
  "read_body pcs io r s =
     (case read_state r of
        RCompleted n \<Rightarrow> (Ok None, r, s)
      | RDone n \<Rightarrow> (Ok None, r, s)
      | RPartial a b \<Rightarrow> read_partially io r s
      | RChunked a b c d \<Rightarrow> read_chunked pcs io r s
      | RHTTP10 n \<Rightarrow> read_until_closed io r s
      | RStart \<Rightarrow> (Panic ''reader is not initialized'', r, s))"

text \<open>
  What a read leaves behind when its future is dropped at the await, the socket's read being still pending; \<open>None\<close>
  for a read that never awaits. Only a read that continues a partial chunk head has done something by then: it
  has moved the head to the front of the buffer, and has not recorded the move.
\<close>

definition read_dropped :: "body_reader \<Rightarrow> body_reader option" where
  "read_dropped r =
     (case body_buffer r of
        None \<Rightarrow> None
      | Some buf \<Rightarrow>
          (case read_state r of
             RPartial rd to_read \<Rightarrow> (if rewind_buf_size r = 0 then Some r else None)
           | RHTTP10 rd \<Rightarrow> (if rewind_buf_size r = 0 then Some r else None)
           | RChunked tot st en ex \<Rightarrow>
               (if st \<noteq> 0 then None
                else if en = 0 then (if rewind_buf_size r = 0 then Some r else None)
                else (case chunked_shift r of
                        (Ok u, r') \<Rightarrow> (if ex \<le> length buf then Some r' else None)
                      | _ \<Rightarrow> None))
           | _ \<Rightarrow> None))"

section \<open>Reading a whole body\<close>

text \<open>
  Both sessions read a piece of the body by reading an offset and copying the bytes it denotes out
  of the buffer; a body is read piece by piece until there is none left.
\<close>

definition read_piece ::
  "(bytes \<Rightarrow> chunk_status) \<Rightarrow> 's io \<Rightarrow> body_reader \<Rightarrow> 's \<Rightarrow> bytes option outcome \<times> body_reader \<times> 's" where
  "read_piece pcs io r s =
     (case read_body pcs io r s of
        (Err e, r', s') \<Rightarrow> (Err e, r', s')
      | (Panic p, r', s') \<Rightarrow> (Panic p, r', s')
      | (Ok None, r', s') \<Rightarrow> (Ok None, r', s')
      | (Ok (Some off), r', s') \<Rightarrow>
          (case get_sliced_body off r' of
             Ok bs \<Rightarrow> (Ok (Some bs), r', s')
           | Err e \<Rightarrow> (Err e, r', s')
           | Panic p \<Rightarrow> (Panic p, r', s')))"

fun drain ::
  "('r \<Rightarrow> 's \<Rightarrow> bytes option outcome \<times> 'r \<times> 's) \<Rightarrow> nat \<Rightarrow> 'r \<Rightarrow> 's
   \<Rightarrow> (bytes list outcome \<times> 'r \<times> 's) option" where
  "drain piece 0 r s = None"
| "drain piece (Suc fuel) r s =
     (case piece r s of
        (Ok None, r', s') \<Rightarrow> Some (Ok [], r', s')
      | (Err e, r', s') \<Rightarrow> Some (Err e, r', s')
      | (Panic p, r', s') \<Rightarrow> Some (Panic p, r', s')
      | (Ok (Some bs), r', s') \<Rightarrow>
          (case drain piece fuel r' s' of
             None \<Rightarrow> None
           | Some (Ok bss, r'', s'') \<Rightarrow> Some (Ok (bs # bss), r'', s'')
           | Some (Err e, r'', s'') \<Rightarrow> Some (Err e, r'', s'')
           | Some (Panic p, r'', s'') \<Rightarrow> Some (Panic p, r'', s'')))"

text \<open>\<open>fuel\<close> bounds the number of reads; a body is read with the pieces of the body reader.\<close>

definition read_all ::
  "(bytes \<Rightarrow> chunk_status) \<Rightarrow> 's io \<Rightarrow> nat \<Rightarrow> body_reader \<Rightarrow> 's
   \<Rightarrow> (bytes list outcome \<times> body_reader \<times> 's) option" where
  "read_all pcs io fuel r s = drain (read_piece pcs io) fuel r s"

lemmas reader_step_defs [step_simps] =
  read_piece_def read_body_def read_partially_def read_until_closed_def read_chunked_def
  read_or_rewind_def get_sliced_body_def

text \<open>
  What a mode of the reader promises, for the reader itself and for a session that contains one.
  \<open>rep n c r s\<close> says that \<open>n\<close> bytes of the body have been handed out and the bytes \<open>c\<close> are still to
  come; \<open>meas\<close> bounds the number of reads left, \<open>complete n\<close> is the final state after \<open>n\<close> bytes.
\<close>

locale body_source =
  fixes piece :: "'r \<Rightarrow> 's \<Rightarrow> bytes option outcome \<times> 'r \<times> 's"
    and rep :: "nat \<Rightarrow> bytes \<Rightarrow> 'r \<Rightarrow> 's \<Rightarrow> bool"
    and meas :: "'r \<Rightarrow> 's \<Rightarrow> nat"
    and complete :: "nat \<Rightarrow> 'r \<Rightarrow> bool"
  assumes progress:
    "rep n c r s \<Longrightarrow>
       (\<exists>r' s'. piece r s = (Ok None, r', s') \<and> c = [] \<and> complete n r') \<or>
       (\<exists>bs c' r' s'. piece r s = (Ok (Some bs), r', s') \<and> c = bs @ c' \<and>
          rep (n + length bs) c' r' s' \<and> meas r' s' < meas r s)"
begin

lemma drain_delivers:
  assumes "rep n c r s" "meas r s < fuel"
  shows "\<exists>bss r' s'. drain piece fuel r s = Some (Ok bss, r', s') \<and> concat bss = c
           \<and> complete (n + length c) r'"
  using assms
proof (induction fuel arbitrary: n c r s)
  case 0
  then show ?case by simp
next
  case (Suc fuel)
  from progress [OF Suc.prems(1)] show ?case
  proof (elim disjE exE conjE)
    fix r' s'
    assume "piece r s = (Ok None, r', s')" "c = []" "complete n r'"
    then show ?thesis by simp
  next
    fix bs c' r' s'
    assume step: "piece r s = (Ok (Some bs), r', s')" "c = bs @ c'" "rep (n + length bs) c' r' s'"
      "meas r' s' < meas r s"
    then have "meas r' s' < fuel" using Suc.prems(2) by simp
    from Suc.IH [OF step(3) this] step(1,2) show ?thesis by (auto simp: add.assoc)
  qed
qed

end

text \<open>
  A session that reads through such a source: \<open>reader\<close> is the source's state inside the session, \<open>ready\<close>
  says that the session has set the read mode, and \<open>note bs\<close> is the book-keeping for a piece.
\<close>

locale session_source = body_source piece rep meas complete
  for piece :: "'r \<Rightarrow> 's \<Rightarrow> bytes option outcome \<times> 'r \<times> 's"
    and rep :: "nat \<Rightarrow> bytes \<Rightarrow> 'r \<Rightarrow> 's \<Rightarrow> bool"
    and meas :: "'r \<Rightarrow> 's \<Rightarrow> nat"
    and complete :: "nat \<Rightarrow> 'r \<Rightarrow> bool" +
  fixes spiece :: "'d \<Rightarrow> 's \<Rightarrow> bytes option outcome \<times> 'd \<times> 's"
    and reader :: "'d \<Rightarrow> 'r"
    and ready :: "'r \<Rightarrow> bool"
  assumes lifts: "ready (reader d) \<Longrightarrow> piece (reader d) s = (res, r', s') \<Longrightarrow>
      \<exists>d'. spiece d s = (res, d', s') \<and> reader d' = r'"
    and rep_ready: "rep n c r s \<Longrightarrow> ready r"

sublocale session_source \<subseteq> session: body_source spiece "\<lambda>n c d s. rep n c (reader d) s"
  "\<lambda>d s. meas (reader d) s" "\<lambda>n d. complete n (reader d)"
proof
  fix n c d s
  assume rep: "rep n c (reader d) s"
  note ready = rep_ready [OF rep]
  from progress [OF rep]
  show "(\<exists>d' s'. spiece d s = (Ok None, d', s') \<and> c = [] \<and> complete n (reader d')) \<or>
     (\<exists>bs c' d' s'. spiece d s = (Ok (Some bs), d', s') \<and> c = bs @ c' \<and>
        rep (n + length bs) c' (reader d') s' \<and> meas (reader d') s' < meas (reader d) s)"
    using lifts [OF ready] by blast
qed

section \<open>Content-length and close-delimited bodies\<close>

definition buffered :: "body_reader \<Rightarrow> bool" where
  "buffered r \<longleftrightarrow>
     (\<exists>buf. body_buffer r = Some buf \<and> 0 < length buf \<and> length buf < usize_mod
        \<and> rewind_buf_size r \<le> length buf)"

definition rewound :: "body_reader \<Rightarrow> bytes" where
  "rewound r = (case body_buffer r of None \<Rightarrow> [] | Some buf \<Rightarrow> take (rewind_buf_size r) buf)"

lemma buffered_new [simp]:
  "buffered (set_buffer rewind body_reader_new) \<longleftrightarrow> length rewind < usize_mod"
  "rewound (set_buffer rewind body_reader_new) = rewind"
  by (auto simp: buffered_def rewound_def set_buffer_def body_reader_new_def body_buffer_size_def
        usize_mod_def Let_def)

lemma read_or_rewind_delivers:
  assumes "delivers io pending" "buffered r"
  obtains n buf r' s' where "read_or_rewind io r s = (Ok n, r', s')"
    "body_buffer r' = Some buf" "n \<le> length buf" "buffered r'" "rewind_buf_size r' = 0"
    "read_state r' = read_state r" "rewound r @ pending s = take n buf @ pending s'"
    "n = 0 \<Longrightarrow> rewound r @ pending s = []"
    "length (pending s') + length (rewound r) \<le> length (pending s) + n"
proof -
  obtain buf where r: "body_buffer r = Some buf" "0 < length buf" "length buf < usize_mod"
      "rewind_buf_size r \<le> length buf"
    using assms(2) by (auto simp: buffered_def)
  show ?thesis
  proof (cases "rewind_buf_size r = 0")
    case True
    obtain bs s' where io: "io_read io (length buf) s = (Inr bs, s')" "length bs \<le> length buf"
        "pending s = bs @ pending s'" "bs = [] \<Longrightarrow> pending s = []"
      using deliversE [OF assms(1) r(2)] by metis
    have "length (splice 0 bs buf) = length buf" "take (length bs) (splice 0 bs buf) = bs"
      using io(2) take_splice [of 0 buf bs] by simp_all
    moreover from this have "splice 0 bs buf \<noteq> []" using r(2) by auto
    ultimately show ?thesis
      using that [of "length bs" "r\<lparr>rewind_buf_size := 0, body_buffer := Some (splice 0 bs buf)\<rparr>"
          s' "splice 0 bs buf"] io r True
      by (auto simp: read_or_rewind_def buffered_def rewound_def)
  next
    case False
    then show ?thesis
      using that [of "rewind_buf_size r" "r\<lparr>rewind_buf_size := 0\<rparr>" s buf] r
      by (auto simp: read_or_rewind_def buffered_def rewound_def)
  qed
qed

lemma get_sliced_body_front:
  assumes "body_buffer r = Some buf" "n \<le> length buf" "length buf < usize_mod"
  shows "get_sliced_body (offset_new 0 n) r = Ok (take n buf)"
  using assms offset_new_get(1) [of 0 n buf]
  by (simp add: get_sliced_body_def slice_0 del: offset_new.simps)

text \<open>A body with a content length of which all bytes arrive, possibly with more behind them.\<close>

definition content_length_rep ::
  "'s io \<Rightarrow> ('s \<Rightarrow> bytes) \<Rightarrow> nat \<Rightarrow> bytes \<Rightarrow> body_reader \<Rightarrow> 's \<Rightarrow> bool" where
  "content_length_rep io pending n c r s \<longleftrightarrow>
     delivers io pending \<and>
     (c = [] \<and> read_state r = RCompleted n \<or>
      c \<noteq> [] \<and> read_state r = RPartial n (length c) \<and> buffered r \<and> n + length c < usize_mod \<and>
      prefix c (rewound r @ pending s))"

fun partial_left :: "read_state \<Rightarrow> nat" where
  "partial_left (RPartial rd to_read) = Suc to_read"
| "partial_left st = 0"

definition until_closed_rep ::
  "'s io \<Rightarrow> ('s \<Rightarrow> bytes) \<Rightarrow> nat \<Rightarrow> bytes \<Rightarrow> body_reader \<Rightarrow> 's \<Rightarrow> bool" where
  "until_closed_rep io pending n c r s \<longleftrightarrow>
     delivers io pending \<and> read_state r = RHTTP10 n \<and> buffered r \<and> n + length c < usize_mod \<and>
     c = rewound r @ pending s"

lemma content_length_opens:
  assumes "content_length_rep io pending n c r s" "c \<noteq> []"
  obtains m buf r1 s1 extra where "read_or_rewind io r s = (Ok m, r1, s1)" "read_state r = RPartial n (length c)"
    "body_buffer r1 = Some buf" "0 < m" "m \<le> length buf" "length buf < usize_mod" "buffered r1" "rewind_buf_size r1 = 0"
    "read_state r1 = RPartial n (length c)" "c @ extra = take m buf @ pending s1"
proof -
  have r: "delivers io pending" "read_state r = RPartial n (length c)" "buffered r" "prefix c (rewound r @ pending s)"
    using assms by (auto simp: content_length_rep_def)
  obtain m buf r1 s1 where rd: "read_or_rewind io r s = (Ok m, r1, s1)"
      "body_buffer r1 = Some buf" "m \<le> length buf" "buffered r1" "rewind_buf_size r1 = 0"
      "read_state r1 = read_state r" "rewound r @ pending s = take m buf @ pending s1"
      "m = 0 \<Longrightarrow> rewound r @ pending s = []"
    using read_or_rewind_delivers [OF r(1,3)] by metis
  have "0 < m" using rd(8) r(4) assms(2) by (cases m) auto
  moreover have "length buf < usize_mod" using rd(2,4) by (auto simp: buffered_def)
  moreover obtain extra where "c @ extra = take m buf @ pending s1" using r(4) rd(7) by (auto simp: prefix_def)
  ultimately show ?thesis using that rd(1-6) r(2) by metis
qed

lemma content_length_progress:
  assumes "content_length_rep io pending n c r s"
  shows "(\<exists>r' s'. read_piece pcs io r s = (Ok None, r', s') \<and> c = [] \<and> read_state r' = RCompleted n) \<or>
    (\<exists>bs c' r' s'. read_piece pcs io r s = (Ok (Some bs), r', s') \<and> c = bs @ c' \<and>
       content_length_rep io pending (n + length bs) c' r' s' \<and>
       partial_left (read_state r') < partial_left (read_state r))"
proof (cases "c = []")
  case True
  with assms show ?thesis by (simp add: content_length_rep_def read_piece_def read_body_def)
next
  case False
  then have io: "delivers io pending" "n + length c < usize_mod" using assms by (auto simp: content_length_rep_def)
  from content_length_opens [OF assms False] obtain m buf r1 s1 extra where rd: "read_or_rewind io r s = (Ok m, r1, s1)"
    "read_state r = RPartial n (length c)" "body_buffer r1 = Some buf" "0 < m" "m \<le> length buf" "length buf < usize_mod"
    "buffered r1" "rewind_buf_size r1 = 0" "read_state r1 = RPartial n (length c)" "c @ extra = take m buf @ pending s1" .
  show ?thesis
  proof (cases "length c \<le> m")
    case True
    have "c = take (length c) (take m buf)"
      using arg_cong [OF rd(10), of "take (length c)"] True rd(5) by simp
    then have "take (length c) buf = c" using True by (simp add: min_def)
    moreover have "get_sliced_body (offset_new 0 (length c)) (r1\<lparr>read_state := q\<rparr>) = Ok (take (length c) buf)" for q
      using get_sliced_body_front [of "r1\<lparr>read_state := q\<rparr>" buf "length c"] rd(3,5,6) True by simp
    ultimately show ?thesis
      using rd(1,2,4,9) io True False
      by (auto simp: read_piece_def read_body_def read_partially_def content_length_rep_def simp del: offset_new.simps)
  next
    case more: False
    have len: "length (take m buf) = m" using rd(5) by simp
    have c: "c = take m buf @ drop m c" "drop m c @ extra = pending s1"
      using append_split_take [OF rd(10)] more len by simp_all
    define r2 where "r2 = r1\<lparr>read_state := RPartial (n + m) (length c - m)\<rparr>"
    have "get_sliced_body (offset_new 0 m) r2 = Ok (take m buf)"
      using get_sliced_body_front [of r2 buf m] rd(3,5,6) by (simp add: r2_def)
    then have "read_piece pcs io r s = (Ok (Some (take m buf)), r2, s1)"
      using rd(1,2,4,9) io(2) more
      by (simp add: read_piece_def read_body_def read_partially_def r2_def del: offset_new.simps)
    moreover have "rewound r2 @ pending s1 = drop m c @ extra" "buffered r2"
      using rd(3,7,8) c(2) by (auto simp: r2_def buffered_def rewound_def)
    then have "content_length_rep io pending (n + length (take m buf)) (drop m c) r2 s1"
      using io more len by (auto simp: content_length_rep_def r2_def)
    moreover have "partial_left (read_state r2) < partial_left (read_state r)" using rd(2,4) more by (simp add: r2_def)
    ultimately show ?thesis using c(1) by blast
  qed
qed

lemma until_closed_progress:
  assumes "until_closed_rep io pending n c r s"
  shows "(\<exists>r' s'. read_piece pcs io r s = (Ok None, r', s') \<and> c = [] \<and> read_state r' = RCompleted n) \<or>
    (\<exists>bs c' r' s'. read_piece pcs io r s = (Ok (Some bs), r', s') \<and> c = bs @ c' \<and>
       until_closed_rep io pending (n + length bs) c' r' s' \<and>
       length (rewound r') + length (pending s') < length (rewound r) + length (pending s))"
proof -
  have r: "delivers io pending" "read_state r = RHTTP10 n" "buffered r"
      "n + length c < usize_mod" "c = rewound r @ pending s"
    using assms by (auto simp: until_closed_rep_def)
  obtain m buf r1 s1 where rd: "read_or_rewind io r s = (Ok m, r1, s1)"
      "body_buffer r1 = Some buf" "m \<le> length buf" "buffered r1" "rewind_buf_size r1 = 0"
      "read_state r1 = read_state r" "rewound r @ pending s = take m buf @ pending s1"
      "m = 0 \<Longrightarrow> rewound r @ pending s = []"
    using read_or_rewind_delivers [OF r(1,3)] by metis
  have small: "length buf < usize_mod" using rd(2,4) by (auto simp: buffered_def)
  show ?thesis
  proof (cases "m = 0")
    case True
    with rd(1,6,8) r(2,5) show ?thesis
      by (simp add: read_piece_def read_body_def read_until_closed_def)
  next
    case False
    define r2 where "r2 = r1\<lparr>read_state := RHTTP10 (n + m)\<rparr>"
    have len: "length c = m + length (pending s1)" using rd(3,7) r(5) by simp
    have "get_sliced_body (offset_new 0 m) r2 = Ok (take m buf)"
      using get_sliced_body_front [of r2 buf m] rd(2,3) small by (simp add: r2_def)
    then have "read_piece pcs io r s = (Ok (Some (take m buf)), r2, s1)"
      using rd(1,6) r(2,4) False len
      by (simp add: read_piece_def read_body_def read_until_closed_def r2_def del: offset_new.simps)
    moreover have "c = take m buf @ pending s1" using rd(7) r(5) by simp
    moreover have "until_closed_rep io pending (n + length (take m buf)) (pending s1) r2 s1"
      using r(1,4) rd(2-5) len by (auto simp: until_closed_rep_def r2_def buffered_def rewound_def)
    moreover have "length (rewound r2) + length (pending s1) < length (rewound r) + length (pending s)"
      using rd(2,5) r(5) len False by (simp add: r2_def rewound_def)
    ultimately show ?thesis by blast
  qed
qed

interpretation content_length: body_source "read_piece pcs io" "content_length_rep io pending"
  "\<lambda>r s. partial_left (read_state r)" "\<lambda>n r. read_state r = RCompleted n"
  for pcs :: "bytes \<Rightarrow> chunk_status" and io :: "'s io" and pending
  by unfold_locales (rule content_length_progress)

interpretation until_closed: body_source "read_piece pcs io" "until_closed_rep io pending"
  "\<lambda>r s. length (rewound r) + length (pending s)" "\<lambda>n r. read_state r = RCompleted n"
  for pcs :: "bytes \<Rightarrow> chunk_status" and io :: "'s io" and pending
  by unfold_locales (rule until_closed_progress)

end
