(* ===== verification/ChunkedDecode.thy ===== *)
theory ChunkedDecode
  imports BodyReader
begin

text \<open>
  The chunked reader decodes: whatever segments the peer's bytes arrive in, the pieces
  \<open>read_chunked\<close> hands out concatenate to the chunks' payload. The chunk-head parser is the
  argument \<open>pcs\<close>; what the decoder relies on is \<open>chunk_head\<close>: on input that starts with a complete
  head it reports the head's length and size, on a proper part of a head it asks for more.
\<close>

section \<open>Chunked wire format\<close>

definition chunk_head :: "(bytes \<Rightarrow> chunk_status) \<Rightarrow> bytes \<Rightarrow> nat \<Rightarrow> bool" where
  "chunk_head pcs h n \<longleftrightarrow>
     h \<noteq> [] \<and> length h \<le> partial_chunk_head_limit \<and>
     (\<forall>rest. pcs (h @ rest) = ChunkComplete (length h) n) \<and>
     (\<forall>p. strict_prefix p h \<longrightarrow> pcs p = ChunkPartial)"

text \<open>A chunk is its head (size line), its data, and the two bytes that end it.\<close>

type_synonym wire_chunk = "bytes \<times> bytes \<times> bytes"

fun chunk_ok :: "(bytes \<Rightarrow> chunk_status) \<Rightarrow> wire_chunk \<Rightarrow> bool" where
  "chunk_ok pcs (h, d, t) \<longleftrightarrow> chunk_head pcs h (length d) \<and> d \<noteq> [] \<and> length t = 2"

fun wire :: "wire_chunk list \<Rightarrow> bytes \<Rightarrow> bytes" where
  "wire [] tail = tail"
| "wire ((h, d, t) # cs) tail = h @ d @ t @ wire cs tail"

fun payload :: "wire_chunk list \<Rightarrow> bytes" where
  "payload [] = []"
| "payload ((h, d, t) # cs) = d @ payload cs"

fun next_head :: "wire_chunk list \<Rightarrow> bytes \<Rightarrow> bytes" where
  "next_head [] lh = lh"
| "next_head ((h, d, t) # cs) lh = h"

lemma payload_le_wire: "length (payload cs) \<le> length (wire cs tail)"
  by (induction cs tail rule: wire.induct) auto

lemma wire_next_head: "\<exists>rest. wire cs (lh @ extra) = next_head cs lh @ rest"
  by (induction cs lh rule: next_head.induct) auto

lemma wire_nonempty: "lh \<noteq> [] \<Longrightarrow> wire cs (lh @ extra) \<noteq> []"
  by (induction cs "lh @ extra" rule: wire.induct) auto

section \<open>Where the reader stands in the stream\<close>

text \<open>The bytes that are in the buffer and have not been handed out.\<close>

definition unread :: "body_reader \<Rightarrow> bytes" where
  "unread r =
     (case (body_buffer r, read_state r) of
        (Some buf, RChunked rd st en ex) \<Rightarrow>
          (if st \<noteq> 0 then slice st en buf
           else if en = 0 then take (rewind_buf_size r) buf
           else slice (en - ex) en buf)
      | _ \<Rightarrow> [])"

fun in_head :: "read_state \<Rightarrow> bool" where
  "in_head (RChunked rd st en ex) \<longleftrightarrow> st = 0 \<and> en \<noteq> 0"
| "in_head st \<longleftrightarrow> False"

definition work :: "body_reader \<Rightarrow> bytes \<Rightarrow> nat" where
  "work r pend = length (unread r) + 2 * length pend + (if in_head (read_state r) then 0 else 1)"

text \<open>
  \<open>decoding\<close>: the rest \<open>d\<close> of the current chunk's data, then the chunks \<open>cs\<close>, then the last head
  \<open>lh\<close> are still to come; \<open>rd\<close> bytes of payload have been handed out.
\<close>

definition decoding ::
  "wire_chunk list \<Rightarrow> bytes \<Rightarrow> bytes \<Rightarrow> bytes \<Rightarrow> nat \<Rightarrow> body_reader \<Rightarrow> bytes \<Rightarrow> bool" where
  "decoding cs lh extra d rd r pend \<longleftrightarrow>
     (\<exists>buf st en ex t.
        body_buffer r = Some buf \<and> partial_chunk_head_limit < length buf \<and> length buf < usize_mod \<and>
        rewind_buf_size r \<le> length buf \<and> read_state r = RChunked rd st en ex \<and>
        unread r @ pend = d @ t @ wire cs (lh @ extra) \<and>
        (if st = 0 \<and> en = 0
         then ex = length d + length t \<and> length t \<le> 2 \<and> (d \<noteq> [] \<longrightarrow> length t = 2)
         else d = [] \<and> t = [] \<and> rewind_buf_size r = 0 \<and> en \<le> length buf \<and>
              (if st \<noteq> 0 then st < en \<and> ex = 0
               else 0 < ex \<and> ex \<le> en \<and> strict_prefix (unread r) (next_head cs lh))))"

text \<open>What a parse of the buffered bytes achieves.\<close>

definition decoded ::
  "wire_chunk list \<Rightarrow> bytes \<Rightarrow> bytes \<Rightarrow> bytes \<Rightarrow> nat \<Rightarrow> nat \<Rightarrow> bytes \<Rightarrow> offset option outcome \<Rightarrow> body_reader \<Rightarrow> bool" where
  "decoded cs lh extra d rd n pend res r' \<longleftrightarrow>
     (case res of
        Ok None \<Rightarrow> cs = [] \<and> d = [] \<and> read_state r' = RCompleted rd
      | Ok (Some off) \<Rightarrow>
          (\<exists>bs d' cs'. get_sliced_body off r' = Ok bs \<and>
             decoding cs' lh extra d' (rd + length bs) r' pend \<and>
             set cs' \<subseteq> set cs \<and>
             d @ payload cs = bs @ d' @ payload cs' \<and>
             length bs + length d' + length (wire cs' (lh @ extra))
               \<le> length d + length (wire cs (lh @ extra)) \<and>
             (length (unread r') < n \<or> in_head (read_state r') \<and> length (unread r') = n))
      | _ \<Rightarrow> False)"

lemma drop_slice: "drop k (slice a b xs) = slice (a + k) b xs"
  by (simp add: slice_def drop_take add.commute)

lemma take_slice: "a + k \<le> b \<Longrightarrow> take k (slice a b xs) = slice a (a + k) xs"
  by (simp add: slice_def min_def)

lemma split_payload:
  assumes "length xs \<le> length d + length t" "xs @ p = d @ t @ w"
  shows "take (length d) xs = take (length xs) d"
    and "p = drop (length xs) d @ drop (length xs - length d) t @ w"
proof -
  show "p = drop (length xs) d @ drop (length xs - length d) t @ w"
    using arg_cong [OF assms(2), of "drop (length xs)"] assms(1) by simp
  have "take (min (length xs) (length d)) xs = take (min (length xs) (length d)) d"
    using arg_cong [OF assms(2), of "take (min (length xs) (length d))"] by simp
  then show "take (length d) xs = take (length xs) d"
    by (simp add: min_def split: if_splits)
qed

lemma wire_bound:
  assumes "chunk_head pcs lh 0" "\<forall>c\<in>set cs. chunk_ok pcs c"
  shows "length (next_head cs lh) \<le> partial_chunk_head_limit"
  using assms by (cases cs) (auto simp: chunk_head_def)

lemma decoding_mid:
  assumes "body_buffer r = Some buf" "partial_chunk_head_limit < length buf" "length buf < usize_mod"
    "rewind_buf_size r = 0" "read_state r = RChunked rd st en 0" "0 < st" "st < en" "en \<le> length buf"
    "slice st en buf @ pend = wire cs (lh @ extra)"
  shows "decoding cs lh extra [] rd r pend" "length (unread r) = en - st"
  using assms by (auto simp: decoding_def unread_def)

lemma decoding_payload:
  assumes "body_buffer r = Some buf" "partial_chunk_head_limit < length buf" "length buf < usize_mod"
    "rewind_buf_size r = 0" "read_state r = RChunked rd 0 0 (length d + length t)"
    "length t \<le> 2" "d \<noteq> [] \<Longrightarrow> length t = 2" "pend = d @ t @ wire cs (lh @ extra)"
  shows "decoding cs lh extra d rd r pend" "length (unread r) = 0"
  using assms by (auto simp: decoding_def unread_def)

lemma decoding_head:
  assumes "body_buffer r = Some buf" "partial_chunk_head_limit < length buf" "length buf < usize_mod"
    "rewind_buf_size r = 0" "read_state r = RChunked rd 0 en (en - st)" "st < en" "en \<le> length buf"
    "slice st en buf @ pend = wire cs (lh @ extra)" "strict_prefix (slice st en buf) (next_head cs lh)"
  shows "decoding cs lh extra [] rd r pend" "length (unread r) = en - st" "in_head (read_state r)"
  using assms by (auto simp: decoding_def unread_def)

text \<open>The bytes from \<open>st\<close> to \<open>en\<close> of the buffer begin with the head of a chunk.\<close>

definition heading ::
  "wire_chunk list \<Rightarrow> bytes \<Rightarrow> bytes \<Rightarrow> nat \<Rightarrow> nat \<Rightarrow> nat \<Rightarrow> bytes \<Rightarrow> body_reader \<Rightarrow> bytes \<Rightarrow> bool" where
  "heading cs lh extra rd st en buf r pend \<longleftrightarrow>
     body_buffer r = Some buf \<and> partial_chunk_head_limit < length buf \<and> length buf < usize_mod \<and> rewind_buf_size r = 0 \<and>
     (\<exists>st0. read_state r = RChunked rd st0 en 0) \<and> st < en \<and> en \<le> length buf \<and>
     slice st en buf @ pend = wire cs (lh @ extra) \<and> rd + length (wire cs (lh @ extra)) < usize_mod"

lemma heading_length: "heading cs lh extra rd st en buf r pend \<Longrightarrow> length (slice st en buf) = en - st"
  by (simp add: heading_def)

lemma parse_partial_head:
  assumes "chunk_head pcs lh 0" "\<forall>c\<in>set cs. chunk_ok pcs c" "heading cs lh extra rd st en buf r pend"
    and "length (slice st en buf) < length (next_head cs lh)"
  shows "decoded cs lh extra [] rd (en - st) pend (fst (parse_chunked_buf pcs st en r)) (snd (parse_chunked_buf pcs st en r))"
proof -
  note r = assms(3) [unfolded heading_def]
  obtain rest where "wire cs (lh @ extra) = next_head cs lh @ rest" using wire_next_head by blast
  with r assms(4) have pre: "strict_prefix (slice st en buf) (next_head cs lh)" using append_strict_prefix by metis
  moreover have "\<exists>n. chunk_head pcs (next_head cs lh) n" using assms(1,2) by (cases cs) auto
  ultimately have part: "pcs (slice st en buf) = ChunkPartial" by (auto simp: chunk_head_def)
  have lim: "en - st \<le> partial_chunk_head_limit"
    using assms(4) wire_bound [OF assms(1,2)] heading_length [OF assms(3)] by simp
  define r' where "r' = r\<lparr>read_state := RChunked rd 0 en (en - st)\<rparr>"
  have "parse_chunked_buf pcs st en r = (Ok (Some (offset_new 0 0)), r')"
    using r part lim by (auto simp: parse_chunked_buf_def get_slice_def r'_def)
  moreover have "get_sliced_body (offset_new 0 0) r' = Ok []"
    using r offset_new_get [of 0 0 buf] by (simp add: get_sliced_body_def r'_def usize_mod_def)
  ultimately show ?thesis
    using decoding_head [of r' buf rd en st pend cs lh extra] r pre
    by (auto simp: decoded_def r'_def simp del: offset_new.simps intro!: exI [of _ "[]"] exI [of _ cs])
qed

text \<open>A complete head, with the facts both cases of its chunk use.\<close>

lemma complete_head:
  assumes "heading ((h, d, t) # cs) lh extra rd st en buf r pend" "chunk_ok pcs (h, d, t)" "length h \<le> length (slice st en buf)"
  shows "pcs (slice st en buf) = ChunkComplete (length h) (length d)" "0 < length h" "d \<noteq> []" "length t = 2"
    and "drop (length h) (slice st en buf) @ pend = d @ t @ wire cs (lh @ extra)"
    and "length h + length d + 2 < usize_mod" "rd + length d < usize_mod"
proof -
  have stream: "slice st en buf @ pend = h @ d @ t @ wire cs (lh @ extra)" using assms(1) by (simp add: heading_def)
  have ok: "chunk_head pcs h (length d)" using assms(2) by simp
  have split: "slice st en buf = h @ drop (length h) (slice st en buf)"
    "drop (length h) (slice st en buf) @ pend = d @ t @ wire cs (lh @ extra)"
    using append_split_take [of "slice st en buf" pend h] stream assms(3) by simp_all
  from split(1) show "pcs (slice st en buf) = ChunkComplete (length h) (length d)" using ok unfolding chunk_head_def by metis
  from split(2) show "drop (length h) (slice st en buf) @ pend = d @ t @ wire cs (lh @ extra)" .
  show "0 < length h" using ok by (simp add: chunk_head_def)
  show "length h + length d + 2 < usize_mod" "rd + length d < usize_mod" "d \<noteq> []" "length t = 2"
    using assms(1,2) by (auto simp: heading_def)
qed

lemma parse_chunk_fits:
  assumes "heading ((h, d, t) # cs) lh extra rd st en buf r pend" "chunk_ok pcs (h, d, t)" "length h \<le> length (slice st en buf)"
    and "length (slice st en buf) \<le> length h + length d + 2"
  shows "decoded ((h, d, t) # cs) lh extra [] rd (en - st) pend (fst (parse_chunked_buf pcs st en r)) (snd (parse_chunked_buf pcs st en r))"
proof -
  note r = assms(1) [unfolded heading_def] and head = complete_head [OF assms(1-3)] and lenB = heading_length [OF assms(1)]
  have bounds: "st < en" "en \<le> length buf" using r by simp_all
  define m where "m = length (slice st en buf) - length h"
  define n where "n = min (length d) m"
  have split: "take (length d) (drop (length h) (slice st en buf)) = take m d"
      "pend = drop m d @ drop (m - length d) t @ wire cs (lh @ extra)"
    using split_payload [OF _ head(5)] assms(4) head(4) by (simp_all add: m_def)
  define r' where
    "r' = r\<lparr>read_state := RChunked (rd + n) 0 0 (length (drop m d) + length (drop (m - length d) t))\<rparr>"
  have parse: "parse_chunked_buf pcs st en r = (Ok (Some (offset_new (st + length h) n)), r')"
    using r head assms(3,4) lenB
    by (auto simp: parse_chunked_buf_def get_slice_def r'_def n_def m_def Let_def simp del: offset_new.simps)
  have "take n (drop (length h) (slice st en buf)) = take n d"
    using arg_cong [OF split(1), of "take n"] by (simp add: n_def min.commute min.left_commute)
  moreover have "n \<le> en - st - length h" by (simp add: n_def m_def lenB)
  then have le: "st + length h + n \<le> en" "st + length h + n \<le> length buf" using bounds assms(3) lenB by linarith+
  ultimately have "slice (st + length h) (st + length h + n) buf = take n d"
    by (simp only: drop_slice take_slice [OF le(1)])
  then have bs: "get_sliced_body (offset_new (st + length h) n) r' = Ok (take n d)"
    using r le(2) offset_new_get(1) [of "st + length h" n buf] by (simp add: get_sliced_body_def r'_def del: offset_new.simps)
  have "drop m d = [] \<or> m - length d = 0" by auto
  then have dec: "decoding cs lh extra (drop m d) (rd + n) r' pend" "length (unread r') = 0"
    using decoding_payload [of r' buf "rd + n" "drop m d" "drop (m - length d) t" pend cs lh extra] r split(2) head(4)
    by (auto simp: r'_def)
  have "take n d @ drop m d = d" by (cases "m \<le> length d") (auto simp: n_def)
  then show ?thesis
    using parse bs dec r
    by (auto simp: decoded_def n_def simp del: offset_new.simps intro!: exI [of _ "drop m d"] exI [of _ cs])
qed

lemma parse_chunk_more:
  assumes "heading ((h, d, t) # cs) lh extra rd st en buf r pend" "chunk_ok pcs (h, d, t)" "length h \<le> length (slice st en buf)"
    and more: "length h + length d + 2 < length (slice st en buf)"
  shows "decoded ((h, d, t) # cs) lh extra [] rd (en - st) pend (fst (parse_chunked_buf pcs st en r)) (snd (parse_chunked_buf pcs st en r))"
proof -
  note r = assms(1) [unfolded heading_def] and head = complete_head [OF assms(1-3)] and lenB = heading_length [OF assms(1)]
  have bounds: "st < en" "en \<le> length buf" using r by simp_all
  define st' where "st' = st + (length h + length d + 2)"
  define r' where "r' = r\<lparr>read_state := RChunked (rd + length d) st' en 0\<rparr>"
  have parse: "parse_chunked_buf pcs st en r = (Ok (Some (offset_new (st + length h) (length d))), r')"
    using r head more lenB by (auto simp: parse_chunked_buf_def get_slice_def r'_def st'_def Let_def simp del: offset_new.simps)
  have "slice st en buf @ pend = (h @ d @ t) @ wire cs (lh @ extra)" using r by simp
  from append_split_take(2) [OF this] more head(4)
  have rest: "slice st' en buf @ pend = wire cs (lh @ extra)" by (simp add: drop_slice st'_def add.assoc)
  have "take (length d) (drop (length h) (slice st en buf)) = d"
    using arg_cong [OF head(5), of "take (length d)"] more by simp
  moreover have le: "st + length h + length d \<le> en" "st + length h + length d \<le> length buf" using bounds more lenB by linarith+
  ultimately have "slice (st + length h) (st + length h + length d) buf = d"
    by (simp only: drop_slice take_slice [OF le(1)])
  then have bs: "get_sliced_body (offset_new (st + length h) (length d)) r' = Ok d"
    using r le(2) offset_new_get(1) [of "st + length h" "length d" buf]
    by (simp add: get_sliced_body_def r'_def del: offset_new.simps)
  have "decoding cs lh extra [] (rd + length d) r' pend" "length (unread r') = en - st'"
    using decoding_mid [of r' buf "rd + length d" st' en pend cs lh extra] r rest more lenB by (auto simp: r'_def st'_def)
  then show ?thesis
    using parse bs more lenB
    by (auto simp: decoded_def st'_def simp del: offset_new.simps intro!: exI [of _ "[]"] exI [of _ cs])
qed

lemma parse_chunked_buf_decodes:
  assumes pcs: "chunk_head pcs lh 0" "\<forall>c\<in>set cs. chunk_ok pcs c" and r: "heading cs lh extra rd st en buf r pend"
  shows "decoded cs lh extra [] rd (en - st) pend (fst (parse_chunked_buf pcs st en r)) (snd (parse_chunked_buf pcs st en r))"
proof (cases "length (slice st en buf) < length (next_head cs lh)")
  case True
  then show ?thesis by (rule parse_partial_head [OF pcs r])
next
  case complete: False
  show ?thesis
  proof (cases cs)
    case Nil
    then have "slice st en buf = lh @ drop (length lh) (slice st en buf)"
      using append_split_take [of "slice st en buf" pend lh extra] r complete by (simp add: heading_def)
    with pcs(1) have "pcs (slice st en buf) = ChunkComplete (length lh) 0" unfolding chunk_head_def by metis
    with r Nil show ?thesis by (auto simp: parse_chunked_buf_def get_slice_def decoded_def heading_def)
  next
    case (Cons c cs')
    obtain h d t where c: "c = (h, d, t)" by (cases c)
    note chunk = parse_chunk_fits parse_chunk_more
    show ?thesis
      using chunk [of h d t cs' lh extra rd st en buf r pend pcs] r pcs(2) complete unfolding Cons c
      by (cases "length (slice st en buf) \<le> length h + length d + 2") simp_all
  qed
qed

text \<open>The first bytes of the buffer are data of the current chunk.\<close>

lemma get_payload:
  assumes "body_buffer r = Some buf" "length buf < usize_mod" "en \<le> length buf" "take en buf @ pend = d @ rest" "k \<le> en" "k \<le> length d"
  shows "get_sliced_body (offset_new 0 k) (r\<lparr>read_state := q\<rparr>) = Ok (take k d)"
proof -
  have "take k (take en buf) = take k d" using arg_cong [OF assms(4), of "take k"] assms(3,5,6) by simp
  then show ?thesis
    using assms offset_new_get(1) [of 0 k buf] by (simp add: get_sliced_body_def slice_0 min_def del: offset_new.simps)
qed

text \<open>The data of the chunk goes on, its end is within reach, or there is more behind it.\<close>

lemma payload_goes_on:
  assumes r: "body_buffer r = Some buf" "partial_chunk_head_limit < length buf" "length buf < usize_mod"
      "rewind_buf_size r = 0" "read_state r = RChunked rd 0 en x" "0 < en" "en \<le> length buf"
    and stream: "take en buf @ pend = d @ t @ wire cs (lh @ extra)"
    and d: "d \<noteq> []" "length t = 2" "en \<le> length d" and small: "rd + length d < usize_mod"
  shows "decoded cs lh extra d rd en pend (fst (chunked_payload en (length d + length t) r)) (snd (chunked_payload en (length d + length t) r))"
proof -
  define r' where "r' = r\<lparr>read_state := RChunked (rd + en) 0 0 (length (drop en d) + length t)\<rparr>"
  have "chunked_payload en (length d + length t) r = (Ok (Some (offset_new 0 en)), r')"
    using r(5) d small by (simp add: chunked_payload_def r'_def del: offset_new.simps)
  moreover have "pend = drop en d @ t @ wire cs (lh @ extra)" using arg_cong [OF stream, of "drop en"] r(7) d by simp
  then have "decoding cs lh extra (drop en d) (rd + en) r' pend" "length (unread r') = 0"
    using decoding_payload [of r' buf "rd + en" "drop en d" t pend cs lh extra] r d by (auto simp: r'_def)
  ultimately show ?thesis
    using get_payload [OF r(1,3,7) stream, of en] d r(6)
    by (auto simp: decoded_def r'_def simp del: offset_new.simps intro!: exI [of _ "drop en d"] exI [of _ cs])
qed

lemma payload_ends:
  assumes r: "body_buffer r = Some buf" "partial_chunk_head_limit < length buf" "length buf < usize_mod"
      "rewind_buf_size r = 0" "read_state r = RChunked rd 0 en x" "0 < en" "en \<le> length buf"
    and stream: "take en buf @ pend = d @ t @ wire cs (lh @ extra)"
    and t: "0 < length d + length t" "length t \<le> 2" "d \<noteq> [] \<Longrightarrow> length t = 2"
    and few: "length d + length t < en + 2" and small: "rd + length d < usize_mod"
  shows "decoded cs lh extra d rd en pend (fst (chunked_payload en (length d + length t) r)) (snd (chunked_payload en (length d + length t) r))"
proof -
  let ?ex = "length d + length t"
  have size: "(if 2 < ?ex then ?ex - 2 else 0) = length d" and dlen: "length d \<le> en" using few t by (cases "d = []"; auto)+
  have bs: "get_sliced_body (offset_new 0 (length d)) (r\<lparr>read_state := q\<rparr>) = Ok d" for q
    using get_payload [OF r(1,3,7) stream, of "length d"] dlen by simp
  define q where "q = (if en \<le> ?ex then RChunked (rd + length d) 0 0 (length ([] :: bytes) + length (drop (en - length d) t))
                       else RChunked (rd + length d) ?ex en 0)"
  have res: "chunked_payload en ?ex r = (Ok (Some (offset_new 0 (length d))), r\<lparr>read_state := q\<rparr>)"
    using few r(5) size small dlen by (auto simp: chunked_payload_def q_def Let_def simp del: offset_new.simps)
  have "decoding cs lh extra [] (rd + length d) (r\<lparr>read_state := q\<rparr>) pend \<and> length (unread (r\<lparr>read_state := q\<rparr>)) < en"
  proof (cases "en \<le> ?ex")
    case True
    have "pend = [] @ drop (en - length d) t @ wire cs (lh @ extra)"
      using arg_cong [OF stream, of "drop en"] r(7) True dlen by simp
    then show ?thesis
      using decoding_payload [of "r\<lparr>read_state := q\<rparr>" buf "rd + length d" "[]" "drop (en - length d) t" pend cs lh extra] r t(2) True
      by (auto simp: q_def)
  next
    case False
    have "slice ?ex en buf @ pend = wire cs (lh @ extra)"
      using append_split_take(2) [of "take en buf" pend "d @ t" "wire cs (lh @ extra)"] stream r(7) False
      by (simp add: slice_def drop_take)
    then show ?thesis
      using decoding_mid [of "r\<lparr>read_state := q\<rparr>" buf "rd + length d" ?ex en pend cs lh extra] r t(1) False by (auto simp: q_def)
  qed
  with res show ?thesis
    using bs by (auto simp: decoded_def simp del: offset_new.simps intro!: exI [of _ "[]"] exI [of _ cs])
qed

lemma chunked_payload_decodes:
  assumes r: "body_buffer r = Some buf" "partial_chunk_head_limit < length buf" "length buf < usize_mod"
      "rewind_buf_size r = 0" "read_state r = RChunked rd 0 en x" "0 < en" "en \<le> length buf"
    and stream: "take en buf @ pend = d @ t @ wire cs (lh @ extra)"
    and t: "0 < length d + length t" "length t \<le> 2" "d \<noteq> [] \<Longrightarrow> length t = 2"
    and small: "rd + length d < usize_mod"
  shows "decoded cs lh extra d rd en pend (fst (chunked_payload en (length d + length t) r))
           (snd (chunked_payload en (length d + length t) r))"
proof (cases "en + 2 \<le> length d + length t")
  case True
  then have "d \<noteq> []" "length t = 2" "en \<le> length d" using t r(6) by (cases "d = []"; auto)+
  with r stream small show ?thesis by (intro payload_goes_on)
next
  case False
  then show ?thesis by (intro payload_ends [OF r stream t _ small]) simp_all
qed

text \<open>After \<open>chunked_fill\<close> there are bytes to work on, and work has been done to get them.\<close>

definition filled ::
  "wire_chunk list \<Rightarrow> bytes \<Rightarrow> bytes \<Rightarrow> nat \<Rightarrow> bytes \<Rightarrow> nat \<Rightarrow> nat \<Rightarrow> nat \<Rightarrow> body_reader \<Rightarrow> bytes \<Rightarrow> bool" where
  "filled cs tail d rd t st en ex r pend \<longleftrightarrow>
     (\<exists>buf.
        body_buffer r = Some buf \<and> partial_chunk_head_limit < length buf \<and> length buf < usize_mod \<and>
        rewind_buf_size r = 0 \<and> read_state r = RChunked rd st en 0 \<and> st < en \<and> en \<le> length buf \<and>
        slice st en buf @ pend = d @ t @ wire cs tail \<and> ex = length d + length t \<and>
        length t \<le> 2 \<and> (d \<noteq> [] \<longrightarrow> length t = 2) \<and> (0 < ex \<longrightarrow> st = 0))"

lemma read_or_rewind_fills:
  assumes "delivers io pending" "decoding cs lh extra d rd r (pending s)"
    "read_state r = RChunked rd 0 0 ex" "lh \<noteq> []"
  obtains n r' s' t where "read_or_rewind io r s = (Ok n, r', s')" "0 < n"
    "read_state r' = RChunked rd 0 0 ex"
    "filled cs (lh @ extra) d rd t 0 n ex (r'\<lparr>read_state := RChunked rd 0 n 0\<rparr>) (pending s')"
    "n + 2 * length (pending s') < work r (pending s)"
proof -
  have "\<exists>buf t. body_buffer r = Some buf \<and> partial_chunk_head_limit < length buf \<and>
      length buf < usize_mod \<and> rewind_buf_size r \<le> length buf \<and>
      take (rewind_buf_size r) buf @ pending s = d @ t @ wire cs (lh @ extra) \<and>
      ex = length d + length t \<and> length t \<le> 2 \<and> (d \<noteq> [] \<longrightarrow> length t = 2)"
    using assms(2,3) unfolding decoding_def unread_def by fastforce
  then obtain buf t where r: "body_buffer r = Some buf" "partial_chunk_head_limit < length buf"
      "length buf < usize_mod" "rewind_buf_size r \<le> length buf"
      "take (rewind_buf_size r) buf @ pending s = d @ t @ wire cs (lh @ extra)"
      "ex = length d + length t" "length t \<le> 2" "d \<noteq> [] \<longrightarrow> length t = 2"
    by blast
  have nonempty: "d @ t @ wire cs (lh @ extra) \<noteq> []"
    using wire_nonempty [OF assms(4)] by simp
  show ?thesis
  proof (cases "rewind_buf_size r = 0")
    case True
    have "0 < length buf" using r(2) by linarith
    then obtain bs s' where io: "io_read io (length buf) s = (Inr bs, s')" "length bs \<le> length buf"
        "pending s = bs @ pending s'" "bs = [] \<Longrightarrow> pending s = []"
      using deliversE [OF assms(1)] by metis
    have "bs \<noteq> []" using io(4) r(5) nonempty True by auto
    then show ?thesis
      using that [of "length bs" "r\<lparr>rewind_buf_size := 0, body_buffer := Some (splice 0 bs buf)\<rparr>" s' t]
        io r True assms(3) take_splice [of 0 buf bs]
      by (auto simp: read_or_rewind_def filled_def work_def unread_def slice_0)
  next
    case False
    then show ?thesis
      using that [of "rewind_buf_size r" "r\<lparr>rewind_buf_size := 0\<rparr>" s t] r assms(3)
      by (auto simp: read_or_rewind_def filled_def work_def unread_def slice_0)
  qed
qed

text \<open>A chunk head cut by the end of the buffer is moved to its front before more is read behind it.\<close>

lemma chunked_fill_shifts:
  assumes "delivers io pending" "decoding cs lh extra d rd r (pending s)"
    "chunk_head pcs lh 0" "\<forall>c\<in>set cs. chunk_ok pcs c"
    and st: "read_state r = RChunked rd 0 en0 ex0" and en0: "en0 \<noteq> 0"
  obtains en r' s' where "chunked_fill io r s = (Ok (en, 0), r', s')"
    "filled cs (lh @ extra) d rd [] 0 en 0 r' (pending s')"
    "en + 2 * length (pending s') < work r (pending s)"
proof -
  from assms(2) st en0 obtain buf where r: "body_buffer r = Some buf"
      "partial_chunk_head_limit < length buf" "length buf < usize_mod" "rewind_buf_size r = 0"
      "d = []" "en0 \<le> length buf" "0 < ex0" "ex0 \<le> en0"
      "slice (en0 - ex0) en0 buf @ pending s = wire cs (lh @ extra)"
      "strict_prefix (slice (en0 - ex0) en0 buf) (next_head cs lh)"
    by (auto simp: decoding_def unread_def)
  define moved where "moved = slice (en0 - ex0) en0 buf @ drop ex0 buf"
  have shift: "chunked_shift r = (Ok (), r\<lparr>body_buffer := Some moved\<rparr>)"
    using r st by (simp add: chunked_shift_def copy_within_def moved_def)
  have lens: "length moved = length buf" "take ex0 moved = slice (en0 - ex0) en0 buf"
    using r(6,8) by (simp_all add: moved_def)
  have "ex0 < length (next_head cs lh)" using prefix_length_less [OF r(10)] r(6,8) by simp
  then have ex0: "ex0 < partial_chunk_head_limit" using wire_bound [OF assms(3,4)] by simp
  have "0 < length moved - ex0" using ex0 r(2) lens(1) by linarith
  then obtain bs s' where io: "io_read io (length moved - ex0) s = (Inr bs, s')"
      "length bs \<le> length moved - ex0" "pending s = bs @ pending s'" "bs = [] \<Longrightarrow> pending s = []"
    using deliversE [OF assms(1)] by metis
  obtain rest where "wire cs (lh @ extra) = next_head cs lh @ rest" using wire_next_head by blast
  then have "pending s \<noteq> []" using r(9,10) prefix_length_less [OF r(10)] by auto
  then have bs: "bs \<noteq> []" using io(4) by blast
  define r' where "r' = r\<lparr>body_buffer := Some (splice ex0 bs moved), read_state := RChunked rd 0 (ex0 + length bs) 0\<rparr>"
  have "chunked_fill io r s = (Ok (ex0 + length bs, 0), r', s')"
    using en0 st shift io(1) ex0 r(2) lens(1) by (simp add: chunked_fill_def r'_def)
  moreover have "filled cs (lh @ extra) d rd [] 0 (ex0 + length bs) 0 r' (pending s')"
    using r lens io(2,3) ex0 bs take_splice [of ex0 moved bs] by (simp add: filled_def r'_def slice_0)
  moreover have "ex0 + length bs + 2 * length (pending s') < work r (pending s)"
    using r st io(3) bs en0 by (simp add: work_def unread_def)
  ultimately show ?thesis by (rule that)
qed

lemma chunked_fill_fills:
  assumes "delivers io pending" "decoding cs lh extra d rd r (pending s)" "lh \<noteq> []"
    "chunk_head pcs lh 0" "\<forall>c\<in>set cs. chunk_ok pcs c"
    and st: "read_state r = RChunked rd st en0 ex0"
  obtains en ex r' s' t where "chunked_fill io r s = (Ok (en, ex), r', s')"
    "filled cs (lh @ extra) d rd t st en ex r' (pending s')"
    "en - st + 2 * length (pending s') < work r (pending s)"
proof -
  consider "st \<noteq> 0" | "st = 0" "en0 = 0" | "st = 0" "en0 \<noteq> 0" by blast
  then show ?thesis
  proof cases
    case 1
    then show ?thesis
      using that [of en0 ex0 r s "[]"] assms(2) st
      by (auto simp: chunked_fill_def filled_def decoding_def work_def unread_def)
  next
    case 2
    with read_or_rewind_fills [OF assms(1,2) _ assms(3)] st
    obtain n r' s' t where "read_or_rewind io r s = (Ok n, r', s')" "0 < n"
      "read_state r' = RChunked rd 0 0 ex0"
      "filled cs (lh @ extra) d rd t 0 n ex0 (r'\<lparr>read_state := RChunked rd 0 n 0\<rparr>) (pending s')"
      "n + 2 * length (pending s') < work r (pending s)"
      by metis
    with 2 st that [of n ex0 "r'\<lparr>read_state := RChunked rd 0 n 0\<rparr>" s' t] show ?thesis
      by (auto simp: chunked_fill_def)
  next
    case 3
    have "read_state r = RChunked rd 0 en0 ex0" using st 3(1) by simp
    from chunked_fill_shifts [OF assms(1,2,4,5) this 3(2)] obtain en r' s' where
      "chunked_fill io r s = (Ok (en, 0), r', s')" "filled cs (lh @ extra) d rd [] 0 en 0 r' (pending s')"
      "en + 2 * length (pending s') < work r (pending s)" .
    with that [of en 0 r' s' "[]"] 3(1) show ?thesis by simp
  qed
qed

lemma work_decoded:
  assumes "decoded cs lh extra d rd n pend (Ok (Some off)) r'" "n + 2 * length pend < w"
  shows "work r' pend < w"
  using assms by (cases "in_head (read_state r')") (auto simp: decoded_def work_def)

lemma read_chunked_decodes:
  assumes "delivers io pending" "decoding cs lh extra d rd r (pending s)"
    and pcs: "chunk_head pcs lh 0" "\<forall>c\<in>set cs. chunk_ok pcs c"
    and small: "rd + length d + length (wire cs (lh @ extra)) < usize_mod"
  obtains res r' s' n where "read_body pcs io r s = (res, r', s')"
    "decoded cs lh extra d rd n (pending s') res r'" "n + 2 * length (pending s') < work r (pending s)"
proof -
  obtain st en0 ex0 where state: "read_state r = RChunked rd st en0 ex0"
    using assms(2) unfolding decoding_def by blast
  have lh: "lh \<noteq> []" using pcs(1) by (simp add: chunk_head_def)
  obtain en ex r1 s' t where fill: "chunked_fill io r s = (Ok (en, ex), r1, s')"
      "filled cs (lh @ extra) d rd t st en ex r1 (pending s')"
      "en - st + 2 * length (pending s') < work r (pending s)"
    by (rule chunked_fill_fills [OF assms(1,2) lh pcs state])
  obtain buf where r1: "body_buffer r1 = Some buf" "partial_chunk_head_limit < length buf"
      "length buf < usize_mod" "rewind_buf_size r1 = 0" "read_state r1 = RChunked rd st en 0"
      "st < en" "en \<le> length buf" "slice st en buf @ pending s' = d @ t @ wire cs (lh @ extra)"
      "ex = length d + length t" "length t \<le> 2" "d \<noteq> [] \<longrightarrow> length t = 2" "0 < ex \<longrightarrow> st = 0"
    using fill(2) unfolding filled_def by blast
  show ?thesis
  proof (cases "0 < ex")
    case True
    obtain res r' where p: "chunked_payload en ex r1 = (res, r')" by fastforce
    have "decoded cs lh extra d rd en (pending s') res r'"
      using chunked_payload_decodes [of r1 buf rd en 0 "pending s'" d t cs lh extra] r1 True small p
      by (simp add: slice_0)
    moreover have "read_body pcs io r s = (res, r', s')"
      using state fill(1) r1(6) True p by (simp add: read_body_def read_chunked_def)
    ultimately show ?thesis
      using that fill(3) r1(12) True by simp
  next
    case False
    obtain res r' where p: "parse_chunked_buf pcs st en r1 = (res, r')" by fastforce
    have nil: "d = []" "t = []" using False r1(9) by auto
    moreover from this have "heading cs lh extra rd st en buf r1 (pending s')" using r1 small by (simp add: heading_def)
    ultimately have "decoded cs lh extra d rd (en - st) (pending s') res r'"
      using parse_chunked_buf_decodes [OF pcs] p by fastforce
    moreover have "read_body pcs io r s = (res, r', s')"
      using state fill(1) r1(6) False p by (simp add: read_body_def read_chunked_def)
    ultimately show ?thesis
      using that fill(3) by simp
  qed
qed

section \<open>The chunked mode is a body source\<close>

definition chunked_rep ::
  "(bytes \<Rightarrow> chunk_status) \<Rightarrow> 's io \<Rightarrow> ('s \<Rightarrow> bytes) \<Rightarrow> bytes \<Rightarrow> bytes \<Rightarrow> nat \<Rightarrow> bytes \<Rightarrow> body_reader \<Rightarrow> 's \<Rightarrow> bool" where
  "chunked_rep pcs io pending lh extra n c r s \<longleftrightarrow>
     delivers io pending \<and> chunk_head pcs lh 0 \<and>
     (\<exists>cs d. decoding cs lh extra d n r (pending s) \<and> (\<forall>x\<in>set cs. chunk_ok pcs x) \<and>
        c = d @ payload cs \<and> n + length d + length (wire cs (lh @ extra)) < usize_mod)"

lemma chunked_progress:
  assumes "chunked_rep pcs io pending lh extra n c r s"
  shows "(\<exists>r' s'. read_piece pcs io r s = (Ok None, r', s') \<and> c = [] \<and> read_state r' = RCompleted n) \<or>
    (\<exists>bs c' r' s'. read_piece pcs io r s = (Ok (Some bs), r', s') \<and> c = bs @ c' \<and>
       chunked_rep pcs io pending lh extra (n + length bs) c' r' s' \<and>
       work r' (pending s') < work r (pending s))"
proof -
  obtain cs d where a: "delivers io pending" "chunk_head pcs lh 0"
      "decoding cs lh extra d n r (pending s)" "\<forall>x\<in>set cs. chunk_ok pcs x" "c = d @ payload cs"
      "n + length d + length (wire cs (lh @ extra)) < usize_mod"
    using assms unfolding chunked_rep_def by blast
  obtain res r' s' m where step: "read_body pcs io r s = (res, r', s')"
    "decoded cs lh extra d n m (pending s') res r'" "m + 2 * length (pending s') < work r (pending s)"
    by (rule read_chunked_decodes [OF a(1,3,2,4,6)])
  show ?thesis
  proof (cases "res = Ok None")
    case True
    with step a(5) show ?thesis by (simp add: decoded_def read_piece_def)
  next
    case False
    with step(2) obtain off where res: "res = Ok (Some off)"
      by (auto simp: decoded_def split: outcome.splits option.splits)
    with step(2) obtain bs d' cs' where got: "get_sliced_body off r' = Ok bs"
        "decoding cs' lh extra d' (n + length bs) r' (pending s')" "set cs' \<subseteq> set cs"
        "d @ payload cs = bs @ d' @ payload cs'"
        "length bs + length d' + length (wire cs' (lh @ extra)) \<le> length d + length (wire cs (lh @ extra))"
      by (auto simp: decoded_def)
    have "chunked_rep pcs io pending lh extra (n + length bs) (d' @ payload cs') r' s'"
      unfolding chunked_rep_def
    proof (intro conjI exI)
      show "n + length bs + length d' + length (wire cs' (lh @ extra)) < usize_mod"
        using got(5) a(6) by linarith
    qed (use a got in auto)
    moreover have "read_piece pcs io r s = (Ok (Some bs), r', s')"
      using step(1) res got(1) by (simp add: read_piece_def)
    ultimately show ?thesis
      using work_decoded [OF step(2)[unfolded res] step(3)] a(5) got(4) by metis
  qed
qed

interpretation chunked: body_source "read_piece pcs io" "chunked_rep pcs io pending lh extra"
  "\<lambda>r s. work r (pending s)" "\<lambda>n r. read_state r = RCompleted n"
  for pcs :: "bytes \<Rightarrow> chunk_status" and io :: "'s io" and pending lh extra
  by unfold_locales (rule chunked_progress)

lemma decoding_start:
  assumes "rewind @ pend = wire cs (lh @ extra)" "length rewind < usize_mod"
  shows "decoding cs lh extra [] 0 (with_chunked_read rewind body_reader_new) pend"
    and "work (with_chunked_read rewind body_reader_new) pend = length rewind + 2 * length pend + 1"
  using assms
  by (auto simp: decoding_def work_def unread_def with_chunked_read_def set_buffer_def
        body_reader_new_def body_buffer_size_def partial_chunk_head_limit_def usize_mod_def Let_def)

lemma read_all_chunked:
  assumes "delivers io pending" "chunk_head pcs lh 0" "\<forall>c\<in>set cs. chunk_ok pcs c"
    and "rewind @ pending s = wire cs (lh @ extra)" "length (wire cs (lh @ extra)) < usize_mod"
  shows "\<exists>bss r' s'. read_all pcs io (2 * length (wire cs (lh @ extra)) + 2)
             (with_chunked_read rewind body_reader_new) s = Some (Ok bss, r', s') \<and>
           concat bss = payload cs \<and> read_state r' = RCompleted (length (payload cs))"
proof -
  let ?r = "with_chunked_read rewind body_reader_new"
  have len: "length rewind + length (pending s) = length (wire cs (lh @ extra))"
    using arg_cong [OF assms(4), of length] by simp
  then have "length rewind < usize_mod" using assms(5) by simp
  note start = decoding_start [OF assms(4) this]
  have "chunked_rep pcs io pending lh extra 0 (payload cs) ?r s"
    unfolding chunked_rep_def
    by (intro conjI exI [where x = cs], (fact assms)+, rule exI [where x = "[]"])
      (simp add: start assms(3,5))
  moreover have "work ?r (pending s) < 2 * length (wire cs (lh @ extra)) + 2"
    using start(2) len by simp
  ultimately have "chunked_rep pcs io pending lh extra 0 (payload cs) ?r s"
    "work ?r (pending s) < 2 * length (wire cs (lh @ extra)) + 2" .
  from chunked.drain_delivers [OF this] show ?thesis by (simp add: read_all_def)
qed

section \<open>A concrete chunk-head parser\<close>

text \<open>
  The parser is a parameter; this instance, size lines of upper-case hexadecimal digits without
  extensions, shows that the law \<open>chunk_head\<close> can hold and is used by the witnesses only.
\<close>

definition hex_value :: "char \<Rightarrow> nat option" where
  "hex_value c =
     (if between 48 c 57 then Some (byte c - 48)
      else if between 65 c 70 then Some (byte c - 55) else None)"

fun hex_line :: "nat \<Rightarrow> nat \<Rightarrow> bytes \<Rightarrow> chunk_status" where
  "hex_line k n [] = ChunkPartial"
| "hex_line k n (c # cs) =
     (case hex_value c of
        Some v \<Rightarrow> hex_line (k + 1) (16 * n + v) cs
      | None \<Rightarrow>
          if c = CHR 0x0D
          then (case cs of
                  [] \<Rightarrow> ChunkPartial
                | d # ds \<Rightarrow> if d = CHR 0x0A then ChunkComplete (k + 2) n else ChunkInvalid ''lf'')
          else ChunkInvalid ''digit'')"

lemma hex_value_digit [simp]: "d < 16 \<Longrightarrow> hex_value (digit_char d) = Some d"
  by (simp add: hex_value_def digit_char_def between_def byte_def)

lemma hex_line_show:
  "hex_line k n (show_base 16 m @ rest) = hex_line (k + length (show_base 16 m)) (16 ^ length (show_base 16 m) * n + m) rest"
proof (induction "16 :: nat" m arbitrary: rest rule: show_base.induct)
  case (1 m)
  show ?case
  proof (cases "m < 16")
    case True
    then show ?thesis by (simp add: show_base.simps [of 16 m])
  next
    case False
    then have "hex_line k n (show_base 16 m @ rest)
        = hex_line k n (show_base 16 (m div 16) @ (digit_char (m mod 16) # rest))"
      by (simp add: show_base.simps [of 16 m])
    with 1 [of "digit_char (m mod 16) # rest"] False show ?thesis
      by (simp add: show_base.simps [of 16 m] algebra_simps)
  qed
qed

lemma hex_line_prefix:
  assumes "hex_line k n (h @ rest) = ChunkComplete (k + length h) m" "strict_prefix p h"
  shows "hex_line k n p = ChunkPartial"
  using assms
proof (induction k n p arbitrary: h rule: hex_line.induct)
  case (1 k n)
  show ?case by simp
next
  case (2 k n c cs)
  then obtain hs where h: "h = c # hs" "strict_prefix cs hs" by (cases h) auto
  show ?case
  proof (cases "hex_value c")
    case (Some v)
    with 2 h show ?thesis by simp
  next
    case None
    with 2(2) h show ?thesis
      by (cases cs; cases hs) (auto split: list.splits if_splits)
  qed
qed

lemma length_show_hex: "n < 16 ^ k \<Longrightarrow> 0 < k \<Longrightarrow> length (show_base 16 n) \<le> k"
proof (induction k arbitrary: n)
  case 0
  then show ?case by simp
next
  case (Suc k)
  show ?case
  proof (cases "n < 16")
    case True
    then show ?thesis by (simp add: show_base.simps [of 16 n])
  next
    case False
    then have "0 < k" using Suc.prems(1) by (cases k) auto
    moreover have "n div 16 < 16 ^ k" using Suc.prems(1) by (simp add: less_mult_imp_div_less mult.commute)
    ultimately have "length (show_base 16 (n div 16)) \<le> k" using Suc.IH by blast
    with False show ?thesis by (simp add: show_base.simps [of 16 n])
  qed
qed

lemma hex_line_head:
  assumes "n < usize_mod"
  shows "chunk_head (hex_line 0 0) (show_hex n @ [CHR 0x0D, CHR 0x0A]) n"
proof -
  have cr: "hex_value (CHR 0x0D) = None" by (simp add: hex_value_def between_def byte_def)
  have full: "hex_line 0 0 ((show_hex n @ [CHR 0x0D, CHR 0x0A]) @ rest)
      = ChunkComplete (0 + length (show_hex n @ [CHR 0x0D, CHR 0x0A])) n" for rest
    by (simp add: show_hex_def hex_line_show cr)
  have "length (show_hex n) \<le> 16"
    using length_show_hex [of n 16] assms by (simp add: show_hex_def usize_mod_def)
  then show ?thesis
    using full hex_line_prefix [OF full]
    by (auto simp: chunk_head_def partial_chunk_head_limit_def)
qed

end
