(* ===== verification/ReaderSafety.thy ===== *)
theory ReaderSafety
  imports ChunkedDecode
begin

text \<open>
  Safety of the body reader on arbitrary streams and arbitrary input: an invariant of its indices
  that every read keeps, so that no slice, \<open>copy_within\<close> or \<open>unwrap\<close> of reader.rs panics, and the
  inputs for which that guarantee ends.
\<close>

section \<open>The index invariant\<close>

fun indices_ok :: "nat \<Rightarrow> read_state \<Rightarrow> bool" where
  "indices_ok len (RChunked rd st en ex) \<longleftrightarrow>
     (st = 0 \<and> en = 0 \<or> 0 < st \<and> st < en \<and> en \<le> len \<and> ex = 0 \<or> st = 0 \<and> 0 < ex \<and> ex \<le> en \<and> en \<le> len)"
| "indices_ok len st \<longleftrightarrow> True"

definition reader_ok :: "body_reader \<Rightarrow> bool" where
  "reader_ok r \<longleftrightarrow>
     is_finished r \<or>
     read_state r \<noteq> RStart \<and>
     (\<exists>buf. body_buffer r = Some buf \<and> length buf < usize_mod \<and> rewind_buf_size r \<le> length buf \<and>
        indices_ok (length buf) (read_state r))"

text \<open>
  What is relied on of the parser: the head it recognises lies inside the bytes it was given. The size it answers may be
  any 64-bit number, as in the real one.
\<close>

definition heads_inside :: "(bytes \<Rightarrow> chunk_status) \<Rightarrow> bool" where
  "heads_inside pcs \<longleftrightarrow> (\<forall>b k n. pcs b = ChunkComplete k n \<longrightarrow> k \<le> length b)"

text \<open>
  A read that comes to parse a chunk head whose size makes the sums of \<open>parse_chunked_buf\<close> (head, payload, line end)
  wrap around; and whether one of the reads of a body does.
\<close>

definition oversized_chunk :: "(bytes \<Rightarrow> chunk_status) \<Rightarrow> 's io \<Rightarrow> body_reader \<Rightarrow> 's \<Rightarrow> bool" where
  "oversized_chunk pcs io r s \<longleftrightarrow>
     (case (read_state r, chunked_fill io r s) of
        (RChunked tot st a b, Ok (en, ex), r', s') \<Rightarrow>
          0 < en \<and> ex = 0 \<and>
          (case body_buffer r' of
             None \<Rightarrow> False
           | Some buf \<Rightarrow>
               (case pcs (slice st en buf) of ChunkComplete k n \<Rightarrow> usize_mod \<le> k + n + 2 | _ \<Rightarrow> False))
      | _ \<Rightarrow> False)"

fun meets_oversized :: "(bytes \<Rightarrow> chunk_status) \<Rightarrow> 's io \<Rightarrow> nat \<Rightarrow> body_reader \<Rightarrow> 's \<Rightarrow> bool" where
  "meets_oversized pcs io 0 r s \<longleftrightarrow> False"
| "meets_oversized pcs io (Suc fuel) r s \<longleftrightarrow>
     oversized_chunk pcs io r s \<or>
     (case read_piece pcs io r s of (Ok (Some bs), r', s') \<Rightarrow> meets_oversized pcs io fuel r' s' | _ \<Rightarrow> False)"

definition offset_in :: "offset option outcome \<Rightarrow> body_reader \<Rightarrow> bool" where
  "offset_in res r =
     (case res of
        Ok (Some off) \<Rightarrow> (\<exists>bs. get_sliced_body off r = Ok bs)
      | Ok None \<Rightarrow> True | Err e \<Rightarrow> True | Panic p \<Rightarrow> False)"

lemma offset_in_Some:
  assumes "body_buffer r = Some buf" "a + n \<le> length buf" "length buf < usize_mod"
  shows "offset_in (Ok (Some (offset_new a n))) r"
  using assms offset_new_get(1) [of a n buf]
  by (auto simp: offset_in_def get_sliced_body_def simp del: offset_new.simps)

lemma read_or_rewind_ok:
  assumes "io_contract io sent" "read_or_rewind io r s = (res, r', s')" "body_buffer r = Some buf"
    "rewind_buf_size r \<le> length buf"
  shows "read_state r' = read_state r \<and> rewind_buf_size r' \<le> length buf \<and>
    (\<exists>buf'. body_buffer r' = Some buf' \<and> length buf' = length buf) \<and>
    (case res of Ok n \<Rightarrow> n \<le> length buf | Err e \<Rightarrow> True | Panic p \<Rightarrow> False)"
proof (cases "rewind_buf_size r = 0")
  case True
  obtain x t where x: "io_read io (length buf) s = (x, t)" by fastforce
  show ?thesis
    using assms True x io_read_contract(2) [OF assms(1) x]
    by (auto simp: read_or_rewind_def Let_def split: sum.splits)
next
  case False
  with assms show ?thesis by (auto simp: read_or_rewind_def Let_def)
qed

lemma read_partially_ok:
  assumes "io_contract io sent" "reader_ok r" "read_state r = RPartial rd k"
    "read_partially io r s = (res, r', s')"
  shows "offset_in res r' \<and> reader_ok r'"
proof -
  obtain buf where buf: "body_buffer r = Some buf" "length buf < usize_mod" "rewind_buf_size r \<le> length buf"
    using assms(2,3) by (auto simp: reader_ok_def is_finished_def)
  obtain n r1 s1 where n: "read_or_rewind io r s = (n, r1, s1)" by (metis prod_cases3)
  note ok = read_or_rewind_ok [OF assms(1) n buf(1,3)]
  obtain buf1 where buf1: "body_buffer r1 = Some buf1" "length buf1 = length buf" using ok by blast
  show ?thesis
    using assms(3,4) n ok buf buf1 offset_in_Some [of r' buf1 0]
    by (auto simp: read_partially_def reader_ok_def is_finished_def offset_in_def
          simp del: offset_new.simps split: outcome.splits if_splits)
qed

lemma read_until_closed_ok:
  assumes "io_contract io sent" "reader_ok r" "read_state r = RHTTP10 rd"
    "read_until_closed io r s = (res, r', s')"
  shows "offset_in res r' \<and> reader_ok r'"
proof -
  obtain buf where buf: "body_buffer r = Some buf" "length buf < usize_mod" "rewind_buf_size r \<le> length buf"
    using assms(2,3) by (auto simp: reader_ok_def is_finished_def)
  obtain n r1 s1 where n: "read_or_rewind io r s = (n, r1, s1)" by (metis prod_cases3)
  note ok = read_or_rewind_ok [OF assms(1) n buf(1,3)]
  obtain buf1 where buf1: "body_buffer r1 = Some buf1" "length buf1 = length buf" using ok by blast
  show ?thesis
    using assms(3,4) n ok buf buf1 offset_in_Some [of r' buf1 0]
    by (auto simp: read_until_closed_def reader_ok_def is_finished_def offset_in_def
          simp del: offset_new.simps split: outcome.splits if_splits)
qed

lemma chunked_payload_ok:
  assumes "body_buffer r = Some buf" "length buf < usize_mod" "rewind_buf_size r \<le> length buf"
    "read_state r = RChunked rd st en x" "0 < en" "en \<le> length buf" "0 < ex"
    "chunked_payload en ex r = (res, r')"
  shows "offset_in res r' \<and> reader_ok r'"
  using assms offset_in_Some [of r' buf 0]
  by (auto simp: chunked_payload_def reader_ok_def is_finished_def Let_def
        simp del: offset_new.simps split: if_splits)

lemma parse_chunked_buf_ok:
  assumes "heads_inside pcs" "body_buffer r = Some buf" "length buf < usize_mod"
    "rewind_buf_size r \<le> length buf" "read_state r = RChunked rd st0 en x" "st < en" "en \<le> length buf"
    "x = 0" "parse_chunked_buf pcs st en r = (res, r')"
    "\<And>k n. pcs (slice st en buf) = ChunkComplete k n \<Longrightarrow> k + n + 2 < usize_mod"
  shows "offset_in res r' \<and> reader_ok r'"
proof (cases "pcs (slice st en buf)")
  case (ChunkComplete k n)
  then have "k \<le> en - st" "k + n + 2 < usize_mod"
    using assms(1,7,10) by (force simp: heads_inside_def)+
  with ChunkComplete assms offset_in_Some [of r' buf "st + k"] show ?thesis
    by (auto simp: parse_chunked_buf_def get_slice_def reader_ok_def is_finished_def offset_in_def Let_def
          simp del: offset_new.simps split: if_splits)
next
  case ChunkPartial
  with assms offset_in_Some [of r' buf 0 0] show ?thesis
    by (auto simp: parse_chunked_buf_def get_slice_def reader_ok_def is_finished_def offset_in_def
          simp del: offset_new.simps split: if_splits)
next
  case (ChunkInvalid e)
  with assms show ?thesis
    by (auto simp: parse_chunked_buf_def get_slice_def reader_ok_def is_finished_def offset_in_def)
qed

definition fill_ok :: "nat \<Rightarrow> (nat \<times> nat) outcome \<Rightarrow> body_reader \<Rightarrow> bool" where
  "fill_ok st res r \<longleftrightarrow>
     (case res of
        Ok (en, ex) \<Rightarrow>
          (\<exists>buf rd. body_buffer r = Some buf \<and> length buf < usize_mod \<and> rewind_buf_size r \<le> length buf \<and>
             read_state r = RChunked rd st en 0 \<and> en \<le> length buf \<and> (0 < ex \<longrightarrow> st = 0) \<and>
             (en = 0 \<or> st < en))
      | Err e \<Rightarrow> reader_ok r
      | Panic p \<Rightarrow> False)"

lemma chunked_fill_ok:
  assumes "io_contract io sent" "reader_ok r" "read_state r = RChunked rd st en0 ex0"
    "chunked_fill io r s = (res, r', s')"
  shows "fill_ok st res r'"
proof -
  obtain buf where buf: "body_buffer r = Some buf" "length buf < usize_mod"
      "rewind_buf_size r \<le> length buf" "indices_ok (length buf) (RChunked rd st en0 ex0)"
    using assms(2,3) by (auto simp: reader_ok_def is_finished_def)
  consider "st \<noteq> 0" | "st = 0" "en0 = 0" | "st = 0" "en0 \<noteq> 0" by blast
  then show ?thesis
  proof cases
    case 1
    with assms(3,4) buf show ?thesis by (auto simp: chunked_fill_def fill_ok_def)
  next
    case 2
    obtain n r1 s1 where n: "read_or_rewind io r s = (n, r1, s1)" by (metis prod_cases3)
    note ok = read_or_rewind_ok [OF assms(1) n buf(1,3)]
    with 2 assms(3,4) buf n show ?thesis
      by (auto simp: chunked_fill_def fill_ok_def reader_ok_def is_finished_def split: outcome.splits)
  next
    case 3
    define moved where "moved = slice (en0 - ex0) en0 buf @ drop ex0 buf"
    have bounds: "0 < ex0" "ex0 \<le> en0" "en0 \<le> length buf" using 3 buf(4) by auto
    then have len: "length moved = length buf" by (simp add: moved_def)
    have shift: "chunked_shift r = (Ok (), r\<lparr>body_buffer := Some moved\<rparr>)"
      using bounds buf assms(3) by (simp add: chunked_shift_def copy_within_def moved_def)
    obtain x t where x: "io_read io (length moved - ex0) s = (x, t)" by fastforce
    show ?thesis
    proof (cases x)
      case (Inl e)
      with 3 assms(3,4) buf shift x len bounds show ?thesis
        by (auto simp: chunked_fill_def fill_ok_def reader_ok_def is_finished_def)
    next
      case (Inr bs)
      then have "length bs \<le> length moved - ex0"
        using io_read_contract(2) [OF assms(1) x] by simp
      with Inr 3 assms(3,4) buf shift x len bounds show ?thesis
        by (auto simp: chunked_fill_def fill_ok_def)
    qed
  qed
qed

lemma read_chunked_ok:
  assumes "io_contract io sent" "heads_inside pcs" "reader_ok r" "read_state r = RChunked rd st en0 ex0"
    "read_chunked pcs io r s = (res, r', s')" "\<not> oversized_chunk pcs io r s"
  shows "offset_in res r' \<and> reader_ok r'"
proof -
  obtain f r1 s1 where f: "chunked_fill io r s = (f, r1, s1)" by (metis prod_cases3)
  note ok = chunked_fill_ok [OF assms(1,3,4) f]
  show ?thesis
  proof (cases f)
    case (Ok p)
    obtain en ex where p: "p = (en, ex)" by (cases p)
    with ok Ok obtain buf rd1 where r1: "body_buffer r1 = Some buf" "length buf < usize_mod"
        "rewind_buf_size r1 \<le> length buf" "read_state r1 = RChunked rd1 st en 0" "en \<le> length buf"
        "0 < ex \<longrightarrow> st = 0" "en = 0 \<or> st < en"
      by (auto simp: fill_ok_def)
    consider "en = 0" | "0 < en" "0 < ex" | "0 < en" "ex = 0" by auto
    then show ?thesis
    proof cases
      case 1
      with assms(4,5) f Ok p r1(4) show ?thesis
        by (auto simp: read_chunked_def offset_in_def reader_ok_def is_finished_def)
    next
      case 2
      with assms(4,5) f Ok p have "chunked_payload en ex r1 = (res, r')"
        by (auto simp: read_chunked_def split: prod.splits)
      with chunked_payload_ok [OF r1(1-4)] 2 r1(5) show ?thesis by blast
    next
      case 3
      with assms(4,5) f Ok p have "parse_chunked_buf pcs st en r1 = (res, r')"
        by (auto simp: read_chunked_def split: prod.splits)
      moreover have "k + n + 2 < usize_mod" if "pcs (slice st en buf) = ChunkComplete k n" for k n
        using assms(4,6) f Ok p r1(1) 3 that by (simp add: oversized_chunk_def)
      moreover have "st < en" using r1(7) 3 by simp
      ultimately show ?thesis using parse_chunked_buf_ok [OF assms(2) r1(1-4) _ r1(5) refl] by blast
    qed
  next
    case (Err e)
    with assms(4,5) f ok show ?thesis by (auto simp: read_chunked_def fill_ok_def offset_in_def)
  next
    case (Panic e)
    with ok show ?thesis by (simp add: fill_ok_def)
  qed
qed

lemma read_piece_ok:
  assumes "io_contract io sent" "heads_inside pcs" "reader_ok r" "read_piece pcs io r s = (p, r', s')"
    and "\<not> oversized_chunk pcs io r s"
  shows "\<not> is_panic p \<and> reader_ok r'"
proof -
  obtain res r1 s1 where b: "read_body pcs io r s = (res, r1, s1)" by (metis prod_cases3)
  have "offset_in res r1 \<and> reader_ok r1"
  proof (cases "read_state r")
    case RStart
    with assms(3) show ?thesis by (simp add: reader_ok_def is_finished_def)
  next
    case (RPartial rd k)
    with b read_partially_ok [OF assms(1,3) RPartial] show ?thesis by (simp add: read_body_def)
  next
    case (RChunked rd st en ex)
    with b read_chunked_ok [OF assms(1-3) RChunked _ assms(5)] show ?thesis by (simp add: read_body_def)
  next
    case (RHTTP10 rd)
    with b read_until_closed_ok [OF assms(1,3) RHTTP10] show ?thesis by (simp add: read_body_def)
  qed (use b assms(3) in \<open>auto simp: read_body_def offset_in_def\<close>)
  with b assms(4) show ?thesis
    by (auto simp: read_piece_def offset_in_def split: outcome.splits option.splits)
qed

lemma drain_ok:
  assumes "io_contract io sent" "heads_inside pcs" "reader_ok r"
    "read_all pcs io fuel r s = Some (p, r', s')" "\<not> meets_oversized pcs io fuel r s"
  shows "\<not> is_panic p \<and> reader_ok r'"
  using assms(3-5)
proof (induction fuel arbitrary: r s p r' s')
  case 0
  then show ?case by (simp add: read_all_def)
next
  case (Suc fuel)
  obtain q r1 s1 where q: "read_piece pcs io r s = (q, r1, s1)" by (metis prod_cases3)
  have "\<not> oversized_chunk pcs io r s" using Suc.prems(3) by simp
  note ok = read_piece_ok [OF assms(1,2) Suc.prems(1) q this]
  have "\<not> is_panic x \<and> reader_ok y"
    if "drain (read_piece pcs io) fuel r1 s1 = Some (x, y, z)" "q = Ok (Some bs)" for x y z bs
    using Suc.IH [of r1 s1 x y z] Suc.prems(3) q ok that by (simp add: read_all_def)
  with Suc.prems(2) q ok show ?case
    by (fastforce simp: read_all_def split: outcome.splits option.splits prod.splits)
qed

lemma reader_ok_modes:
  assumes "length rewind < usize_mod"
  shows "reader_ok (with_chunked_read rewind body_reader_new)"
    and "reader_ok (with_content_length_read n rewind body_reader_new)"
    and "reader_ok (with_until_closed_read rewind body_reader_new)"
  using assms
  by (auto simp: reader_ok_def is_finished_def with_chunked_read_def with_content_length_read_def
        with_until_closed_read_def set_buffer_def body_reader_new_def body_buffer_size_def
        usize_mod_def Let_def)

section \<open>A reader that has a mode keeps one\<close>

lemma rs_not_start [simp]:
  "rs_finish a q = RStart \<longleftrightarrow> q = RStart"
  "rs_done a q = RStart \<longleftrightarrow> q = RStart"
  "rs_partial_chunk a b q = RStart \<longleftrightarrow> q = RStart"
  "rs_multi_chunk a b q = RStart \<longleftrightarrow> q = RStart"
  "rs_partial_chunk_head a b q = RStart \<longleftrightarrow> q = RStart"
  "rs_new_buf a q = RStart \<longleftrightarrow> q = RStart"
  by (cases q; simp)+

lemma read_or_rewind_state: "read_or_rewind io r s = (res, r', s') \<Longrightarrow> read_state r' = read_state r"
  by (auto simp: read_or_rewind_def Let_def split: option.splits if_splits prod.splits sum.splits)

lemma chunked_shift_state: "chunked_shift r = (res, r') \<Longrightarrow> read_state r' = read_state r"
  by (auto simp: chunked_shift_def split: read_state.splits option.splits outcome.splits)

lemma chunked_fill_not_start:
  "chunked_fill io r s = (res, r', s') \<Longrightarrow> read_state r \<noteq> RStart \<Longrightarrow> read_state r' \<noteq> RStart"
  by (auto simp: chunked_fill_def
        split: read_state.splits option.splits outcome.splits prod.splits if_splits sum.splits
        dest: read_or_rewind_state chunked_shift_state)

lemma parse_chunked_buf_not_start:
  "parse_chunked_buf pcs a b r = (res, r') \<Longrightarrow> read_state r \<noteq> RStart \<Longrightarrow> read_state r' \<noteq> RStart"
  by (auto simp: parse_chunked_buf_def Let_def
        split: option.splits outcome.splits if_splits chunk_status.splits)

lemma chunked_payload_not_start:
  "chunked_payload a b r = (res, r') \<Longrightarrow> read_state r \<noteq> RStart \<Longrightarrow> read_state r' \<noteq> RStart"
  by (auto simp: chunked_payload_def Let_def split: if_splits)

lemma read_chunked_not_start:
  assumes "read_chunked pcs io r s = (res, r', s')" "read_state r \<noteq> RStart"
  shows "read_state r' \<noteq> RStart"
proof -
  obtain f r1 s1 where f: "chunked_fill io r s = (f, r1, s1)" by (metis prod_cases3)
  with assms(2) have "read_state r1 \<noteq> RStart" by (blast dest: chunked_fill_not_start)
  with assms f show ?thesis
    by (auto simp: read_chunked_def
          split: read_state.splits outcome.splits prod.splits if_splits
          dest: parse_chunked_buf_not_start chunked_payload_not_start)
qed

lemma read_body_not_start:
  assumes "read_body pcs io r s = (res, r', s')" "read_state r \<noteq> RStart"
  shows "read_state r' \<noteq> RStart"
proof (cases "read_state r")
  case (RPartial a b)
  obtain f r1 s1 where f: "read_or_rewind io r s = (f, r1, s1)" by (metis prod_cases3)
  with assms RPartial read_or_rewind_state [OF f] show ?thesis
    by (auto simp: read_body_def read_partially_def split: outcome.splits if_splits)
next
  case (RHTTP10 a)
  obtain f r1 s1 where f: "read_or_rewind io r s = (f, r1, s1)" by (metis prod_cases3)
  with assms RHTTP10 read_or_rewind_state [OF f] show ?thesis
    by (auto simp: read_body_def read_until_closed_def split: outcome.splits if_splits)
next
  case (RChunked a b c d)
  with assms show ?thesis by (auto simp: read_body_def dest: read_chunked_not_start)
qed (use assms in \<open>auto simp: read_body_def\<close>)

section \<open>Reads that never finish, and reads that are dropped\<close>

lemma stuck_head:
  assumes "body_buffer r = Some buf" "read_state r = RChunked rd 0 h h" "0 < h" "h \<le> length buf"
    "h \<le> partial_chunk_head_limit" "pcs (take h buf) = ChunkPartial"
    "\<And>k. io_read io k s = (Inr [], s)"
  shows "read_piece pcs io r s = (Ok (Some []), r, s)"
  using assms
  by (auto simp: read_piece_def read_body_def read_chunked_def chunked_fill_def chunked_shift_def
        copy_within_def slice_0 splice_def parse_chunked_buf_def get_slice_def get_sliced_body_def)

lemma hex_line_len: "hex_line k n b = ChunkComplete k' n' \<Longrightarrow> k' \<le> k + length b"
  by (induction k n b rule: hex_line.induct) (force split: option.splits if_splits list.splits)+

lemma hex_line_inside: "heads_inside (hex_line 0 0)"
  using hex_line_len [of 0 0] by (force simp: heads_inside_def)

lemma script_contract: "io_contract script_io tx"
  by (rule accepts_contract [OF script_accepts])

section \<open>Properties\<close>

text \<open>
  C9 (safety). Whatever the socket delivers and however a body is framed, reading it panics only on an oversized
  chunk: for every bound on the number of reads, a body read from any of the three initial modes with the
  bytes \<open>rewind\<close> left over from the headers ends in data, a clean end or an I/O error, with its indices in order,
  unless one of the reads has parsed a chunk head whose stated size wraps around the 64-bit sums of the code. No
  other input makes a slice, a \<open>copy_within\<close> or an \<open>unwrap\<close> of reader.rs panic.
\<close>

theorem reader_never_panics:
  assumes "io_contract io sent" "heads_inside pcs" "length rewind < usize_mod"
    and "r \<in> {with_chunked_read rewind body_reader_new, with_content_length_read n rewind body_reader_new,
              with_until_closed_read rewind body_reader_new}"
  shows "case read_all pcs io fuel r s of
     None \<Rightarrow> True | Some (res, r', s') \<Rightarrow> meets_oversized pcs io fuel r s \<or> \<not> is_panic res \<and> reader_ok r'"
proof -
  have "reader_ok r" using assms(3,4) reader_ok_modes by blast
  then show ?thesis
    using drain_ok [OF assms(1,2)] by (auto split: option.split)
qed

lemma reader_never_panics_witness:
  "case read_all (hex_line 0 0) script_io 5 (with_chunked_read ''zz'' body_reader_new)
          \<lparr>rx = [''garbage''], tx = []\<rparr> of
     None \<Rightarrow> True
   | Some (res, r', s') \<Rightarrow>
       meets_oversized (hex_line 0 0) script_io 5 (with_chunked_read ''zz'' body_reader_new) \<lparr>rx = [''garbage''], tx = []\<rparr> \<or>
       \<not> is_panic res \<and> reader_ok r'"
  by (rule reader_never_panics [OF script_contract hex_line_inside, where rewind = "''zz''" and n = 0])
    (simp_all add: usize_mod_def)

text \<open>
  The guarantee ends exactly where the code has its TODO: when the peer states
  a chunk size whose sum with the head's length passes \<open>usize::MAX\<close>, the wrapped offset makes
  the slice of the piece panic.
\<close>

theorem chunk_size_overflow_panics:
  assumes "pcs rewind = ChunkComplete k n" "rewind \<noteq> []" "k \<le> length rewind" "length rewind < usize_mod"
    and "n < usize_mod" "usize_mod \<le> k + n"
  shows "is_panic (fst (read_piece pcs io (with_chunked_read rewind body_reader_new) s))"
proof -
  have n: "n \<noteq> 0" using assms(3,4,6) by (cases n) auto
  have wrap: "uadd k n = k + n - usize_mod" "k + n - usize_mod < k"
    using assms(3-6) by (auto simp: uadd_def mod_if)
  obtain buf where buf: "body_buffer (with_chunked_read rewind body_reader_new) = Some buf"
      "take (length rewind) buf = rewind" "length rewind \<le> length buf"
    by (auto simp: with_chunked_read_def set_buffer_def body_reader_new_def Let_def)
  have "rewind_buf_size (with_chunked_read rewind body_reader_new) = length rewind"
      "read_state (with_chunked_read rewind body_reader_new) = RChunked 0 0 0 0"
    using assms(2) by (auto simp: with_chunked_read_def set_buffer_def Let_def)
  with assms buf n wrap show ?thesis
    by (auto simp: read_piece_def read_body_def read_chunked_def chunked_fill_def read_or_rewind_def
          parse_chunked_buf_def get_slice_def slice_0 Let_def get_sliced_body_def uadd_def [of 0])
qed

lemma chunk_size_overflow_panics_witness:
  "is_panic (fst (read_piece (hex_line 0 0) script_io
     (with_chunked_read (''FFFFFFFFFFFFFFFF'' @ [CHR 0x0D, CHR 0x0A]) body_reader_new)
     \<lparr>rx = [], tx = []\<rparr>))"
  by (rule chunk_size_overflow_panics [where k = 18 and n = 18446744073709551615])
    (simp_all add: hex_value_def between_def byte_def usize_mod_def)

text \<open>
  A peer that closes inside a chunk head is never noticed: the reader hands
  out an empty piece and stays in the same state for ever, so reading the body does not end for any
  number of reads.
\<close>

theorem truncated_head_never_ends:
  assumes "rewind \<noteq> []" "length rewind \<le> partial_chunk_head_limit" "pcs rewind = ChunkPartial"
    and "\<And>k. io_read io k s = (Inr [], s)"
  shows "read_all pcs io fuel (with_chunked_read rewind body_reader_new) s = None"
proof -
  define buf where "buf = the (body_buffer (with_chunked_read rewind body_reader_new))"
  define r1 where "r1 = (with_chunked_read rewind body_reader_new)
     \<lparr>rewind_buf_size := 0, read_state := RChunked 0 0 (length rewind) (length rewind)\<rparr>"
  have buf: "body_buffer (with_chunked_read rewind body_reader_new) = Some buf"
      "take (length rewind) buf = rewind" "length rewind \<le> length buf"
    by (auto simp: buf_def with_chunked_read_def set_buffer_def body_reader_new_def Let_def)
  moreover have "rewind_buf_size (with_chunked_read rewind body_reader_new) = length rewind"
      "read_state (with_chunked_read rewind body_reader_new) = RChunked 0 0 0 0"
    using assms(1) by (auto simp: with_chunked_read_def set_buffer_def Let_def)
  ultimately have first: "read_piece pcs io (with_chunked_read rewind body_reader_new) s
      = (Ok (Some []), r1, s)"
    using assms(1-3)
    by (auto simp: read_piece_def read_body_def read_chunked_def chunked_fill_def read_or_rewind_def
          parse_chunked_buf_def get_slice_def slice_0 Let_def get_sliced_body_def r1_def)
  have "read_piece pcs io r1 s = (Ok (Some []), r1, s)"
    using buf assms by (intro stuck_head [where buf = buf and h = "length rewind"]) (auto simp: r1_def)
  then have "drain (read_piece pcs io) f r1 s = None" for f
    by (induction f) auto
  with first show ?thesis by (cases fuel) (auto simp: read_all_def)
qed

lemma truncated_head_never_ends_witness:
  "read_all (hex_line 0 0) script_io 1000 (with_chunked_read ''1A'' body_reader_new) \<lparr>rx = [], tx = []\<rparr> = None"
  by (rule truncated_head_never_ends)
    (simp_all add: hex_value_def between_def byte_def partial_chunk_head_limit_def script_io_def)

text \<open>
  The reader moves a partial chunk head to the front of the buffer before
  it awaits the socket and only records the move afterwards. If the future is dropped at that await
  (the sessions race reads in \<open>tokio::select!\<close>), the next read takes as the head the tail of the old
  head followed by stale bytes, unless the old and the new place do not overlap.
\<close>

theorem dropped_read_shifts_head:
  assumes "body_buffer r = Some buf" "read_state r = RChunked rd 0 en ex" "0 < ex" "ex \<le> en" "en \<le> length buf"
  shows "unread (snd (chunked_shift r)) =
     (if en - ex < ex then drop (en - ex) (unread r) @ slice ex en buf else unread r)"
proof -
  have "fst (chunked_shift r) = Ok ()" using assms by (simp add: chunked_shift_def copy_within_def)
  have u: "unread r = slice (en - ex) en buf" using assms by (simp add: unread_def)
  have len: "length (unread r) = ex" using u assms by simp
  have moved: "unread (snd (chunked_shift r)) = slice (en - ex) en (unread r @ drop ex buf)"
    using assms u by (simp add: chunked_shift_def copy_within_def unread_def)
  show ?thesis
    using moved u len assms by (auto simp: slice_def drop_take)
qed

lemma dropped_read_shifts_head_witness:
  "unread (snd (chunked_shift
      \<lparr>read_state = RChunked 0 0 5 4, body_buffer = Some ''x1A2B'', body_size = 5, rewind_buf_size = 0\<rparr>))
     = ''A2BB''"
  using dropped_read_shifts_head [of "\<lparr>read_state = RChunked 0 0 5 4, body_buffer = Some ''x1A2B'',
      body_size = 5, rewind_buf_size = 0\<rparr>" "''x1A2B''" 0 5 4]
  by (simp add: unread_def slice_def)

end
