(* ===== verification/BodyWriter.thy ===== *)
theory BodyWriter
  imports StreamIo
begin

text \<open>
  The body writer (core/src/session/writer.rs): a state machine that writes an HTTP/1.x message body
  with a content length, in chunked encoding, or until the connection closes. The operations take
  the stream's record \<open>io\<close> and return the result, the writer and the stream.
\<close>

section \<open>Writer state and operations (writer.rs)\<close>

datatype write_state =
    WStart
  | WCompleted nat
  | WContentLength nat nat
  | WChunkedEncoding nat
  | WHTTP10 nat

record body_writer =
  write_state :: write_state

definition last_chunk :: bytes where
  "last_chunk = ''0'' @ [CHR 0x0D, CHR 0x0A, CHR 0x0D, CHR 0x0A]"

definition body_writer_new :: body_writer where
  "body_writer_new = \<lparr>write_state = WStart\<rparr>"

definition with_content_length_write :: "nat \<Rightarrow> body_writer \<Rightarrow> body_writer" where
  "with_content_length_write cl w = w\<lparr>write_state := WContentLength cl 0\<rparr>"

definition with_chunked_encoding_write :: "body_writer \<Rightarrow> body_writer" where
  "with_chunked_encoding_write w = w\<lparr>write_state := WChunkedEncoding 0\<rparr>"

definition with_until_closed_write :: "body_writer \<Rightarrow> body_writer" where
  "with_until_closed_write w = w\<lparr>write_state := WHTTP10 0\<rparr>"

definition finished :: "body_writer \<Rightarrow> bool" where
  "finished w =
     (case write_state w of
        WCompleted n \<Rightarrow> True
      | WContentLength tot written \<Rightarrow> tot \<le> written
      | _ \<Rightarrow> False)"

definition write_by_content_length ::
  "'s io \<Rightarrow> bytes \<Rightarrow> body_writer \<Rightarrow> 's \<Rightarrow> nat option outcome \<times> body_writer \<times> 's" where
  "write_by_content_length io buf w s =
     (case write_state w of
        WContentLength tot written \<Rightarrow>
          (if tot \<le> written then (Ok None, w, s)
           else
             (let to_write = (if tot - written < length buf then tot - written else length buf)
              in case io_write_all io (take to_write buf) s of
                   (Inr u, s') \<Rightarrow>
                     (let w' = w\<lparr>write_state := WContentLength tot (written + to_write)\<rparr>
                      in if finished w'
                         then (case io_flush io s' of
                                 (Inl e, s'') \<Rightarrow> (Err e, w', s'')
                               | (Inr u, s'') \<Rightarrow> (Ok (Some to_write), w', s''))
                         else (Ok (Some to_write), w', s'))
                 | (Inl e, s') \<Rightarrow> (Err (Wrapped ''error writing: '' e), w, s')))
      | _ \<Rightarrow> (Panic ''executing wrong write state'', w, s))"

definition chunk_output :: "bytes \<Rightarrow> bytes list" where
  "chunk_output buf = [show_hex (length buf) @ crlf, buf, crlf]"

definition write_by_chunked_encoding ::
  "'s io \<Rightarrow> bytes \<Rightarrow> body_writer \<Rightarrow> 's \<Rightarrow> nat option outcome \<times> body_writer \<times> 's" where
  "write_by_chunked_encoding io buf w s =
     (case write_state w of
        WChunkedEncoding written \<Rightarrow>
          (case write_vec_all io (chunk_output buf) s of
             (Err e, s') \<Rightarrow> (Err e, w, s')
           | (Panic p, s') \<Rightarrow> (Panic p, w, s')
           | (Ok u, s') \<Rightarrow>
               (case io_flush io s' of
                  (Inl e, s'') \<Rightarrow> (Err e, w, s'')
                | (Inr u, s'') \<Rightarrow>
                    (Ok (Some (length buf)),
                     w\<lparr>write_state := WChunkedEncoding (written + length buf)\<rparr>, s'')))
      | _ \<Rightarrow> (Panic ''executing wrong write state'', w, s))"

definition write_until_closed ::
  "'s io \<Rightarrow> bytes \<Rightarrow> body_writer \<Rightarrow> 's \<Rightarrow> nat option outcome \<times> body_writer \<times> 's" where
  "write_until_closed io buf w s =
     (case write_state w of
        WHTTP10 written \<Rightarrow>
          (case io_write_all io buf s of
             (Inr u, s') \<Rightarrow>
               (let w' = w\<lparr>write_state := WHTTP10 (written + length buf)\<rparr>
                in case io_flush io s' of
                     (Inl e, s'') \<Rightarrow> (Err e, w', s'')
                   | (Inr u, s'') \<Rightarrow> (Ok (Some (length buf)), w', s''))
           | (Inl e, s') \<Rightarrow> (Err (Wrapped ''error writing: '' e), w, s'))
      | _ \<Rightarrow> (Panic ''executing wrong write state'', w, s))"

definition write_body ::
  "'s io \<Rightarrow> bytes \<Rightarrow> body_writer \<Rightarrow> 's \<Rightarrow> nat option outcome \<times> body_writer \<times> 's" where
  "write_body io buf w s =
     (case write_state w of
        WCompleted n \<Rightarrow> (Ok None, w, s)
      | WContentLength tot written \<Rightarrow> write_by_content_length io buf w s
      | WChunkedEncoding written \<Rightarrow> write_by_chunked_encoding io buf w s
      | WHTTP10 written \<Rightarrow> write_until_closed io buf w s
      | WStart \<Rightarrow> (Panic ''state is uninitialized'', w, s))"

definition finish_content_length ::
  "body_writer \<Rightarrow> nat option outcome \<times> body_writer" where
  "finish_content_length w =
     (case write_state w of
        WContentLength tot written \<Rightarrow>
          (let w' = w\<lparr>write_state := WCompleted written\<rparr>
           in if written < tot then (Err (Other ''premature body''), w')
              else (Ok (Some written), w'))
      | _ \<Rightarrow> (Panic ''executing worng write state'', w))"

definition finish_chunked_encoding ::
  "'s io \<Rightarrow> body_writer \<Rightarrow> 's \<Rightarrow> nat option outcome \<times> body_writer \<times> 's" where
  "finish_chunked_encoding io w s =
     (case write_state w of
        WChunkedEncoding written \<Rightarrow>
          (case io_write_all io last_chunk s of
             (Inr u, s') \<Rightarrow> (Ok (Some written), w\<lparr>write_state := WCompleted written\<rparr>, s')
           | (Inl e, s') \<Rightarrow>
               (Err (Wrapped ''error writing: '' e), w\<lparr>write_state := WCompleted written\<rparr>, s'))
      | _ \<Rightarrow> (Panic ''executing wrong write state'', w, s))"

definition finish_until_closed :: "body_writer \<Rightarrow> nat option outcome \<times> body_writer" where
  "finish_until_closed w =
     (case write_state w of
        WHTTP10 written \<Rightarrow> (Ok (Some written), w\<lparr>write_state := WCompleted written\<rparr>)
      | _ \<Rightarrow> (Panic ''executing wrong write state'', w))"

definition finish ::
  "'s io \<Rightarrow> body_writer \<Rightarrow> 's \<Rightarrow> nat option outcome \<times> body_writer \<times> 's" where
  "finish io w s =
     (case write_state w of
        WCompleted n \<Rightarrow> (Ok None, w, s)
      | WContentLength tot written \<Rightarrow> (case finish_content_length w of (r, w') \<Rightarrow> (r, w', s))
      | WChunkedEncoding written \<Rightarrow> finish_chunked_encoding io w s
      | WHTTP10 written \<Rightarrow> (case finish_until_closed w of (r, w') \<Rightarrow> (r, w', s))
      | WStart \<Rightarrow> (Ok None, w, s))"

section \<open>Writing a whole body\<close>

text \<open>
  The sessions write a body as a sequence of pieces and then finish it, stopping at the first
  error.
\<close>

fun write_pieces ::
  "'s io \<Rightarrow> bytes list \<Rightarrow> body_writer \<Rightarrow> 's \<Rightarrow> unit outcome \<times> body_writer \<times> 's" where
  "write_pieces io [] w s = (Ok (), w, s)"
| "write_pieces io (b # bs) w s =
     (case write_body io b w s of
        (Ok n, w', s') \<Rightarrow> write_pieces io bs w' s'
      | (Err e, w', s') \<Rightarrow> (Err e, w', s')
      | (Panic p, w', s') \<Rightarrow> (Panic p, w', s'))"

definition write_message ::
  "'s io \<Rightarrow> bytes list \<Rightarrow> body_writer \<Rightarrow> 's \<Rightarrow> nat option outcome \<times> body_writer \<times> 's" where
  "write_message io bs w s =
     (case write_pieces io bs w s of
        (Ok u, w', s') \<Rightarrow> finish io w' s'
      | (Err e, w', s') \<Rightarrow> (Err e, w', s')
      | (Panic p, w', s') \<Rightarrow> (Panic p, w', s'))"

text \<open>The wire format of a chunk and of a chunked body.\<close>

definition chunk :: "bytes \<Rightarrow> bytes" where
  "chunk data = show_hex (length data) @ crlf @ data @ crlf"

definition chunked_body :: "bytes list \<Rightarrow> bytes" where
  "chunked_body pieces = concat (map chunk pieces) @ last_chunk"

lemma concat_chunk_output: "concat (chunk_output b) = chunk b"
  by (simp add: chunk_output_def chunk_def)

text \<open>Where the machine stands with respect to the bytes it was given, \<open>written\<close>.\<close>

fun writer_at :: "nat \<Rightarrow> body_writer \<Rightarrow> bool" where
  "writer_at n w =
     (case write_state w of
        WContentLength tot written \<Rightarrow> written = min tot n
      | WChunkedEncoding written \<Rightarrow> written = n
      | WHTTP10 written \<Rightarrow> written = n
      | _ \<Rightarrow> False)"

section \<open>Content-length bodies\<close>

lemma content_length_step:
  assumes "accepts io sent" "write_state w = WContentLength tot written" "written \<le> tot"
  shows "\<exists>r w' s'. write_body io b w s = (Ok r, w', s')
     \<and> write_state w' = WContentLength tot (min tot (written + length b))
     \<and> sent s' = sent s @ take (tot - written) b"
proof (cases "tot \<le> written")
  case True
  with assms show ?thesis
    by (simp add: write_body_def write_by_content_length_def)
next
  case False
  define n where "n = (if tot - written < length b then tot - written else length b)"
  have n: "n = min (tot - written) (length b)" by (auto simp: n_def)
  obtain s1 where s1: "io_write_all io (take n b) s = (Inr (), s1)" "sent s1 = sent s @ take n b"
    using accepts_write_all [OF assms(1)] by blast
  obtain s2 where s2: "io_flush io s1 = (Inr (), s2)" "sent s2 = sent s1"
    using accepts_flush [OF assms(1)] by blast
  have "take n b = take (tot - written) b" by (cases "tot - written \<le> length b") (auto simp: n)
  moreover have "min tot (written + length b) = written + n" using False by (auto simp: n)
  ultimately show ?thesis
    using assms(2) False s1 s2
    by (simp add: write_body_def write_by_content_length_def Let_def finished_def
          flip: n_def split: if_split)
qed

lemma content_length_pieces:
  assumes "accepts io sent" "write_state w = WContentLength tot written" "written \<le> tot"
  shows "\<exists>w' s'. write_pieces io bs w s = (Ok (), w', s')
     \<and> write_state w' = WContentLength tot (min tot (written + length (concat bs)))
     \<and> sent s' = sent s @ take (tot - written) (concat bs)"
  using assms(2,3)
proof (induction bs arbitrary: w s written)
  case Nil
  then show ?case by simp
next
  case (Cons b bs)
  obtain r w1 s1 where 1: "write_body io b w s = (Ok r, w1, s1)"
    "write_state w1 = WContentLength tot (min tot (written + length b))"
    "sent s1 = sent s @ take (tot - written) b"
    using content_length_step [OF assms(1) Cons.prems] by blast
  obtain w2 s2 where 2: "write_pieces io bs w1 s1 = (Ok (), w2, s2)"
    "write_state w2 = WContentLength tot (min tot (min tot (written + length b) + length (concat bs)))"
    "sent s2 = sent s1 @ take (tot - min tot (written + length b)) (concat bs)"
    using Cons.IH [OF 1(2) min.cobounded1] by blast
  have "tot - min tot (written + length b) = tot - written - length b"
    using Cons.prems(2) by auto
  then have "sent s2 = sent s @ take (tot - written) (concat (b # bs))"
    using 1(3) 2(3) by simp
  moreover have "min tot (min tot (written + length b) + length (concat bs))
      = min tot (written + length (concat (b # bs)))"
    by auto
  ultimately show ?case
    using 1(1) 2(1,2) by simp
qed

section \<open>Chunked bodies\<close>

lemma chunked_step:
  assumes "accepts io sent" "write_state w = WChunkedEncoding written"
  shows "\<exists>w' s'. write_body io b w s = (Ok (Some (length b)), w', s')
     \<and> write_state w' = WChunkedEncoding (written + length b)
     \<and> sent s' = sent s @ chunk b"
proof -
  obtain s1 where s1: "write_vec_all io (chunk_output b) s = (Ok (), s1)" "sent s1 = sent s @ chunk b"
    using write_vec_all_accepts [OF assms(1), of "chunk_output b" s] by (auto simp: concat_chunk_output)
  obtain s2 where "io_flush io s1 = (Inr (), s2)" "sent s2 = sent s1"
    using accepts_flush [OF assms(1)] by blast
  with s1 assms(2) show ?thesis
    by (simp add: write_body_def write_by_chunked_encoding_def)
qed

lemma chunked_pieces:
  assumes "accepts io sent" "write_state w = WChunkedEncoding written"
  shows "\<exists>w' s'. write_pieces io bs w s = (Ok (), w', s')
     \<and> write_state w' = WChunkedEncoding (written + length (concat bs))
     \<and> sent s' = sent s @ concat (map chunk bs)"
  using assms(2)
proof (induction bs arbitrary: w s written)
  case Nil
  then show ?case by simp
next
  case (Cons b bs)
  obtain w1 s1 where 1: "write_body io b w s = (Ok (Some (length b)), w1, s1)"
    "write_state w1 = WChunkedEncoding (written + length b)" "sent s1 = sent s @ chunk b"
    using chunked_step [OF assms(1) Cons.prems] by blast
  from Cons.IH [OF 1(2)] obtain w2 s2 where "write_pieces io bs w1 s1 = (Ok (), w2, s2)"
    "write_state w2 = WChunkedEncoding (written + length b + length (concat bs))"
    "sent s2 = sent s1 @ concat (map chunk bs)"
    by blast
  with 1 show ?case by (simp add: add.assoc)
qed

section \<open>Close-delimited bodies\<close>

lemma until_closed_step:
  assumes "accepts io sent" "write_state w = WHTTP10 written"
  shows "\<exists>w' s'. write_body io b w s = (Ok (Some (length b)), w', s')
     \<and> write_state w' = WHTTP10 (written + length b) \<and> sent s' = sent s @ b"
proof -
  obtain s1 where s1: "io_write_all io b s = (Inr (), s1)" "sent s1 = sent s @ b"
    using accepts_write_all [OF assms(1)] by blast
  obtain s2 where "io_flush io s1 = (Inr (), s2)" "sent s2 = sent s1"
    using accepts_flush [OF assms(1)] by blast
  with s1 assms(2) show ?thesis
    by (simp add: write_body_def write_until_closed_def Let_def)
qed

lemma until_closed_pieces:
  assumes "accepts io sent" "write_state w = WHTTP10 written"
  shows "\<exists>w' s'. write_pieces io bs w s = (Ok (), w', s')
     \<and> write_state w' = WHTTP10 (written + length (concat bs)) \<and> sent s' = sent s @ concat bs"
  using assms(2)
proof (induction bs arbitrary: w s written)
  case Nil
  then show ?case by simp
next
  case (Cons b bs)
  obtain w1 s1 where 1: "write_body io b w s = (Ok (Some (length b)), w1, s1)"
    "write_state w1 = WHTTP10 (written + length b)" "sent s1 = sent s @ b"
    using until_closed_step [OF assms(1) Cons.prems] by blast
  from Cons.IH [OF 1(2)] obtain w2 s2 where "write_pieces io bs w1 s1 = (Ok (), w2, s2)"
    "write_state w2 = WHTTP10 (written + length b + length (concat bs))"
    "sent s2 = sent s1 @ concat bs"
    by blast
  with 1 show ?case by (simp add: add.assoc)
qed

end
