(* ===== verification/BodyProperties.thy ===== *)
theory BodyProperties
  imports ReaderSafety BodyWriter
begin

text \<open>
  What the body reader and the body writer guarantee to the sessions: bodies arrive complete in each
  framing, a truncated body is an error, and writer and reader agree on the wire format.
\<close>

section \<open>Reading\<close>

text \<open>
  C5 (functional). A chunked body is decoded exactly: however the peer's bytes are cut into segments,
  and whatever part \<open>rewind\<close> was already read with the headers, reading ends within twice as many
  reads as there are bytes, and the pieces handed out concatenate to the payload of the chunks.
\<close>

theorem chunked_reader_decodes:
  assumes "delivers io pending" "chunk_head pcs lh 0" "\<forall>c\<in>set cs. chunk_ok pcs c"
    and "rewind @ pending s = wire cs (lh @ extra)" "length (wire cs (lh @ extra)) < usize_mod"
  shows "\<exists>bss r' s'. read_all pcs io (2 * length (wire cs (lh @ extra)) + 2)
             (with_chunked_read rewind body_reader_new) s = Some (Ok bss, r', s') \<and>
           concat bss = payload cs \<and> read_state r' = RCompleted (length (payload cs))"
  using assms by (rule read_all_chunked)

lemma chunked_reader_decodes_witness:
  "\<exists>bss r' s'. read_all (hex_line 0 0) script_io 44
       (with_chunked_read (''5'' @ [CHR 0x0D]) body_reader_new)
       \<lparr>rx = [[CHR 0x0A] @ ''he'', ''llo'' @ crlf @ ''1'', crlf @ ''!'' @ crlf @ ''0'' @ crlf @ crlf], tx = []\<rparr>
       = Some (Ok bss, r', s') \<and> concat bss = ''hello!'' \<and> read_state r' = RCompleted 6"
proof -
  have d: "digit_char 0 = CHR ''0''" "digit_char 1 = CHR ''1''" "digit_char 5 = CHR ''5''"
    by code_simp+
  have h: "chunk_head (hex_line 0 0) (''0'' @ crlf) 0" "chunk_head (hex_line 0 0) (''1'' @ crlf) 1"
      "chunk_head (hex_line 0 0) (''5'' @ crlf) 5"
    using hex_line_head [of 0] hex_line_head [of 1] hex_line_head [of 5] d
    by (simp_all add: crlf_def show_hex_def show_base.simps usize_mod_def)
  show ?thesis
    using chunked_reader_decodes [OF script_delivers h(1),
        of "[(''5'' @ crlf, ''hello'', crlf), (''1'' @ crlf, ''!'', crlf)]" "''5'' @ [CHR 0x0D]"
           "\<lparr>rx = [[CHR 0x0A] @ ''he'', ''llo'' @ crlf @ ''1'', crlf @ ''!'' @ crlf @ ''0'' @ crlf @ crlf], tx = []\<rparr>" crlf]
      h(2,3) by (simp add: crlf_def usize_mod_def flip: One_nat_def)
qed

text \<open>
  C33 (functional). A body with a content length ends after exactly that many bytes, even when the
  peer keeps sending.
\<close>

theorem content_length_reader_exact:
  assumes "delivers io pending" "body @ extra = rewind @ pending s" "body \<noteq> []"
    and "length body < usize_mod" "length rewind < usize_mod"
  shows "\<exists>bss r' s'. read_all pcs io (length body + 2)
             (with_content_length_read (length body) rewind body_reader_new) s = Some (Ok bss, r', s') \<and>
           concat bss = body \<and> read_state r' = RCompleted (length body)"
proof -
  let ?r = "with_content_length_read (length body) rewind body_reader_new"
  have "rewound ?r = rewind" "buffered ?r" "read_state ?r = RPartial 0 (length body)"
    using assms(3,5) buffered_new [of rewind]
    by (auto simp: with_content_length_read_def rewound_def buffered_def)
  then have "content_length_rep io pending 0 body ?r s"
      "partial_left (read_state ?r) < length body + 2"
    using assms by (auto simp: content_length_rep_def simp flip: assms(2))
  from content_length.drain_delivers [OF this] show ?thesis by (simp add: read_all_def)
qed

lemma content_length_reader_exact_witness:
  "\<exists>bss r' s'. read_all (hex_line 0 0) script_io 7
       (with_content_length_read 5 ''he'' body_reader_new) \<lparr>rx = [''l'', ''lo, and more''], tx = []\<rparr>
       = Some (Ok bss, r', s') \<and> concat bss = ''hello'' \<and> read_state r' = RCompleted 5"
  using content_length_reader_exact [OF script_delivers, of "''hello''" "'', and more''" "''he''"
      "\<lparr>rx = [''l'', ''lo, and more''], tx = []\<rparr>" "hex_line 0 0"]
  by (simp add: usize_mod_def flip: One_nat_def)

text \<open>
  Without any framing header the body is everything up to the close of the
  connection.
\<close>

theorem until_closed_reader_complete:
  assumes "delivers io pending" "length (rewind @ pending s) < usize_mod"
  shows "\<exists>bss r' s'. read_all pcs io (length (rewind @ pending s) + 1)
             (with_until_closed_read rewind body_reader_new) s = Some (Ok bss, r', s') \<and>
           concat bss = rewind @ pending s \<and> read_state r' = RCompleted (length (rewind @ pending s))"
proof -
  let ?r = "with_until_closed_read rewind body_reader_new"
  have r: "rewound ?r = rewind" "buffered ?r" "read_state ?r = RHTTP10 0"
    using assms(2) buffered_new [of rewind]
    by (auto simp: with_until_closed_read_def rewound_def buffered_def)
  then have "until_closed_rep io pending 0 (rewind @ pending s) ?r s"
      "length (rewound ?r) + length (pending s) < length (rewind @ pending s) + 1"
    using assms by (auto simp: until_closed_rep_def)
  from until_closed.drain_delivers [OF this] show ?thesis by (simp add: read_all_def)
qed

lemma until_closed_reader_complete_witness:
  "\<exists>bss r' s'. read_all (hex_line 0 0) script_io 6
       (with_until_closed_read ''he'' body_reader_new) \<lparr>rx = [''l'', ''lo''], tx = []\<rparr>
       = Some (Ok bss, r', s') \<and> concat bss = ''hello'' \<and> read_state r' = RCompleted 5"
  using until_closed_reader_complete [OF script_delivers, of "''he''" "\<lparr>rx = [''l'', ''lo''], tx = []\<rparr>"
      "hex_line 0 0"]
  by (simp add: usize_mod_def flip: One_nat_def)

lemma short_body_step:
  assumes "delivers io pending" "buffered r" "read_state r = RPartial rd k"
    "length (rewound r @ pending s) < k" "rd + k < usize_mod"
  shows "(rewound r @ pending s = [] \<and> (\<exists>r' s'. read_piece pcs io r s
            = (Err (Other ''connection closed''), r', s') \<and> read_state r' = RDone rd)) \<or>
    (\<exists>bs r' s'. read_piece pcs io r s = (Ok (Some bs), r', s') \<and> bs \<noteq> [] \<and> buffered r' \<and>
       rewound r @ pending s = bs @ rewound r' @ pending s' \<and>
       read_state r' = RPartial (rd + length bs) (k - length bs))"
proof -
  obtain m buf r1 s1 where rd: "read_or_rewind io r s = (Ok m, r1, s1)"
      "body_buffer r1 = Some buf" "m \<le> length buf" "buffered r1" "rewind_buf_size r1 = 0"
      "read_state r1 = read_state r" "rewound r @ pending s = take m buf @ pending s1"
      "m = 0 \<Longrightarrow> rewound r @ pending s = []"
    using read_or_rewind_delivers [OF assms(1,2)] by metis
  have small: "length buf < usize_mod" using rd(2,4) by (auto simp: buffered_def)
  have m: "m < k" using assms(4) rd(3,7) by simp
  show ?thesis
  proof (cases "m = 0")
    case True
    with rd(1,6,8) assms(3) show ?thesis
      by (simp add: read_piece_def read_body_def read_partially_def)
  next
    case False
    define r2 where "r2 = r1\<lparr>read_state := RPartial (rd + m) (k - m)\<rparr>"
    have "get_sliced_body (offset_new 0 m) r2 = Ok (take m buf)"
      using get_sliced_body_front [of r2 buf m] rd(2,3) small by (simp add: r2_def)
    then have "read_piece pcs io r s = (Ok (Some (take m buf)), r2, s1)"
      using rd(1,6) assms(3,5) m False
      by (simp add: read_piece_def read_body_def read_partially_def r2_def del: offset_new.simps)
    moreover have "rewound r @ pending s = take m buf @ rewound r2 @ pending s1" "buffered r2"
      using rd(2,4,5,7) by (simp_all add: r2_def rewound_def buffered_def)
    ultimately show ?thesis using False rd(3) by (auto simp: r2_def)
  qed
qed

lemma short_body_drain:
  assumes "delivers io pending" "buffered r" "read_state r = RPartial rd k"
    "length (rewound r @ pending s) < k" "rd + k < usize_mod" "length (rewound r @ pending s) < fuel"
  shows "\<exists>r' s'. read_all pcs io fuel r s = Some (Err (Other ''connection closed''), r', s') \<and>
           read_state r' = RDone (rd + length (rewound r @ pending s))"
  using assms(2-)
proof (induction fuel arbitrary: r s rd k)
  case 0
  then show ?case by simp
next
  case (Suc fuel)
  from short_body_step [OF assms(1) Suc.prems(1-4), where pcs = pcs] show ?case
  proof (elim disjE exE conjE)
    fix r' s'
    assume "rewound r @ pending s = []"
      "read_piece pcs io r s = (Err (Other ''connection closed''), r', s')" "read_state r' = RDone rd"
    then show ?thesis by (simp add: read_all_def)
  next
    fix bs r' s'
    assume step: "read_piece pcs io r s = (Ok (Some bs), r', s')" "bs \<noteq> []" "buffered r'"
      "rewound r @ pending s = bs @ rewound r' @ pending s'"
      "read_state r' = RPartial (rd + length bs) (k - length bs)"
    have "length bs < k" "0 < length bs" using step(2,4) Suc.prems(3) by simp_all
    then have "\<exists>r'' s''. read_all pcs io fuel r' s' = Some (Err (Other ''connection closed''), r'', s'') \<and>
           read_state r'' = RDone (rd + length bs + length (rewound r' @ pending s'))"
    proof (intro Suc.IH [OF step(3,5)])
      have "length (rewound r @ pending s) = length bs + length (rewound r' @ pending s')"
        by (simp only: step(4) length_append)
      then show "length (rewound r' @ pending s') < k - length bs" "length (rewound r' @ pending s') < fuel"
          "rd + length bs + (k - length bs) < usize_mod"
        using Suc.prems(3-5) \<open>length bs < k\<close> \<open>0 < length bs\<close> by linarith+
    qed
    with step(1,4) show ?thesis by (auto simp: read_all_def add.assoc)
  qed
qed

text \<open>
  A peer that closes before the stated content length has arrived is an error, never a
  short body.
\<close>

theorem truncated_body_is_error:
  assumes "delivers io pending" "length (rewind @ pending s) < n" "n < usize_mod"
  shows "\<exists>r' s'. read_all pcs io (length (rewind @ pending s) + 1)
             (with_content_length_read n rewind body_reader_new) s
           = Some (Err (Other ''connection closed''), r', s') \<and>
           read_state r' = RDone (length (rewind @ pending s))"
proof -
  let ?r = "with_content_length_read n rewind body_reader_new"
  have "rewound ?r = rewind" "buffered ?r" "read_state ?r = RPartial 0 n"
    using assms(2,3) buffered_new [of rewind]
    by (auto simp: with_content_length_read_def rewound_def buffered_def)
  with short_body_drain [OF assms(1), of ?r 0 n s "length (rewind @ pending s) + 1" pcs] assms
  show ?thesis by simp
qed

lemma truncated_body_is_error_witness:
  "\<exists>r' s'. read_all (hex_line 0 0) script_io 5 (with_content_length_read 10 ''he'' body_reader_new)
       \<lparr>rx = [''ll''], tx = []\<rparr> = Some (Err (Other ''connection closed''), r', s') \<and>
     read_state r' = RDone 4"
  using truncated_body_is_error [OF script_delivers, of "''he''" "\<lparr>rx = [''ll''], tx = []\<rparr>" 10 "hex_line 0 0"]
  by (simp add: usize_mod_def flip: One_nat_def)

section \<open>Writing\<close>

text \<open>
  C15 (functional). A content-length writer sends exactly the first \<open>cl\<close> bytes of what it is given,
  however it is cut into pieces, and reports a body that was too short when it is finished.
\<close>

theorem content_length_writer_bound:
  assumes "accepts io sent"
  shows "\<exists>w' s'. write_message io bs (with_content_length_write cl body_writer_new) s
           = (if length (concat bs) < cl then Err (Other ''premature body'') else Ok (Some cl), w', s') \<and>
         sent s' = sent s @ take cl (concat bs) \<and>
         write_state w' = WCompleted (min cl (length (concat bs)))"
  using content_length_pieces [OF assms, of "with_content_length_write cl body_writer_new" cl 0 bs s]
  by (auto simp: with_content_length_write_def write_message_def finish_def finish_content_length_def
        min_def not_less split: if_splits)

lemma content_length_writer_bound_witness:
  "\<exists>w' s'. write_message script_io [''he'', ''llo'', ''!!''] (with_content_length_write 5 body_writer_new)
       \<lparr>rx = [], tx = []\<rparr> = (Ok (Some 5), w', s') \<and> tx s' = ''hello'' \<and> write_state w' = WCompleted 5"
  using content_length_writer_bound [OF script_accepts, of "[''he'', ''llo'', ''!!'']" 5 "\<lparr>rx = [], tx = []\<rparr>"]
  by (simp add: eval_nat_numeral)

lemma write_message_chunked:
  assumes "accepts io sent" "write_message io bs (with_chunked_encoding_write body_writer_new) s = (res, w', s')"
  shows "res = Ok (Some (length (concat bs)))" "sent s' = sent s @ chunked_body bs"
proof -
  obtain w1 s1 where 1: "write_pieces io bs (with_chunked_encoding_write body_writer_new) s = (Ok (), w1, s1)"
      "write_state w1 = WChunkedEncoding (length (concat bs))" "sent s1 = sent s @ concat (map chunk bs)"
    using chunked_pieces [OF assms(1), of "with_chunked_encoding_write body_writer_new" 0 bs s]
    by (auto simp: with_chunked_encoding_write_def)
  obtain s2 where "io_write_all io last_chunk s1 = (Inr (), s2)" "sent s2 = sent s1 @ last_chunk"
    using accepts_write_all [OF assms(1)] by blast
  with 1 assms(2) show "res = Ok (Some (length (concat bs)))" "sent s' = sent s @ chunked_body bs"
    by (auto simp: write_message_def finish_def finish_chunked_encoding_def chunked_body_def)
qed

text \<open>The chunks the writer makes of non-empty pieces, as the reader sees them.\<close>

definition written_chunk :: "bytes \<Rightarrow> wire_chunk" where
  "written_chunk b = (show_hex (length b) @ crlf, b, crlf)"

lemma wire_written: "wire (map written_chunk bs) tail = concat (map chunk bs) @ tail"
  by (induction bs) (simp_all add: written_chunk_def chunk_def)

lemma payload_written: "payload (map written_chunk bs) = concat bs"
  by (induction bs) (simp_all add: written_chunk_def)

lemma last_chunk_head: "last_chunk = (show_hex 0 @ crlf) @ crlf"
proof -
  have "digit_char 0 = CHR ''0''" by code_simp
  then show ?thesis by (simp add: last_chunk_def crlf_def show_hex_def show_base.simps)
qed

lemma read_written:
  assumes "delivers io pending" "\<forall>n<usize_mod. chunk_head pcs (show_hex n @ crlf) n"
    and "[] \<notin> set bs" "length (concat (map chunk bs) @ last_chunk @ rest) < usize_mod"
    and "pending t = concat (map chunk bs) @ last_chunk @ rest"
  shows "\<exists>bss r' t'. read_all pcs io (2 * length (pending t) + 2) (with_chunked_read [] body_reader_new) t
           = Some (Ok bss, r', t') \<and> concat bss = concat bs"
proof -
  have "length b < usize_mod" if "b \<in> set bs" for b
  proof -
    have "length b \<le> length (concat (map chunk bs))"
      using that by (induction bs) (auto simp: chunk_def)
    with assms(4) show ?thesis by simp
  qed
  then have ok: "\<forall>c\<in>set (map written_chunk bs). chunk_ok pcs c"
    using assms(2,3) by (auto simp: written_chunk_def crlf_def)
  have head: "chunk_head pcs (show_hex 0 @ crlf) 0" using assms(2) by (simp add: usize_mod_def)
  have w: "wire (map written_chunk bs) ((show_hex 0 @ crlf) @ crlf @ rest) = pending t"
    using assms(5) by (simp add: wire_written last_chunk_head)
  show ?thesis
    using read_all_chunked [OF assms(1) head ok, of "[]" t "crlf @ rest"] w assms(4,5)
    by (auto simp: payload_written)
qed

text \<open>
  C6 (roundtrip). What the chunked writer puts on the wire, the chunked reader reads back: for every
  list of non-empty pieces and every segmentation by the network, the reader's pieces concatenate to
  the writer's.
\<close>

theorem chunked_round_trip:
  assumes "accepts wio sent" "sent s = []"
    and "write_message wio bs (with_chunked_encoding_write body_writer_new) s = (res, w', s')"
    and "delivers rio pending" "pending t = sent s'" "length (sent s') < usize_mod"
    and "\<forall>n<usize_mod. chunk_head pcs (show_hex n @ crlf) n" "[] \<notin> set bs"
  shows "res = Ok (Some (length (concat bs))) \<and>
     (\<exists>bss r' t'. read_all pcs rio (2 * length (pending t) + 2) (with_chunked_read [] body_reader_new) t
        = Some (Ok bss, r', t') \<and> concat bss = concat bs)"
  using write_message_chunked [OF assms(1,3)] assms(2,5,6)
    read_written [OF assms(4,7,8), of "[]" t] by (simp add: chunked_body_def)

lemma chunked_round_trip_witness:
  "\<exists>bss r' t'. read_all (hex_line 0 0) script_io (2 * length (chunked_body [''hello'', '' '', ''world'']) + 2)
      (with_chunked_read [] body_reader_new) \<lparr>rx = [chunked_body [''hello'', '' '', ''world'']], tx = []\<rparr>
      = Some (Ok bss, r', t') \<and> concat bss = ''hello world''"
proof -
  let ?bs = "[''hello'', '' '', ''world'']" and ?w = "with_chunked_encoding_write body_writer_new"
  obtain res w' s' where w: "write_message script_io ?bs ?w \<lparr>rx = [], tx = []\<rparr> = (res, w', s')"
    by (metis prod_cases3)
  have "tx s' = chunked_body ?bs"
    using write_message_chunked(2) [OF script_accepts w] by simp
  moreover have "length (chunked_body ?bs) < usize_mod"
    by (simp add: chunked_body_def chunk_def show_hex_def show_base.simps crlf_def last_chunk_def usize_mod_def)
  ultimately show ?thesis
    using chunked_round_trip [OF script_accepts _ w script_delivers, of "\<lparr>rx = [chunked_body ?bs], tx = []\<rparr>"
        "hex_line 0 0"] hex_line_head by (simp add: crlf_def)
qed

text \<open>
  The chunked writer does not guard against an empty piece, which it
  encodes as the chunk that ends the body: everything after it is lost to a conforming reader. The
  reader hands out such pieces (an incomplete chunk head), and the upstream session writes every
  piece it gets.
\<close>

theorem empty_piece_ends_body:
  assumes "accepts wio sent" "sent s = []"
    and "write_message wio (bs @ [] # lost) (with_chunked_encoding_write body_writer_new) s = (res, w', s')"
    and "delivers rio pending" "pending t = sent s'" "length (sent s') < usize_mod"
    and "\<forall>n<usize_mod. chunk_head pcs (show_hex n @ crlf) n" "[] \<notin> set bs"
  shows "\<exists>bss r' t'. read_all pcs rio (2 * length (pending t) + 2) (with_chunked_read [] body_reader_new) t
        = Some (Ok bss, r', t') \<and> concat bss = concat bs"
proof -
  have "chunk [] = last_chunk"
    by (simp add: chunk_def last_chunk_head)
  then have "sent s' = concat (map chunk bs) @ last_chunk @ chunked_body lost"
    using write_message_chunked(2) [OF assms(1,3)] assms(2) by (simp add: chunked_body_def)
  with read_written [OF assms(4,7,8), of "chunked_body lost" t] assms(5,6) show ?thesis by simp
qed

lemma empty_piece_ends_body_witness:
  "\<exists>bss r' t'. read_all (hex_line 0 0) script_io (2 * length (chunked_body [''hello'', [], ''world'']) + 2)
      (with_chunked_read [] body_reader_new) \<lparr>rx = [chunked_body [''hello'', [], ''world'']], tx = []\<rparr>
      = Some (Ok bss, r', t') \<and> concat bss = ''hello''"
proof -
  let ?bs = "[''hello'', [], ''world'']" and ?w = "with_chunked_encoding_write body_writer_new"
  obtain res w' s' where w: "write_message script_io ?bs ?w \<lparr>rx = [], tx = []\<rparr> = (res, w', s')"
    by (metis prod_cases3)
  have "tx s' = chunked_body ?bs"
    using write_message_chunked(2) [OF script_accepts w] by simp
  moreover have "length (chunked_body ?bs) < usize_mod"
    by (simp add: chunked_body_def chunk_def show_hex_def show_base.simps crlf_def last_chunk_def usize_mod_def)
  ultimately show ?thesis
    using empty_piece_ends_body [OF script_accepts, of "\<lparr>rx = [], tx = []\<rparr>" "[''hello'']" "[''world'']" res w' s'
        script_io "\<lambda>s. concat (rx s)" "\<lparr>rx = [chunked_body ?bs], tx = []\<rparr>" "hex_line 0 0"]
      w script_delivers hex_line_head by (simp add: crlf_def)
qed

end
