(* ===== verification/Downstream.thy ===== *)
theory Downstream
  imports SessionHead BodyProperties
begin

text \<open>
  The downstream session (core/src/session/downstream.rs): it reads a client's request, hands the
  request body out in pieces, and writes the response. A session's methods are actions on the
  session's record and its stream; the record has the fields of the struct \<open>Downstream\<close> except \<open>stream\<close>, which
  is the second component of the action's state.
\<close>

section \<open>Session state\<close>

record 'm downstream =
  ds_buffer :: bytes
  ds_vec_buffer :: bytes
  ds_retry :: "storage_buffer option"
  ds_headers_offset :: "offset option"
  ds_body_offset :: "offset option"
  ds_request :: "'m request_header option"
  ds_response :: "'m response_header option"
  ds_writer :: body_writer
  ds_reader :: body_reader
  ds_write_size :: nat
  ds_read_size :: nat
  ds_keepalive :: keepalive_status
  ds_upgrade :: bool
  ds_update_headers :: bool
  ds_ignore_headers :: bool

definition downstream_new :: "'m downstream" where
  "downstream_new =
     \<lparr>ds_buffer = [], ds_vec_buffer = [], ds_retry = None, ds_headers_offset = None, ds_body_offset = None,
      ds_request = None, ds_response = None, ds_writer = body_writer_new, ds_reader = body_reader_new,
      ds_write_size = 0, ds_read_size = 0, ds_keepalive = KOff, ds_upgrade = False,
      ds_update_headers = True, ds_ignore_headers = False\<rparr>"

text \<open>The accessors that \<open>expect\<close> a request header.\<close>

definition ds_get_request :: "'m downstream \<Rightarrow> 'm request_header outcome" where
  "ds_get_request d =
     (case ds_request d of None \<Rightarrow> Panic ''Request header is not read yet'' | Some rq \<Rightarrow> Ok rq)"

definition ds_get_headers :: "'m http \<Rightarrow> header_key \<Rightarrow> 'm downstream \<Rightarrow> bytes list outcome" where
  "ds_get_headers H k d = bind_outcome (ds_get_request d) (\<lambda>rq. Ok (rq_get_headers H k rq))"

definition ds_get_header :: "'m http \<Rightarrow> header_key \<Rightarrow> 'm downstream \<Rightarrow> bytes option outcome" where
  "ds_get_header H k d = bind_outcome (ds_get_request d) (\<lambda>rq. Ok (rq_get_header H k rq))"

definition ds_get_version :: "'m downstream \<Rightarrow> http_version outcome" where
  "ds_get_version d = bind_outcome (ds_get_request d) (\<lambda>rq. Ok (rq_version rq))"

definition ds_get_method :: "'m downstream \<Rightarrow> string outcome" where
  "ds_get_method d = bind_outcome (ds_get_request d) (\<lambda>rq. Ok (rq_method rq))"

definition ds_get_raw_path :: "'m downstream \<Rightarrow> bytes outcome" where
  "ds_get_raw_path d = bind_outcome (ds_get_request d) (\<lambda>rq. Ok (rq_raw_path rq))"

definition ds_get_uri :: "'m downstream \<Rightarrow> string outcome" where
  "ds_get_uri d = bind_outcome (ds_get_request d) (\<lambda>rq. Ok (rq_uri rq))"

definition ds_append_header :: "'m http \<Rightarrow> header_key \<Rightarrow> header_val \<Rightarrow> 'm downstream \<Rightarrow> 'm downstream outcome" where
  "ds_append_header H k v d =
     bind_outcome (ds_get_request d) (\<lambda>rq.
     bind_outcome (rq_append_header H k v rq) (\<lambda>rq'. Ok (d\<lparr>ds_request := Some rq'\<rparr>)))"

definition ds_insert_header :: "'m http \<Rightarrow> header_key \<Rightarrow> header_val \<Rightarrow> 'm downstream \<Rightarrow> 'm downstream outcome" where
  "ds_insert_header H k v d =
     bind_outcome (ds_get_request d) (\<lambda>rq.
     bind_outcome (rq_insert_header H k v rq) (\<lambda>rq'. Ok (d\<lparr>ds_request := Some rq'\<rparr>)))"

definition ds_remove_header :: "'m http \<Rightarrow> header_key \<Rightarrow> 'm downstream \<Rightarrow> 'm downstream outcome" where
  "ds_remove_header H k d =
     bind_outcome (ds_get_request d) (\<lambda>rq. Ok (d\<lparr>ds_request := Some (rq_remove_header H k rq)\<rparr>))"

section \<open>Keep-alive\<close>

definition ds_set_keepalive :: "nat option \<Rightarrow> 'm downstream \<Rightarrow> 'm downstream" where
  "ds_set_keepalive seconds d =
     (case seconds of
        Some sec \<Rightarrow> d\<lparr>ds_keepalive := (if 0 < sec then KTimeout sec else KInfinite)\<rparr>
      | None \<Rightarrow> d\<lparr>ds_keepalive := KOff\<rparr>)"

definition ds_is_session_keepalive :: "'m downstream \<Rightarrow> bool" where
  "ds_is_session_keepalive d \<longleftrightarrow> ds_keepalive d \<noteq> KOff"

definition ds_is_connection_keepalive :: "'m http \<Rightarrow> 'm downstream \<Rightarrow> bool option outcome" where
  "ds_is_connection_keepalive H d =
     bind_outcome (ds_get_header H (KName ''connection'') d) (\<lambda>v.
       Ok (case v of Some b \<Rightarrow> is_connection_keepalive b | None \<Rightarrow> None))"

definition ds_get_keepalive_value :: "'m downstream \<Rightarrow> nat option \<times> nat option" where
  "ds_get_keepalive_value d = (None, None)"

definition ds_apply_session_keepalive :: "'m http \<Rightarrow> 'm downstream \<Rightarrow> 'm downstream outcome" where
  "ds_apply_session_keepalive H d =
     bind_outcome (ds_is_connection_keepalive H d) (\<lambda>ka.
       (case ka of
          Some True \<Rightarrow>
            (case fst (ds_get_keepalive_value d) of
               Some timeout \<Rightarrow> Ok (ds_set_keepalive (Some timeout) d)
             | None \<Rightarrow> Ok (ds_set_keepalive (Some 0) d))
        | Some False \<Rightarrow> Ok (ds_set_keepalive None d)
        | None \<Rightarrow>
            bind_outcome (ds_get_version d) (\<lambda>v.
              if v = HTTP_11 then Ok (ds_set_keepalive (Some 0) d) else Ok (ds_set_keepalive None d))))"

section \<open>Reading the request\<close>

definition read_request ::
  "'m http \<Rightarrow> (bytes \<Rightarrow> parsed_request parse_status) \<Rightarrow> 's io \<Rightarrow> (unit, 'm downstream, 's) action" where
  "read_request H parse io st =
     (let d = (fst st)\<lparr>ds_buffer := []\<rparr>
      in case read_head parse io [] (snd st) of
           (HeadEof, s') \<Rightarrow> (Ok (), d, s')
         | (HeadError e, s') \<Rightarrow> (Err e, d, s')
         | (HeadParsed buf n p, s') \<Rightarrow>
             (let d1 = d\<lparr>ds_headers_offset := Some (Offset 0 n),
                         ds_body_offset := Some (Offset n (length buf))\<rparr>
              in case assemble_request H buf p of
                   Ok rq \<Rightarrow>
                     (let d2 = d1\<lparr>ds_buffer := buf, ds_request := Some rq,
                                  ds_reader := re_start (ds_reader d1), ds_response := None\<rparr>
                      in case ds_apply_session_keepalive H d2 of
                           Ok d3 \<Rightarrow> (Ok (), d3, s')
                         | Err e \<Rightarrow> (Err e, d2, s')
                         | Panic m \<Rightarrow> (Panic m, d2, s'))
                 | Err e \<Rightarrow> (Err e, d1, s')
                 | Panic m \<Rightarrow> (Panic m, d1, s')))"

definition ds_is_request_upgrade :: "'m http \<Rightarrow> 'm downstream \<Rightarrow> bool outcome" where
  "ds_is_request_upgrade H d = bind_outcome (ds_get_request d) (\<lambda>rq. Ok (is_request_upgrade H rq))"

definition ds_is_session_upgrade :: "'m http \<Rightarrow> 'm response_header \<Rightarrow> 'm downstream \<Rightarrow> bool outcome" where
  "ds_is_session_upgrade H rs d =
     bind_outcome (ds_is_request_upgrade H d) (\<lambda>up. Ok (if up then is_response_upgrade rs else False))"

definition ds_is_request_expect_continue :: "'m http \<Rightarrow> 'm downstream \<Rightarrow> bool outcome" where
  "ds_is_request_expect_continue H d =
     bind_outcome (ds_get_request d) (\<lambda>rq. Ok (is_request_expect_continue H rq))"

text \<open>
  The read mode is set once, while the reader is still at its start. The case of an upgrade request
  has no \<open>return\<close>: the mode it sets is replaced by what follows.
\<close>

definition request_body_mode :: "'m http \<Rightarrow> 'm request_header \<Rightarrow> bytes \<Rightarrow> body_reader \<Rightarrow> body_reader" where
  "request_body_mode H rq body r =
     (let r1 = (if rq_version rq = HTTP_11 \<and> is_request_upgrade H rq then with_until_closed_read body r else r)
      in if is_header_value_chunk_encoding (rq_get_header H (KName ''transfer-encoding'') rq)
         then with_chunked_read body r1
         else
           (case get_content_length_value (rq_get_header H (KName ''content-length'') rq) of
              Some len \<Rightarrow> with_content_length_read len body r1
            | None \<Rightarrow>
                (if rq_version rq = HTTP_11 then with_content_length_read 0 body r1
                 else with_until_closed_read body r1)))"

definition set_request_body_reader :: "'m http \<Rightarrow> (unit, 'm downstream, 's) action" where
  "set_request_body_reader H st =
     (let d = fst st
      in if \<not> is_start (ds_reader d) then (Ok (), st)
         else
           (let d1 = d\<lparr>ds_retry := map_option clear_buffer (ds_retry d)\<rparr>
            in case ds_body_offset d1 of
                 None \<Rightarrow> (Panic ''unwrap on None'', d1, snd st)
               | Some off \<Rightarrow>
                   (case bind_outcome (offset_get off (ds_buffer d1)) (\<lambda>body.
                           bind_outcome (ds_get_request d1) (\<lambda>rq.
                             Ok (request_body_mode H rq body (ds_reader d1)))) of
                      Ok r \<Rightarrow> (Ok (), d1\<lparr>ds_reader := r\<rparr>, snd st)
                    | Err e \<Rightarrow> (Err e, d1, snd st)
                    | Panic p \<Rightarrow> (Panic p, d1, snd st))))"

section \<open>The retry buffer\<close>

definition body_buf_limit :: nat where
  "body_buf_limit = 65536"

definition is_retry_buffer_truncated :: "'m downstream \<Rightarrow> bool" where
  "is_retry_buffer_truncated d =
     (case ds_retry d of Some sb \<Rightarrow> is_buffer_truncated sb | None \<Rightarrow> False)"

definition enable_retry_buffer :: "'m downstream \<Rightarrow> 'm downstream" where
  "enable_retry_buffer d =
     (if ds_retry d = None then d\<lparr>ds_retry := Some (storage_new body_buf_limit)\<rparr> else d)"

definition get_retry_buffer :: "'m downstream \<Rightarrow> bytes option" where
  "get_retry_buffer d =
     (case ds_retry d of
        Some sb \<Rightarrow> (if is_retry_buffer_truncated d then None else get_buffer sb)
      | None \<Rightarrow> None)"

section \<open>Reading the request body\<close>

definition on_reader ::
  "(body_reader \<Rightarrow> 's \<Rightarrow> 'a outcome \<times> body_reader \<times> 's) \<Rightarrow> ('a, 'm downstream, 's) action" where
  "on_reader f st =
     (case f (ds_reader (fst st)) (snd st) of (res, r', s') \<Rightarrow> (res, (fst st)\<lparr>ds_reader := r'\<rparr>, s'))"

definition read_request_body ::
  "'m http \<Rightarrow> (bytes \<Rightarrow> chunk_status) \<Rightarrow> 's io \<Rightarrow> (offset option, 'm downstream, 's) action" where
  "read_request_body H pcs io =
     abind (set_request_body_reader H) (\<lambda>u. on_reader (read_body pcs io))"

definition read_request_body_bytes ::
  "'m http \<Rightarrow> (bytes \<Rightarrow> chunk_status) \<Rightarrow> 's io \<Rightarrow> (bytes option, 'm downstream, 's) action" where
  "read_request_body_bytes H pcs io =
     abind (read_request_body H pcs io) (\<lambda>offset.
       (case offset of
          None \<Rightarrow> areturn None
        | Some off \<Rightarrow>
            abind (aget (\<lambda>d. get_sliced_body off (ds_reader d))) (\<lambda>sliced.
            abind (alift sliced) (\<lambda>bytes.
            abind (asession (\<lambda>d. d\<lparr>ds_read_size := ds_read_size d + length bytes,
                                    ds_retry := map_option (write_buffer bytes) (ds_retry d)\<rparr>)) (\<lambda>u.
              areturn (Some bytes))))))"

definition is_reading_request_body_finished :: "'m http \<Rightarrow> (bool, 'm downstream, 's) action" where
  "is_reading_request_body_finished H =
     abind (set_request_body_reader H) (\<lambda>u. aget (\<lambda>d. is_finished (ds_reader d)))"

definition is_request_body_empty :: "'m http \<Rightarrow> (bool, 'm downstream, 's) action" where
  "is_request_body_empty H =
     abind (set_request_body_reader H) (\<lambda>u. aget (\<lambda>d. is_body_empty (ds_reader d)))"

definition force_close_request_body_reader :: "'m downstream \<Rightarrow> 'm downstream" where
  "force_close_request_body_reader d =
     (if ds_upgrade d \<and> \<not> is_finished (ds_reader d)
      then d\<lparr>ds_reader := with_content_length_read 0 [] (ds_reader d)\<rparr> else d)"

definition ds_idle :: "'s io \<Rightarrow> (nat, 'm downstream, 's) action" where
  "ds_idle io st =
     (case io_read io 1 (snd st) of
        (Inl e, s') \<Rightarrow> (Err e, fst st, s') | (Inr bs, s') \<Rightarrow> (Ok (length bs), fst st, s'))"

definition read_request_body_or_idle ::
  "'m http \<Rightarrow> (bytes \<Rightarrow> chunk_status) \<Rightarrow> 's io \<Rightarrow> (bytes option, 'm downstream, 's) action" where
  "read_request_body_or_idle H pcs io =
     abind (is_reading_request_body_finished H) (\<lambda>fin.
       if fin
       then abind (ds_idle io) (\<lambda>n.
              if n = 0 then afail (Other ''connection closed'') else afail (Other ''connect error''))
       else read_request_body_bytes H pcs io)"

definition read_downstream_request ::
  "'m http \<Rightarrow> (bytes \<Rightarrow> chunk_status) \<Rightarrow> 's io \<Rightarrow> ('m task, 'm downstream, 's) action" where
  "read_downstream_request H pcs io =
     abind (read_request_body_or_idle H pcs io) (\<lambda>req_body.
     abind (if req_body = None then abind (aget (ds_is_request_upgrade H)) alift else areturn False) (\<lambda>up.
       if up then areturn TDone
       else abind (is_reading_request_body_finished H) (\<lambda>end_stream. areturn (TBody req_body end_stream))))"

text \<open>The session after a read of the request whose future is dropped: an idle read has done nothing.\<close>

definition request_read_dropped :: "'m http \<Rightarrow> 'm downstream \<times> 's \<Rightarrow> 'm downstream \<times> 's \<Rightarrow> bool" where
  "request_read_dropped H x x' \<longleftrightarrow>
     (case set_request_body_reader H x of
        (Ok u, d, s) \<Rightarrow>
          (if is_finished (ds_reader d) then x' = (d, s)
           else (case read_dropped (ds_reader d) of None \<Rightarrow> False | Some r \<Rightarrow> x' = (d\<lparr>ds_reader := r\<rparr>, s)))
      | _ \<Rightarrow> False)"

section \<open>Writing the response\<close>

definition response_body_mode ::
  "'m http \<Rightarrow> 'm response_header \<Rightarrow> 'm downstream \<Rightarrow> body_writer outcome" where
  "response_body_mode H rs d =
     (let w = ds_writer d
      in if rs_status rs = 204 \<or> rs_status rs = 304 then Ok (with_content_length_write 0 w)
         else
           bind_outcome (ds_get_method d) (\<lambda>m.
           if m = ''HEAD'' then Ok (with_content_length_write 0 w)
           else if is_informational (rs_status rs) \<and> rs_status rs \<noteq> 101 then Ok w
           else
             bind_outcome (ds_is_session_upgrade H rs d) (\<lambda>up.
             if up then Ok (with_until_closed_write w)
             else if is_header_value_chunk_encoding (rs_get_header H (KName ''transfer-encoding'') rs)
             then Ok (with_chunked_encoding_write w)
             else
               (case get_content_length_value (rs_get_header H (KName ''content-length'') rs) of
                  Some len \<Rightarrow> Ok (with_content_length_write len w)
                | None \<Rightarrow> Ok (with_until_closed_write w)))))"

definition set_response_body_writer ::
  "'m http \<Rightarrow> 'm response_header \<Rightarrow> (unit, 'm downstream, 's) action" where
  "set_response_body_writer H rs =
     abind (aget (response_body_mode H rs)) (\<lambda>w.
     abind (alift w) (\<lambda>w. asession (\<lambda>d. d\<lparr>ds_writer := w\<rparr>)))"

text \<open>
  The last conjunct of the code's condition is written out: it repeats the second one.
\<close>

definition is_ignoring_response_headers :: "'m http \<Rightarrow> nat \<Rightarrow> 'm downstream \<Rightarrow> bool outcome" where
  "is_ignoring_response_headers H status d =
     (if \<not> ds_ignore_headers d \<or> status = 100 then Ok False
      else if status = 100
      then bind_outcome (ds_is_request_expect_continue H d) (\<lambda>e. Ok (\<not> e))
      else Ok True)"

text \<open>The header with \<open>Date\<close> and \<open>Connection\<close>; \<open>date\<close> is the formatted current time.\<close>

definition updated_response_header ::
  "'m http \<Rightarrow> bytes \<Rightarrow> 'm response_header \<Rightarrow> 'm downstream \<Rightarrow> 'm response_header outcome" where
  "updated_response_header H date rs d =
     (if \<not> is_informational (rs_status rs) \<and> ds_update_headers d
      then
        bind_outcome (rs_insert_header H (KName ''date'') (VText date) rs) (\<lambda>rs1.
          rs_insert_header H (KName ''connection'')
            (VText (if ds_is_session_keepalive d then ''keep-alive'' else ''close'')) rs1)
      else Ok rs)"

definition already_responded :: "'m downstream \<Rightarrow> bool" where
  "already_responded d =
     (case ds_response d of
        None \<Rightarrow> False
      | Some sent \<Rightarrow> \<not> is_informational (rs_status sent) \<or> ds_upgrade d)"

text \<open>What happens to the session before a final header (or 101) is written.\<close>

definition prepare_final ::
  "'m http \<Rightarrow> 'm response_header \<Rightarrow> (unit, 'm downstream, 's) action" where
  "prepare_final H rs =
     abind (asession (\<lambda>d. if rs_status rs = 101 then ds_set_keepalive None d else d)) (\<lambda>u.
       if rs_status rs = 101 \<or> \<not> is_informational (rs_status rs)
       then
         abind (aget (ds_is_session_upgrade H rs)) (\<lambda>up.
         abind (alift up) (\<lambda>up.
         abind (asession (\<lambda>d. if up then d\<lparr>ds_upgrade := True\<rparr>
                              else d\<lparr>ds_reader := with_content_length_read 0 [] (ds_reader d)\<rparr>)) (\<lambda>u.
           set_response_body_writer H rs)))
       else areturn ())"

definition send_response_header ::
  "'m http \<Rightarrow> 's io \<Rightarrow> 'm response_header \<Rightarrow> (unit, 'm downstream, 's) action" where
  "send_response_header H io rs =
     abind (alift (rs_build_to_buffer H rs)) (\<lambda>buf.
     abind (amap_err (Wrapped ''error writing response header: '') (awrite_all io buf)) (\<lambda>u.
     abind (aget (\<lambda>d. finished (ds_writer d))) (\<lambda>fin.
     abind (if is_informational (rs_status rs) \<or> rs_get_header H (KName ''content-length'') rs = None \<or> fin
            then aflush io else areturn ()) (\<lambda>u.
       asession (\<lambda>d. d\<lparr>ds_response := Some rs, ds_write_size := ds_write_size d + length buf\<rparr>)))))"

definition write_response_headers ::
  "'m http \<Rightarrow> 's io \<Rightarrow> bytes \<Rightarrow> 'm response_header \<Rightarrow> (unit, 'm downstream, 's) action" where
  "write_response_headers H io date rs =
     abind (aget (\<lambda>d. if is_informational (rs_status rs)
                      then is_ignoring_response_headers H (rs_status rs) d else Ok False)) (\<lambda>ign.
     abind (alift ign) (\<lambda>ign.
       if ign then areturn ()
       else
         abind (aget already_responded) (\<lambda>sent.
           if sent then areturn ()
           else
             abind (aget (updated_response_header H date rs)) (\<lambda>rs1.
             abind (alift rs1) (\<lambda>rs1.
             abind (prepare_final H rs1) (\<lambda>u. send_response_header H io rs1))))))"

definition on_writer ::
  "(body_writer \<Rightarrow> 's \<Rightarrow> 'a outcome \<times> body_writer \<times> 's) \<Rightarrow> ('a, 'm downstream, 's) action" where
  "on_writer f st =
     (case f (ds_writer (fst st)) (snd st) of (res, w', s') \<Rightarrow> (res, (fst st)\<lparr>ds_writer := w'\<rparr>, s'))"

definition add_written :: "nat option \<Rightarrow> 'm downstream \<Rightarrow> 'm downstream" where
  "add_written n d = (case n of None \<Rightarrow> d | Some k \<Rightarrow> d\<lparr>ds_write_size := ds_write_size d + k\<rparr>)"

definition write_response_body :: "'s io \<Rightarrow> bytes \<Rightarrow> (nat option, 'm downstream, 's) action" where
  "write_response_body io buffer =
     abind (on_writer (write_body io buffer)) (\<lambda>n. abind (asession (add_written n)) (\<lambda>u. areturn n))"

text \<open>The vector buffer is cleared whether or not the write succeeded.\<close>

definition vectored_write_response_body :: "'s io \<Rightarrow> (nat option, 'm downstream, 's) action" where
  "vectored_write_response_body io st =
     (if ds_vec_buffer (fst st) = [] then (Ok None, st)
      else
        (case on_writer (write_body io (ds_vec_buffer (fst st))) st of
           (Panic p, st') \<Rightarrow> (Panic p, st')
         | (Err e, d', s') \<Rightarrow> (Err e, d'\<lparr>ds_vec_buffer := []\<rparr>, s')
         | (Ok n, d', s') \<Rightarrow> (Ok n, (add_written n d')\<lparr>ds_vec_buffer := []\<rparr>, s')))"

definition finish_writing_response_body :: "'s io \<Rightarrow> (nat option, 'm downstream, 's) action" where
  "finish_writing_response_body io =
     abind (on_writer (finish io)) (\<lambda>res.
     abind (aflush io) (\<lambda>u.
     abind (asession force_close_request_body_reader) (\<lambda>u. areturn res)))"

definition write_response_to_downstream ::
  "'m http \<Rightarrow> 's io \<Rightarrow> bytes \<Rightarrow> 'm task \<Rightarrow> (bool, 'm downstream, 's) action" where
  "write_response_to_downstream H io date task =
     abind
       (case task of
          THeader rs end_stream \<Rightarrow> abind (write_response_headers H io date rs) (\<lambda>u. areturn end_stream)
        | TBody (Some body) end_stream \<Rightarrow>
            (if body \<noteq> [] then abind (write_response_body io body) (\<lambda>n. areturn end_stream)
             else areturn end_stream)
        | TBody None end_stream \<Rightarrow> areturn end_stream
        | TTrailer \<Rightarrow> areturn True
        | TDone \<Rightarrow> areturn True
        | TFailed e \<Rightarrow> afail e)
       (\<lambda>end_stream.
          if end_stream then abind (finish_writing_response_body io) (\<lambda>n. areturn end_stream)
          else areturn end_stream)"

fun vectored_tasks ::
  "'m http \<Rightarrow> 's io \<Rightarrow> bytes \<Rightarrow> bool \<Rightarrow> 'm task list \<Rightarrow> (bool, 'm downstream, 's) action" where
  "vectored_tasks H io date end_stream [] = areturn end_stream"
| "vectored_tasks H io date end_stream (THeader rs e # tasks) =
     abind (write_response_headers H io date rs) (\<lambda>u. vectored_tasks H io date e tasks)"
| "vectored_tasks H io date end_stream (TBody (Some body) e # tasks) =
     abind (asession (\<lambda>d. d\<lparr>ds_vec_buffer := ds_vec_buffer d @ body\<rparr>))
       (\<lambda>u. vectored_tasks H io date e tasks)"
| "vectored_tasks H io date end_stream (TBody None e # tasks) = vectored_tasks H io date e tasks"
| "vectored_tasks H io date end_stream (TTrailer # tasks) = vectored_tasks H io date True tasks"
| "vectored_tasks H io date end_stream (TDone # tasks) = vectored_tasks H io date True tasks"
| "vectored_tasks H io date end_stream (TFailed err # tasks) =
     abind (vectored_write_response_body io) (\<lambda>n. abind (aflush io) (\<lambda>u. afail err))"

definition vectored_write_response_to_downstream ::
  "'m http \<Rightarrow> 's io \<Rightarrow> bytes \<Rightarrow> 'm task list \<Rightarrow> (bool, 'm downstream, 's) action" where
  "vectored_write_response_to_downstream H io date tasks =
     abind (vectored_tasks H io date False tasks) (\<lambda>end_stream.
     abind (vectored_write_response_body io) (\<lambda>n.
       if end_stream then abind (finish_writing_response_body io) (\<lambda>m. areturn end_stream)
       else areturn end_stream))"

definition write_downstream_response ::
  "'m http \<Rightarrow> 's io \<Rightarrow> bytes \<Rightarrow> 'm task list \<Rightarrow> (bool, 'm downstream, 's) action" where
  "write_downstream_response H io date tasks =
     (case tasks of
        [] \<Rightarrow> areturn True
      | [t] \<Rightarrow> write_response_to_downstream H io date t
      | ts \<Rightarrow> vectored_write_response_to_downstream H io date ts)"

section \<open>Reading through the session\<close>

definition note_piece :: "bytes \<Rightarrow> 'm downstream \<Rightarrow> 'm downstream" where
  "note_piece bs d =
     d\<lparr>ds_read_size := ds_read_size d + length bs, ds_retry := map_option (write_buffer bs) (ds_retry d)\<rparr>"

abbreviation request_piece ::
  "'m http \<Rightarrow> (bytes \<Rightarrow> chunk_status) \<Rightarrow> 's io \<Rightarrow> 'm downstream \<Rightarrow> 's \<Rightarrow> bytes option outcome \<times> 'm downstream \<times> 's"
  where "request_piece H pcs io d s \<equiv> read_request_body_bytes H pcs io (d, s)"

lemma request_piece_eq:
  assumes "\<not> is_start (ds_reader d)"
  shows "request_piece H pcs io d s =
     (case read_piece pcs io (ds_reader d) s of
        (Ok (Some bs), r', s') \<Rightarrow> (Ok (Some bs), note_piece bs (d\<lparr>ds_reader := r'\<rparr>), s')
      | (Ok None, r', s') \<Rightarrow> (Ok None, d\<lparr>ds_reader := r'\<rparr>, s')
      | (Err e, r', s') \<Rightarrow> (Err e, d\<lparr>ds_reader := r'\<rparr>, s')
      | (Panic p, r', s') \<Rightarrow> (Panic p, d\<lparr>ds_reader := r'\<rparr>, s'))"
  using assms
  by (auto simp: read_request_body_bytes_def read_request_body_def set_request_body_reader_def
        on_reader_def abind_def action_defs read_piece_def note_piece_def
        split: outcome.splits option.splits prod.splits)

lemma request_piece_lifts:
  assumes "\<not> is_start (ds_reader d)" "read_piece pcs io (ds_reader d) s = (res, r', s')"
  shows "\<exists>d'. request_piece H pcs io d s = (res, d', s') \<and> ds_reader d' = r'"
  using assms
  by (auto simp: request_piece_eq note_piece_def split: outcome.splits option.splits)

interpretation ds_content_length: session_source "read_piece pcs io" "content_length_rep io pending"
  "\<lambda>r s. partial_left (read_state r)" "\<lambda>n r. read_state r = RCompleted n"
  "request_piece H pcs io" ds_reader "\<lambda>r. \<not> is_start r"
  for pcs :: "bytes \<Rightarrow> chunk_status" and io :: "'s io" and pending and H :: "'m http"
  by (unfold_locales, erule (1) request_piece_lifts)
    (auto simp: content_length_rep_def is_start_def)

interpretation ds_until_closed: session_source "read_piece pcs io" "until_closed_rep io pending"
  "\<lambda>r s. length (rewound r) + length (pending s)" "\<lambda>n r. read_state r = RCompleted n"
  "request_piece H pcs io" ds_reader "\<lambda>r. \<not> is_start r"
  for pcs :: "bytes \<Rightarrow> chunk_status" and io :: "'s io" and pending and H :: "'m http"
  by (unfold_locales, erule (1) request_piece_lifts)
    (auto simp: until_closed_rep_def is_start_def)

interpretation ds_chunked: session_source "read_piece pcs io" "chunked_rep pcs io pending lh extra"
  "\<lambda>r s. work r (pending s)" "\<lambda>n r. read_state r = RCompleted n"
  "request_piece H pcs io" ds_reader "\<lambda>r. \<not> is_start r"
  for pcs :: "bytes \<Rightarrow> chunk_status" and io :: "'s io" and pending lh extra and H :: "'m http"
  by (unfold_locales, erule (1) request_piece_lifts)
    (auto simp: chunked_rep_def decoding_def is_start_def)

text \<open>What a read of a body leaves in the retry buffer.\<close>

lemma request_drain_retry:
  assumes "drain (request_piece H pcs io) fuel d s = Some (Ok bss, d', s')" "\<not> is_start (ds_reader d)"
    and "ds_retry d = Some sb"
  shows "ds_retry d' = Some (write_buffers bss sb)"
  using assms
proof (induction fuel arbitrary: d s sb bss)
  case 0
  then show ?case by simp
next
  case (Suc fuel)
  obtain res r1 s1 where p: "read_piece pcs io (ds_reader d) s = (res, r1, s1)" by (metis prod_cases3)
  have r1: "\<not> is_start r1"
  proof -
    obtain o1 r2 s2 where b: "read_body pcs io (ds_reader d) s = (o1, r2, s2)" by (metis prod_cases3)
    with Suc.prems(2) have "read_state r2 \<noteq> RStart" by (auto simp: is_start_def dest: read_body_not_start)
    moreover have "r1 = r2" using p b
      by (auto simp: read_piece_def split: outcome.splits option.splits)
    ultimately show ?thesis by (simp add: is_start_def)
  qed
  show ?case
  proof (cases "\<exists>bs. res = Ok (Some bs)")
    case True
    then obtain bs where res: "res = Ok (Some bs)" by blast
    let ?d = "note_piece bs (d\<lparr>ds_reader := r1\<rparr>)"
    have eq: "request_piece H pcs io d s = (Ok (Some bs), ?d, s1)"
      using request_piece_eq [OF Suc.prems(2), of H pcs io s] p res by simp
    with Suc.prems(1) obtain rest where rest: "bss = bs # rest"
        "drain (request_piece H pcs io) fuel ?d s1 = Some (Ok rest, d', s')"
      by (auto split: option.splits outcome.splits)
    have "ds_retry d' = Some (write_buffers rest (write_buffer bs sb))"
      using r1 Suc.prems(3) by (intro Suc.IH [OF rest(2)]) (simp_all add: note_piece_def)
    then show ?thesis using rest(1) by (simp add: write_buffers_def)
  next
    case False
    with Suc.prems request_piece_eq [OF Suc.prems(2), of H pcs io s] p show ?thesis
      by (auto simp: write_buffers_def split: outcome.splits option.splits)
  qed
qed

lemma retry_after_writes:
  assumes "ds_retry d = Some (write_buffers bss (storage_new body_buf_limit))"
  shows "get_retry_buffer d =
     (if concat bss \<noteq> [] \<and> length (concat bss) \<le> body_buf_limit then Some (concat bss) else None)"
proof -
  have "storage_holds ([] @ bss) (write_buffers bss (storage_new body_buf_limit))"
    by (rule storage_holds_writes [OF storage_holds_new])
  then show ?thesis
    using assms
    by (auto simp: get_retry_buffer_def is_retry_buffer_truncated_def storage_facts storage_new_def)
qed

text \<open>The first read of a body sets the mode and reads.\<close>

lemma drain_first:
  assumes "piece d s = piece d' s"
  shows "drain piece fuel d s = drain piece fuel d' s"
  using assms by (cases fuel) simp_all

lemma request_piece_set:
  assumes "set_request_body_reader H (d, s) = (Ok (), d', s)" "\<not> is_start (ds_reader d')"
  shows "request_piece H pcs io d s = request_piece H pcs io d' s"
proof -
  have "set_request_body_reader H (d', s) = (Ok (), d', s)"
    using assms(2) by (simp add: set_request_body_reader_def)
  with assms(1) show ?thesis
    by (simp add: read_request_body_bytes_def read_request_body_def abind_def)
qed

lemma set_buffer_rewinds:
  assumes "rewind_buf_size r = 0 \<or> rewind_buf_size r = length rewind" "body_size r = body_buffer_size"
    "length rewind < usize_mod"
  shows "buffered (set_buffer rewind r)" "rewound (set_buffer rewind r) = rewind"
  using assms
  by (auto simp: buffered_def rewound_def set_buffer_def body_buffer_size_def usize_mod_def Let_def)

lemma apply_keepalive_total:
  assumes "ds_request d = Some rq"
  shows "\<exists>k. ds_apply_session_keepalive H d = Ok (d\<lparr>ds_keepalive := k\<rparr>)"
proof -
  obtain ka where ka: "ds_is_connection_keepalive H d = Ok ka"
    using assms by (simp add: ds_is_connection_keepalive_def ds_get_header_def ds_get_request_def)
  consider "ka = Some True" | "ka = Some False" | "ka = None" by (cases ka) auto
  then show ?thesis
  proof cases
    case 3
    have "ds_get_version d = Ok (rq_version rq)"
      using assms by (simp add: ds_get_version_def ds_get_request_def)
    with 3 ka show ?thesis
      by (cases "rq_version rq = HTTP_11") (auto simp: ds_apply_session_keepalive_def ds_set_keepalive_def)
  qed (use ka in \<open>auto simp: ds_apply_session_keepalive_def ds_set_keepalive_def ds_get_keepalive_value_def\<close>)
qed

lemma read_request_complete:
  assumes "delivers_buf io pending" "parses_head parse head p" "length head \<le> Suc max_buffer_size"
    and "\<And>x. assemble_request H (head @ x) p = Ok rq" "pending s = head @ rest"
  obtains d1 s1 extra where "read_request H parse io (d, s) = (Ok (), d1, s1)"
    "rest = extra @ pending s1" "ds_buffer d1 = head @ extra"
    "ds_body_offset d1 = Some (Offset (length head) (length (head @ extra)))"
    "ds_request d1 = Some rq" "ds_reader d1 = re_start (ds_reader d)" "ds_retry d1 = ds_retry d"
proof -
  have "strict_prefix [] head" using assms(2) by (auto simp: parses_head_def strict_prefix_def)
  then obtain extra s1 where hd: "read_head parse io [] s = (HeadParsed (head @ extra) (length head) p, s1)"
      "rest = extra @ pending s1"
    using read_head_complete [OF assms(1-3)] assms(5) by (metis append_Nil)
  define d0 where "d0 = d\<lparr>ds_buffer := [], ds_headers_offset := Some (Offset 0 (length head)),
      ds_body_offset := Some (Offset (length head) (length (head @ extra)))\<rparr>"
  define d1 where "d1 = d0\<lparr>ds_buffer := head @ extra, ds_request := Some rq,
      ds_reader := re_start (ds_reader d0), ds_response := None\<rparr>"
  obtain k where k: "ds_apply_session_keepalive H d1 = Ok (d1\<lparr>ds_keepalive := k\<rparr>)"
    using apply_keepalive_total [of d1 rq H] by (auto simp: d1_def)
  have rr: "read_request H parse io (d, s) = (Ok (), d1\<lparr>ds_keepalive := k\<rparr>, s1)"
    using hd(1) assms(4) k unfolding read_request_def d1_def d0_def by simp
  show ?thesis
    by (rule that [OF rr hd(2)]) (simp_all add: d1_def d0_def)
qed

lemma set_reader_after_head:
  assumes "ds_buffer d = head @ extra" "ds_body_offset d = Some (Offset (length head) (length (head @ extra)))"
    "ds_request d = Some rq" "is_start (ds_reader d)"
  shows "set_request_body_reader H (d, s) =
     (Ok (), d\<lparr>ds_retry := map_option clear_buffer (ds_retry d),
               ds_reader := request_body_mode H rq extra (ds_reader d)\<rparr>, s)"
  using assms
  by (simp add: set_request_body_reader_def Let_def ds_get_request_def get_slice_def slice_def)

text \<open>A reader set to a content length, right after the head: the body's bytes are all before it.\<close>

lemma content_length_rep_starts:
  assumes "delivers io pending" "body @ rest = extra @ pending s" "length (body @ rest) < usize_mod"
    and "rewind_buf_size r0 = 0 \<or> rewind_buf_size r0 = length extra" "body_size r0 = body_buffer_size"
  shows "content_length_rep io pending 0 body (with_content_length_read (length body) extra r0) s"
proof (cases "body = []")
  case True
  then show ?thesis using assms(1) by (simp add: content_length_rep_def with_content_length_read_def)
next
  case False
  have small: "length extra < usize_mod" "length body < usize_mod"
    using assms(3) arg_cong [OF assms(2), of length] by simp_all
  have "with_content_length_read (length body) extra r0 = (set_buffer extra r0)\<lparr>read_state := RPartial 0 (length body)\<rparr>"
    using False by (simp add: with_content_length_read_def)
  then show ?thesis
    using set_buffer_rewinds [OF assms(4,5) small(1)] assms(1,2) False small(2)
    by (auto simp: content_length_rep_def buffered_def rewound_def prefix_def intro!: exI [of _ rest])
qed

lemma content_length_after_head:
  assumes "delivers io pending" "body @ rest = extra @ pending s" "length (body @ rest) < usize_mod"
    and "\<not> is_header_value_chunk_encoding (rq_get_header H (KName ''transfer-encoding'') rq)"
    and "get_content_length_value (rq_get_header H (KName ''content-length'') rq) = Some (length body)"
  shows "content_length_rep io pending 0 body (request_body_mode H rq extra body_reader_new) s"
proof -
  define r0 where "r0 = (if rq_version rq = HTTP_11 \<and> is_request_upgrade H rq
                         then with_until_closed_read extra body_reader_new else body_reader_new)"
  have r: "request_body_mode H rq extra body_reader_new = with_content_length_read (length body) extra r0"
    using assms(4,5) by (simp add: r0_def request_body_mode_def Let_def)
  have "rewind_buf_size r0 = 0 \<or> rewind_buf_size r0 = length extra" "body_size r0 = body_buffer_size"
    by (auto simp: r0_def with_until_closed_read_def set_buffer_def body_reader_new_def Let_def)
  from content_length_rep_starts [OF assms(1-3) this] show ?thesis unfolding r .
qed

text \<open>A request for the witnesses: its head, what the parser says of it, and the header assembled from that.\<close>

definition post_parsed :: parsed_request where
  "post_parsed = \<lparr>pq_method = Some ''POST'', pq_path = Some ''/'', pq_version = Some 1,
      pq_headers = [\<lparr>sp_name_start = 5, sp_name_len = 14, sp_value_start = 20, sp_value_len = 1\<rparr>]\<rparr>"

abbreviation (input) post_parse :: "bytes \<Rightarrow> parsed_request parse_status" where
  "post_parse \<equiv> prefix_parser ''POST content-length 5'' post_parsed"

definition post_request :: "(string \<times> string) list request_header" where
  "post_request = \<lparr>rq_method = ''POST'', rq_uri = ''/'', rq_version = HTTP_11,
      rq_headers = [(''content-length'', ''5'')], rq_case = [(''content-length'', ''content-length'')],
      rq_raw_path = ''/''\<rparr>"

lemma post_request_head:
  "parses_head post_parse ''POST content-length 5'' post_parsed"
  "assemble_request list_http (''POST content-length 5'' @ x) post_parsed = Ok post_request"
  "length ''POST content-length 5'' \<le> Suc max_buffer_size"
proof -
  show "parses_head post_parse ''POST content-length 5'' post_parsed" by (rule prefix_parser_law) simp
  have "name_of list_http ''content-length'' = Some ''content-length''" by code_simp
  moreover have "rq_build list_http ''POST'' ''/'' HTTP_11 = Ok (post_request\<lparr>rq_headers := [], rq_case := []\<rparr>)" by code_simp
  ultimately show "assemble_request list_http (''POST content-length 5'' @ x) post_parsed = Ok post_request"
    by (simp add: assemble_request_def header_offsets_def kv_offset_new_def kv_get_key_bytes_def post_parsed_def post_request_def
          kv_get_value_bytes_def get_slice_def slice_def unwrap_or_def parsed_version_def rq_append_header_def
          usize_mod_def del: list_http_ops(7))
qed (simp add: max_buffer_size_def)

lemma post_request_length:
  "\<not> is_header_value_chunk_encoding (rq_get_header list_http (KName ''transfer-encoding'') post_request)"
  "get_content_length_value (rq_get_header list_http (KName ''content-length'') post_request) = Some 5"
proof -
  show "\<not> is_header_value_chunk_encoding (rq_get_header list_http (KName ''transfer-encoding'') post_request)" by code_simp
  show "get_content_length_value (rq_get_header list_http (KName ''content-length'') post_request) = Some 5"
    by (simp add: post_request_def rq_get_header_def hm_get_def get_content_length_value_def from_utf8_def parse_i64_def
          byte_def digit_value_def between_def)
qed

section \<open>Properties\<close>

text \<open>
  C16 (functional). A request with a content length is received completely: for every segmentation of
  head and body by the network, \<open>read_request\<close> yields the parsed header, reading the body yields
  exactly the stated bytes, and the retry buffer holds the whole body if it fits into 64 KiB and
  nothing otherwise.
\<close>

theorem downstream_request_delivered:
  assumes "delivers io pending" "delivers_buf io pending"
    and "parses_head parse head p" "length head \<le> Suc max_buffer_size"
    and "\<And>x. assemble_request H (head @ x) p = Ok rq"
    and "pending s = head @ body @ rest" "length (pending s) < usize_mod"
    and "\<not> is_header_value_chunk_encoding (rq_get_header H (KName ''transfer-encoding'') rq)"
    and "get_content_length_value (rq_get_header H (KName ''content-length'') rq) = Some (length body)"
  shows "\<exists>d1 s1 bss d2 s2.
     read_request H parse io (downstream_new, s) = (Ok (), d1, s1) \<and> ds_request d1 = Some rq \<and>
     drain (request_piece H pcs io) (length body + 2) (enable_retry_buffer d1) s1 = Some (Ok bss, d2, s2) \<and>
     concat bss = body \<and>
     get_retry_buffer d2 = (if body \<noteq> [] \<and> length body \<le> body_buf_limit then Some body else None)"
proof -
  have fresh: "ds_reader downstream_new = body_reader_new" "read_state body_reader_new = RStart"
      "rewind_buf_size body_reader_new = 0" "body_size body_reader_new = body_buffer_size"
      "ds_retry downstream_new = None"
    by (simp_all add: downstream_new_def body_reader_new_def)
  have start: "re_start body_reader_new = body_reader_new" using fresh by (simp add: re_start_def)
  obtain d1 s1 extra where head: "read_request H parse io (downstream_new, s) = (Ok (), d1, s1)"
      "body @ rest = extra @ pending s1" "ds_buffer d1 = head @ extra"
      "ds_body_offset d1 = Some (Offset (length head) (length (head @ extra)))"
      "ds_request d1 = Some rq" "ds_reader d1 = body_reader_new" "ds_retry d1 = None"
    using read_request_complete [OF assms(2-6), of downstream_new] fresh start by metis
  define r where "r = request_body_mode H rq extra body_reader_new"
  define d2 where "d2 = (enable_retry_buffer d1)\<lparr>ds_retry := Some (storage_new body_buf_limit), ds_reader := r\<rparr>"
  have d1: "ds_reader (enable_retry_buffer d1) = body_reader_new"
      "ds_retry (enable_retry_buffer d1) = Some (storage_new body_buf_limit)"
      "ds_buffer (enable_retry_buffer d1) = head @ extra" "ds_request (enable_retry_buffer d1) = Some rq"
      "ds_body_offset (enable_retry_buffer d1) = Some (Offset (length head) (length (head @ extra)))"
    using head by (simp_all add: enable_retry_buffer_def)
  have clear: "clear_buffer (storage_new body_buf_limit) = storage_new body_buf_limit"
    by (simp add: clear_buffer_def storage_new_def)
  have set: "set_request_body_reader H (enable_retry_buffer d1, s1) = (Ok (), d2, s1)"
    using set_reader_after_head [OF d1(3,5,4), of H s1] d1(1,2) fresh clear
    by (simp add: is_start_def d2_def r_def)
  have rep: "content_length_rep io pending 0 body (ds_reader d2) s1"
    using content_length_after_head [OF assms(1) head(2) _ assms(8,9)] assms(6,7) by (simp add: d2_def r_def)
  then have ready: "\<not> is_start (ds_reader d2)" by (auto simp: content_length_rep_def is_start_def)
  have "partial_left (read_state (ds_reader d2)) < length body + 2"
    using rep by (auto simp: content_length_rep_def)
  from ds_content_length.session.drain_delivers [where H = H and pcs = pcs, OF rep this] obtain bss d3 s3 where
    all: "drain (request_piece H pcs io) (length body + 2) d2 s1 = Some (Ok bss, d3, s3)" "concat bss = body"
    by blast
  have "get_retry_buffer d3 = (if body \<noteq> [] \<and> length body \<le> body_buf_limit then Some body else None)"
    using retry_after_writes [OF request_drain_retry [OF all(1) ready]] d1(2) all(2) by (simp add: d2_def)
  moreover have "drain (request_piece H pcs io) (length body + 2) (enable_retry_buffer d1) s1
      = drain (request_piece H pcs io) (length body + 2) d2 s1"
    by (rule drain_first) (rule request_piece_set [OF set ready])
  ultimately show ?thesis
    using head(1,5) all by auto
qed

lemma downstream_request_delivered_witness:
  "\<exists>d1 s1 bss d2 s2.
     read_request list_http post_parse
       script_io (downstream_new, \<lparr>rx = [''POST content-'', ''length 5he'', ''llo, next''], tx = []\<rparr>)
       = (Ok (), d1, s1) \<and>
     drain (request_piece list_http (hex_line 0 0) script_io) 7 (enable_retry_buffer d1) s1
       = Some (Ok bss, d2, s2) \<and>
     concat bss = ''hello'' \<and> get_retry_buffer d2 = Some ''hello''"
proof -
  let ?s = "\<lparr>rx = [''POST content-'', ''length 5he'', ''llo, next''], tx = []\<rparr>"
  have pend: "concat (rx ?s) = ''POST content-length 5'' @ ''hello'' @ '', next''" by simp
  have small: "length (concat (rx ?s)) < usize_mod" by (simp add: usize_mod_def)
  have eqs: "length ''hello'' + 2 = 7"
      "(if ''hello'' \<noteq> [] \<and> length ''hello'' \<le> body_buf_limit then Some ''hello'' else None) = Some ''hello''"
    by (simp_all add: body_buf_limit_def)
  have "get_content_length_value (rq_get_header list_http (KName ''content-length'') post_request) = Some (length ''hello'')"
    using post_request_length(2) by simp
  from downstream_request_delivered [where pending = "\<lambda>s. concat (rx s)" and s = ?s and body = "''hello''" and rest = "'', next''"
        and pcs = "hex_line 0 0", OF script_delivers script_delivers_buf post_request_head(1,3,2) pend small post_request_length(1) this]
  show ?thesis unfolding eqs by blast
qed

text \<open>
  The mode an upgrade request is given, reading until the connection closes,
  does not survive: a request without body headers ends up with an empty body, so the client's bytes
  after an upgrade are never forwarded.
\<close>

theorem upgrade_mode_overwritten:
  assumes "rq_version rq = HTTP_11" "is_request_upgrade H rq"
    and "\<not> is_header_value_chunk_encoding (rq_get_header H (KName ''transfer-encoding'') rq)"
    and "get_content_length_value (rq_get_header H (KName ''content-length'') rq) = None"
  shows "read_state (request_body_mode H rq body r) = RCompleted 0"
  using assms by (simp add: request_body_mode_def Let_def with_content_length_read_def)

lemma upgrade_mode_overwritten_witness:
  "read_state (request_body_mode list_http
      \<lparr>rq_method = ''GET'', rq_uri = ''/'', rq_version = HTTP_11, rq_headers = [(''upgrade'', ''websocket'')],
       rq_case = [(''upgrade'', ''Upgrade'')], rq_raw_path = ''/''\<rparr> ''frame'' body_reader_new) = RCompleted 0"
  by (rule upgrade_mode_overwritten)
    (simp_all add: is_request_upgrade_def rq_get_header_def hm_get_def is_header_value_chunk_encoding_def
       get_content_length_value_def)

lemma set_response_body_writer_reader:
  "set_response_body_writer H rs (d, s) = (Ok u, d', s') \<Longrightarrow> ds_reader d' = ds_reader d \<and> ds_request d' = ds_request d"
  by (auto simp: set_response_body_writer_def abind_def action_defs split: outcome.splits)

lemma send_response_header_reader:
  "send_response_header H io rs (d, s) = (Ok u, d', s') \<Longrightarrow> ds_reader d' = ds_reader d \<and> ds_request d' = ds_request d"
  by (auto simp: send_response_header_def abind_def action_defs
        split: outcome.splits prod.splits sum.splits if_splits)

lemma updated_header_status:
  "updated_response_header H date rs d = Ok rs' \<Longrightarrow> rs_status rs' = rs_status rs"
  by (auto simp: updated_response_header_def rs_insert_header_def
        simp del: header_pair.simps split: if_splits)

lemma final_header_reader:
  assumes "\<not> is_informational (rs_status rs)" "ds_request d = Some rq" "\<not> is_request_upgrade H rq"
    and "\<not> already_responded d" "write_response_headers H io date rs (d, s) = (Ok (), d', s')"
  shows "read_state (ds_reader d') = RCompleted 0"
proof -
  have st: "rs_status rs \<noteq> 101" using assms(1) by (auto simp: is_informational_def)
  obtain rs1 where rs1: "updated_response_header H date rs d = Ok rs1"
    using assms(1,4,5)
    by (cases "updated_response_header H date rs d")
      (auto simp: write_response_headers_def abind_def action_defs)
  note status = updated_header_status [OF rs1]
  obtain d1 s1 where prep: "prepare_final H rs1 (d, s) = (Ok (), d1, s1)"
      "send_response_header H io rs1 (d1, s1) = (Ok (), d', s')"
    using assms(1,4,5) rs1
    by (auto simp: write_response_headers_def abind_def action_defs split: outcome.splits prod.splits)
  have "ds_is_session_upgrade H rs1 d = Ok False"
    using assms(2,3) by (simp add: ds_is_session_upgrade_def ds_is_request_upgrade_def ds_get_request_def)
  then have "set_response_body_writer H rs1 (d\<lparr>ds_reader := with_content_length_read 0 [] (ds_reader d)\<rparr>, s)
      = (Ok (), d1, s1)"
    using prep(1) assms(1) st status by (simp add: prepare_final_def action_defs abind_def)
  with set_response_body_writer_reader [OF this] send_response_header_reader [OF prep(2)]
  show ?thesis by (simp add: with_content_length_read_def)
qed

text \<open>
  C40 (safety, code bug). As soon as a final response header has been written, the request body reader
  of a request that is no upgrade is reset to an empty, finished body: when the upstream answers
  before the request body has been read, the rest of the body is not forwarded; the session idles
  on the socket instead, and the next byte of the body is reported as an error.
\<close>

theorem final_header_drops_request_body:
  assumes "\<not> is_informational (rs_status rs)" "ds_request d = Some rq" "\<not> is_request_upgrade H rq"
    and "\<not> already_responded d" "write_response_headers H io date rs (d, s) = (Ok (), d', s')"
    and "io_read io 1 s' = (Inr [b], t)"
  shows "is_reading_request_body_finished H (d', s') = (Ok True, d', s') \<and>
         read_downstream_request H pcs io (d', s') = (Err (Other ''connect error''), d', t)"
proof -
  have "read_state (ds_reader d') = RCompleted 0"
    using final_header_reader [OF assms(1-5)] .
  then have fin: "is_reading_request_body_finished H (d', s') = (Ok True, d', s')"
    by (simp add: is_reading_request_body_finished_def set_request_body_reader_def is_start_def
          is_finished_def abind_def aget_def)
  with assms(6) show ?thesis
    by (simp add: read_downstream_request_def read_request_body_or_idle_def abind_def ds_idle_def afail_def)
qed

definition example_downstream :: "entries downstream" where
  "example_downstream =
     \<lparr>ds_buffer = [], ds_vec_buffer = [], ds_retry = None, ds_headers_offset = None, ds_body_offset = None,
      ds_request = Some \<lparr>rq_method = ''POST'', rq_uri = ''/'', rq_version = HTTP_11,
        rq_headers = [(''content-length'', ''10'')], rq_case = [(''content-length'', ''Content-Length'')],
        rq_raw_path = ''/''\<rparr>,
      ds_response = None, ds_writer = body_writer_new,
      ds_reader = \<lparr>read_state = RPartial 0 10, body_buffer = Some ''..........'', body_size = 10, rewind_buf_size = 0\<rparr>,
      ds_write_size = 0, ds_read_size = 0, ds_keepalive = KInfinite, ds_upgrade = False,
      ds_update_headers = False, ds_ignore_headers = False\<rparr>"

definition example_response :: "entries response_header" where
  "example_response = \<lparr>rs_status = 404, rs_version = HTTP_11, rs_headers = [], rs_case = [], rs_reason = None\<rparr>"

lemma final_header_drops_request_body_witness:
  "\<exists>d' s' t. write_response_headers list_http script_io ''now'' example_response
       (example_downstream, \<lparr>rx = [''0123456789''], tx = []\<rparr>) = (Ok (), d', s') \<and>
     read_downstream_request list_http (hex_line 0 0) script_io (d', s') = (Err (Other ''connect error''), d', t)"
proof -
  let ?run = "write_response_headers list_http script_io ''now'' example_response
       (example_downstream, \<lparr>rx = [''0123456789''], tx = []\<rparr>)"
  obtain d' s' where run: "?run = (fst ?run, d', s')" by (metis prod.collapse)
  have ok: "fst ?run = Ok ()" and rd: "fst (io_read script_io 1 (snd (snd ?run))) = Inr ''0''"
    by (simp_all add: write_response_headers_def abind_def action_defs already_responded_def
          updated_response_header_def prepare_final_def send_response_header_def set_response_body_writer_def
          response_body_mode_def example_response_def example_downstream_def is_informational_def
          ds_is_session_upgrade_def ds_is_request_upgrade_def ds_get_request_def is_request_upgrade_def
          rq_get_header_def hm_get_def rs_get_header_def is_header_value_chunk_encoding_def ds_get_method_def
          get_content_length_value_def rs_build_to_buffer_def raw_version_def script_io_def Let_def)
  obtain t where t: "io_read script_io 1 s' = (Inr ''0'', t)"
    using rd run by (metis prod.collapse snd_conv)
  have "\<not> is_informational (rs_status example_response)" "\<not> already_responded example_downstream"
    by (simp_all add: example_response_def example_downstream_def is_informational_def already_responded_def)
  from final_header_drops_request_body [OF this(1) _ _ this(2) run [unfolded ok] t, of _ "hex_line 0 0"]
  show ?thesis
    using run ok by (auto simp: example_downstream_def is_request_upgrade_def rq_get_header_def hm_get_def)
qed

section \<open>Batches of response tasks\<close>

text \<open>
  The proxy loop hands the session whatever tasks have arrived, in one batch: a single task is written
  at once, several are collected in the vector buffer and written with one body write.
\<close>

fun write_batches ::
  "'m http \<Rightarrow> 's io \<Rightarrow> bytes \<Rightarrow> 'm task list list \<Rightarrow> (bool, 'm downstream, 's) action" where
  "write_batches H io date [] = areturn False"
| "write_batches H io date (b # bs) =
     abind (write_downstream_response H io date b)
       (\<lambda>e. if e then areturn True else write_batches H io date bs)"

definition body_task :: "bytes \<Rightarrow> 'm task" where
  "body_task b = TBody (Some b) False"

text \<open>
  What a body mode may put on the wire for the body bytes \<open>bs\<close>: the bytes themselves (up to the
  content length), or non-empty chunks that make them up.
\<close>

fun body_on_wire :: "write_state \<Rightarrow> bytes \<Rightarrow> bytes \<Rightarrow> bool" where
  "body_on_wire (WContentLength tot written) bs out \<longleftrightarrow> out = take (tot - written) bs"
| "body_on_wire (WChunkedEncoding written) bs out \<longleftrightarrow>
     (\<exists>ps. [] \<notin> set ps \<and> concat ps = bs \<and> out = concat (map chunk ps))"
| "body_on_wire (WHTTP10 written) bs out \<longleftrightarrow> out = bs"
| "body_on_wire q bs out \<longleftrightarrow> False"

fun advance :: "nat \<Rightarrow> write_state \<Rightarrow> write_state" where
  "advance n (WContentLength tot written) = WContentLength tot (min tot (written + n))"
| "advance n (WChunkedEncoding written) = WChunkedEncoding (written + n)"
| "advance n (WHTTP10 written) = WHTTP10 (written + n)"
| "advance n q = q"

fun writing :: "write_state \<Rightarrow> bool" where
  "writing (WContentLength tot written) \<longleftrightarrow> written \<le> tot"
| "writing (WChunkedEncoding written) \<longleftrightarrow> True"
| "writing (WHTTP10 written) \<longleftrightarrow> True"
| "writing q \<longleftrightarrow> False"

lemma writing_advance: "writing q \<Longrightarrow> writing (advance n q)"
  by (cases q) auto

lemma advance_add: "writing q \<Longrightarrow> advance m (advance n q) = advance (n + m) q"
  by (cases q) auto

lemma advance_0: "writing q \<Longrightarrow> advance 0 q = q"
  by (cases q) auto

lemma on_wire_nil: "writing q \<Longrightarrow> body_on_wire q [] []"
  by (cases q) (auto intro: exI [of _ "[]"])

lemma on_wire_append:
  assumes "writing q" "body_on_wire q xs out" "body_on_wire (advance (length xs) q) ys out'"
  shows "body_on_wire q (xs @ ys) (out @ out')"
proof (cases q)
  case (WContentLength tot written)
  then have "tot - min tot (written + length xs) = tot - written - length xs" by auto
  with WContentLength assms show ?thesis by simp
next
  case (WChunkedEncoding written)
  with assms obtain ps qs where "[] \<notin> set ps" "concat ps = xs" "out = concat (map chunk ps)"
    "[] \<notin> set qs" "concat qs = ys" "out' = concat (map chunk qs)" by auto
  with WChunkedEncoding show ?thesis by (auto intro!: exI [of _ "ps @ qs"])
qed (use assms in auto)

lemma write_body_on_wire:
  assumes "accepts io sent" "writing (write_state w)" "b \<noteq> []"
  shows "\<exists>r w' s' out. write_body io b w s = (Ok r, w', s') \<and>
     write_state w' = advance (length b) (write_state w) \<and>
     sent s' = sent s @ out \<and> body_on_wire (write_state w) b out"
proof (cases "write_state w")
  case (WContentLength tot written)
  with content_length_step [OF assms(1) WContentLength, of b s] assms(2) show ?thesis by fastforce
next
  case (WChunkedEncoding written)
  with chunked_step [OF assms(1) WChunkedEncoding, of b s] assms(3) show ?thesis
    by (fastforce intro: exI [of _ "[b]"])
next
  case (WHTTP10 written)
  with until_closed_step [OF assms(1) WHTTP10, of b s] show ?thesis by fastforce
qed (use assms(2) in auto)

text \<open>One step: the session between two batches, and how a batch advances it.\<close>

definition between_batches :: "write_state \<Rightarrow> 'm downstream \<Rightarrow> bool" where
  "between_batches q d \<longleftrightarrow> write_state (ds_writer d) = q \<and> writing q \<and> ds_vec_buffer d = []"

lemma vectored_bodies:
  "vectored_tasks H io date e (map body_task bs) (d, s)
     = (Ok (if bs = [] then e else False), d\<lparr>ds_vec_buffer := ds_vec_buffer d @ concat bs\<rparr>, s)"
proof (induction bs arbitrary: d e)
  case (Cons b bs)
  then show ?case by (simp add: body_task_def)
qed (simp add: areturn_def)

lemma vectored_write_bodies:
  assumes "accepts io sent" "write_state (ds_writer d) = q" "writing q"
  shows "\<exists>r d' s' out. vectored_write_response_body io (d, s) = (Ok r, d', s') \<and>
     between_batches (advance (length (ds_vec_buffer d)) q) d' \<and>
     sent s' = sent s @ out \<and> body_on_wire q (ds_vec_buffer d) out"
proof (cases "ds_vec_buffer d = []")
  case True
  with assms show ?thesis
    by (auto simp: vectored_write_response_body_def between_batches_def advance_0 on_wire_nil)
next
  case False
  obtain r w' s' out where w: "write_body io (ds_vec_buffer d) (ds_writer d) s = (Ok r, w', s')"
      "write_state w' = advance (length (ds_vec_buffer d)) q" "sent s' = sent s @ out"
      "body_on_wire q (ds_vec_buffer d) out"
    using write_body_on_wire [OF assms(1) _ False, of "ds_writer d" s] assms(2,3) by auto
  then show ?thesis
    using False assms(3)
    by (auto simp: vectored_write_response_body_def on_writer_def between_batches_def add_written_def
          writing_advance split: option.split)
qed

lemma vectored_on_wire:
  assumes "accepts io sent" "between_batches q d"
  shows "\<exists>d' s' out. vectored_write_response_to_downstream H io date (map body_task bs) (d, s) = (Ok False, d', s') \<and>
     between_batches (advance (length (concat bs)) q) d' \<and> sent s' = sent s @ out \<and> body_on_wire q (concat bs) out"
proof -
  let ?d = "d\<lparr>ds_vec_buffer := concat bs\<rparr>"
  have q: "write_state (ds_writer ?d) = q" "writing q" "ds_vec_buffer d = []"
    using assms(2) by (auto simp: between_batches_def)
  have "vectored_tasks H io date False (map body_task bs) (d, s) = (Ok False, ?d, s)"
    using vectored_bodies [of H io date False bs d s] q(3) by simp
  then have "vectored_write_response_to_downstream H io date (map body_task bs) (d, s)
      = abind (vectored_write_response_body io) (\<lambda>n. areturn False) (?d, s)"
    by (simp add: vectored_write_response_to_downstream_def abind_def [of "vectored_tasks H io date False (map body_task bs)"])
  then show ?thesis
    using vectored_write_bodies [OF assms(1) q(1,2), of s] by (auto simp: abind_def areturn_def)
qed

lemma batch_on_wire:
  assumes "accepts io sent" "between_batches q d" "bs \<noteq> []"
  shows "\<exists>d' s' out. write_downstream_response H io date (map body_task bs) (d, s) = (Ok False, d', s') \<and>
     between_batches (advance (length (concat bs)) q) d' \<and>
     sent s' = sent s @ out \<and> body_on_wire q (concat bs) out"
proof (cases "\<exists>b. bs = [b]")
  case True
  then obtain b where bs: "bs = [b]" by blast
  have q: "write_state (ds_writer d) = q" "writing q" "ds_vec_buffer d = []"
    using assms(2) by (auto simp: between_batches_def)
  show ?thesis
  proof (cases "b = []")
    case True
    with bs assms(2) q show ?thesis
      by (auto simp: write_downstream_response_def write_response_to_downstream_def body_task_def
            areturn_def abind_def advance_0 on_wire_nil)
  next
    case False
    obtain r w' s' out where w: "write_body io b (ds_writer d) s = (Ok r, w', s')"
        "write_state w' = advance (length b) q" "sent s' = sent s @ out" "body_on_wire q b out"
      using write_body_on_wire [OF assms(1) _ False, of "ds_writer d" s] q by auto
    with bs q False show ?thesis
      by (auto simp: write_downstream_response_def write_response_to_downstream_def body_task_def
            areturn_def abind_def write_response_body_def on_writer_def asession_def add_written_def
            between_batches_def writing_advance split: option.split)
  qed
next
  case False
  then obtain a b cs where "bs = a # b # cs" using assms(3) by (metis neq_Nil_conv)
  then have "write_downstream_response H io date (map body_task bs) =
      vectored_write_response_to_downstream H io date (map body_task bs)" by (simp add: write_downstream_response_def)
  with vectored_on_wire [OF assms(1,2), of H date bs s] show ?thesis by simp
qed

text \<open>
  C20 (equivalence). However the response body's pieces are grouped into batches, hence whatever the
  timing of the proxy loop, the client receives the same body: every batch is written without
  finishing the response, a content-length or close-delimited body is the same bytes on the wire,
  and a chunked body consists of non-empty chunks that concatenate to the pieces.
\<close>

theorem batches_write_same_body:
  assumes "accepts io sent" "between_batches q d" "[] \<notin> set batches"
  shows "\<exists>d' s' out. write_batches H io date (map (map body_task) batches) (d, s) = (Ok False, d', s') \<and>
     between_batches (advance (length (concat (concat batches))) q) d' \<and>
     sent s' = sent s @ out \<and> body_on_wire q (concat (concat batches)) out"
  using assms(2,3)
proof (induction batches arbitrary: q d s)
  case Nil
  then show ?case by (auto simp: areturn_def between_batches_def advance_0 on_wire_nil)
next
  case (Cons bs batches)
  have writing: "writing q" using Cons.prems(1) by (simp add: between_batches_def)
  obtain d1 s1 out where 1: "write_downstream_response H io date (map body_task bs) (d, s) = (Ok False, d1, s1)"
      "between_batches (advance (length (concat bs)) q) d1" "sent s1 = sent s @ out"
      "body_on_wire q (concat bs) out"
    using batch_on_wire [OF assms(1) Cons.prems(1), of bs] Cons.prems(2) by fastforce
  obtain d2 s2 out2 where 2: "write_batches H io date (map (map body_task) batches) (d1, s1) = (Ok False, d2, s2)"
      "between_batches (advance (length (concat (concat batches))) (advance (length (concat bs)) q)) d2"
      "sent s2 = sent s1 @ out2"
      "body_on_wire (advance (length (concat bs)) q) (concat (concat batches)) out2"
  proof -
    have "[] \<notin> set batches" using Cons.prems(2) by simp
    from Cons.IH [OF 1(2) this, of s1] that show ?thesis by blast
  qed
  have "write_batches H io date (map (map body_task) (bs # batches)) (d, s) = (Ok False, d2, s2)"
    using 1(1) 2(1) by (simp add: abind_def)
  moreover have "between_batches (advance (length (concat (concat (bs # batches)))) q) d2"
    using 2(2) writing by (simp add: advance_add)
  moreover have "sent s2 = sent s @ (out @ out2)" using 1(3) 2(3) by simp
  moreover have "body_on_wire q (concat (concat (bs # batches))) (out @ out2)"
    using on_wire_append [OF writing 1(4) 2(4)] by simp
  ultimately show ?case by blast
qed

lemma batches_write_same_body_witness:
  "\<exists>d' s'. write_batches list_http script_io ''now'' (map (map body_task) [[''he'', ''ll''], [''o'']])
       (example_downstream\<lparr>ds_writer := \<lparr>write_state = WHTTP10 0\<rparr>\<rparr>, \<lparr>rx = [], tx = ''x''\<rparr>) = (Ok False, d', s') \<and>
     tx s' = ''xhello''"
  using batches_write_same_body [OF script_accepts, of "WHTTP10 0"
      "example_downstream\<lparr>ds_writer := \<lparr>write_state = WHTTP10 0\<rparr>\<rparr>" "[[''he'', ''ll''], [''o'']]" list_http "''now''"
      "\<lparr>rx = [], tx = ''x''\<rparr>"]
  by (auto simp: between_batches_def example_downstream_def)

end
