(* ===== verification/Upstream.thy ===== *)
theory Upstream
  imports Downstream
begin

text \<open>
  The upstream session (core/src/session/upstream.rs): it writes a request to the server and reads the
  response. As for the downstream session the record has the fields of the struct except the stream,
  which is the second component of an action's state.
\<close>

section \<open>Session state\<close>

record 'm upstream =
  us_buffer :: bytes
  us_headers_offset :: "offset option"
  us_body_offset :: "offset option"
  us_request :: "'m request_header option"
  us_response :: "'m response_header option"
  us_writer :: body_writer
  us_reader :: body_reader
  us_write_size :: nat
  us_read_size :: nat
  us_keepalive :: keepalive_status
  us_upgrade :: bool

definition upstream_new :: "'m upstream" where
  "upstream_new =
     \<lparr>us_buffer = [], us_headers_offset = None, us_body_offset = None, us_request = None, us_response = None,
      us_writer = body_writer_new, us_reader = body_reader_new, us_write_size = 0, us_read_size = 0,
      us_keepalive = KOff, us_upgrade = False\<rparr>"

definition us_get_response :: "'m upstream \<Rightarrow> 'm response_header outcome" where
  "us_get_response u =
     (case us_response u of None \<Rightarrow> Panic ''Response header is not read yet'' | Some rs \<Rightarrow> Ok rs)"

definition us_append_header :: "'m http \<Rightarrow> header_key \<Rightarrow> header_val \<Rightarrow> 'm upstream \<Rightarrow> 'm upstream outcome" where
  "us_append_header H k v u =
     bind_outcome (us_get_response u) (\<lambda>rs.
     bind_outcome (rs_append_header H k v rs) (\<lambda>rs'. Ok (u\<lparr>us_response := Some rs'\<rparr>)))"

definition us_insert_header :: "'m http \<Rightarrow> header_key \<Rightarrow> header_val \<Rightarrow> 'm upstream \<Rightarrow> 'm upstream outcome" where
  "us_insert_header H k v u =
     bind_outcome (us_get_response u) (\<lambda>rs.
     bind_outcome (rs_insert_header H k v rs) (\<lambda>rs'. Ok (u\<lparr>us_response := Some rs'\<rparr>)))"

definition us_remove_header :: "'m http \<Rightarrow> header_key \<Rightarrow> 'm upstream \<Rightarrow> 'm upstream outcome" where
  "us_remove_header H k u =
     bind_outcome (us_get_response u) (\<lambda>rs. Ok (u\<lparr>us_response := Some (rs_remove_header H k rs)\<rparr>))"

definition us_get_headers :: "'m http \<Rightarrow> header_key \<Rightarrow> 'm upstream \<Rightarrow> bytes list outcome" where
  "us_get_headers H k u = bind_outcome (us_get_response u) (\<lambda>rs. Ok (rs_get_headers H k rs))"

definition us_get_header :: "'m http \<Rightarrow> header_key \<Rightarrow> 'm upstream \<Rightarrow> bytes option outcome" where
  "us_get_header H k u = bind_outcome (us_get_response u) (\<lambda>rs. Ok (rs_get_header H k rs))"

definition us_get_version :: "'m upstream \<Rightarrow> http_version outcome" where
  "us_get_version u = bind_outcome (us_get_response u) (\<lambda>rs. Ok (rs_version rs))"

definition us_get_status_code :: "'m upstream \<Rightarrow> nat outcome" where
  "us_get_status_code u = bind_outcome (us_get_response u) (\<lambda>rs. Ok (rs_status rs))"

definition us_get_reason_phrase :: "'m http \<Rightarrow> 'm upstream \<Rightarrow> string option outcome" where
  "us_get_reason_phrase H u = bind_outcome (us_get_response u) (\<lambda>rs. Ok (rs_get_reason_phrase H rs))"

definition us_is_request_upgrade :: "'m http \<Rightarrow> 'm upstream \<Rightarrow> bool outcome" where
  "us_is_request_upgrade H u =
     (case us_request u of
        None \<Rightarrow> Panic ''Request is not read yet'' | Some rq \<Rightarrow> Ok (is_request_upgrade H rq))"

definition us_is_session_upgrade :: "'m http \<Rightarrow> 'm response_header \<Rightarrow> 'm upstream \<Rightarrow> bool outcome" where
  "us_is_session_upgrade H rs u =
     bind_outcome (us_is_request_upgrade H u) (\<lambda>up. Ok (if up then is_response_upgrade rs else False))"

section \<open>Keep-alive\<close>

definition us_set_keepalive :: "nat option \<Rightarrow> 'm upstream \<Rightarrow> 'm upstream" where
  "us_set_keepalive seconds u =
     (case seconds of
        Some sec \<Rightarrow> u\<lparr>us_keepalive := (if 0 < sec then KTimeout sec else KInfinite)\<rparr>
      | None \<Rightarrow> u\<lparr>us_keepalive := KOff\<rparr>)"

definition us_is_session_keepalive :: "'m upstream \<Rightarrow> bool" where
  "us_is_session_keepalive u \<longleftrightarrow> us_keepalive u \<noteq> KOff"

definition us_is_connection_keepalive :: "'m http \<Rightarrow> 'm upstream \<Rightarrow> bool option outcome" where
  "us_is_connection_keepalive H u =
     bind_outcome (us_get_header H (KName ''connection'') u) (\<lambda>v.
       Ok (case v of Some b \<Rightarrow> is_connection_keepalive b | None \<Rightarrow> None))"

text \<open>The parameters of a \<open>Keep-Alive\<close> header; a later one replaces an earlier one, also by nothing.\<close>

fun keepalive_params :: "nat option \<times> nat option \<Rightarrow> string list \<Rightarrow> nat option \<times> nat option" where
  "keepalive_params (timeout, mx) [] = (timeout, mx)"
| "keepalive_params (timeout, mx) (param # ps) =
     (case split_once (CHR ''='') param of
        None \<Rightarrow> keepalive_params (timeout, mx) ps
      | Some (k, v) \<Rightarrow>
          (if trim k = ''timeout'' then keepalive_params (parse_u64 (trim v), mx) ps
           else if trim k = ''max'' then keepalive_params (timeout, parse_u64 (trim v)) ps
           else keepalive_params (timeout, mx) ps))"

definition us_get_keepalive_value :: "'m http \<Rightarrow> 'm upstream \<Rightarrow> (nat option \<times> nat option) outcome" where
  "us_get_keepalive_value H u =
     bind_outcome (us_get_header H (KText ''Keep-Alive'') u) (\<lambda>v.
       (case v of
          None \<Rightarrow> Ok (None, None)
        | Some b \<Rightarrow>
            (case from_utf8 b of
               None \<Rightarrow> Ok (None, None)
             | Some s \<Rightarrow> Ok (keepalive_params (None, None) (split_on (CHR '','') s)))))"

definition us_apply_session_keepalive :: "'m http \<Rightarrow> 'm upstream \<Rightarrow> 'm upstream outcome" where
  "us_apply_session_keepalive H u =
     bind_outcome (us_is_connection_keepalive H u) (\<lambda>ka.
       (case ka of
          Some True \<Rightarrow>
            bind_outcome (us_get_keepalive_value H u) (\<lambda>(timeout, mx).
              (case timeout of
                 Some t \<Rightarrow> Ok (us_set_keepalive (Some t) u)
               | None \<Rightarrow> Ok (us_set_keepalive (Some 0) u)))
        | Some False \<Rightarrow> Ok (us_set_keepalive None u)
        | None \<Rightarrow>
            bind_outcome (us_get_version u) (\<lambda>v.
              if v = HTTP_11 then Ok (us_set_keepalive (Some 0) u) else Ok (us_set_keepalive None u))))"

section \<open>Reading the response\<close>

definition read_response ::
  "'m http \<Rightarrow> (bytes \<Rightarrow> parsed_response parse_status) \<Rightarrow> 's io \<Rightarrow> (unit, 'm upstream, 's) action" where
  "read_response H parse io st =
     (let u = (fst st)\<lparr>us_buffer := []\<rparr>
      in case read_head parse io [] (snd st) of
           (HeadEof, s') \<Rightarrow> (Ok (), u, s')
         | (HeadError e, s') \<Rightarrow> (Err e, u, s')
         | (HeadParsed buf n p, s') \<Rightarrow>
             (let u1 = u\<lparr>us_headers_offset := Some (Offset 0 n),
                         us_body_offset := Some (Offset n (length buf))\<rparr>
              in case assemble_response H buf p of
                   Ok rs \<Rightarrow>
                     (let u2 = u1\<lparr>us_buffer := buf\<rparr>
                      in case us_is_session_upgrade H rs u2 of
                           Ok up \<Rightarrow> (Ok (), u2\<lparr>us_upgrade := up, us_response := Some rs\<rparr>, s')
                         | Err e \<Rightarrow> (Err e, u2, s')
                         | Panic m \<Rightarrow> (Panic m, u2, s'))
                 | Err e \<Rightarrow> (Err e, u1, s')
                 | Panic m \<Rightarrow> (Panic m, u1, s')))"

text \<open>The read mode of the response body: \<open>None\<close> is the early return that sets no mode.\<close>

definition response_read_mode ::
  "'m http \<Rightarrow> 'm upstream \<Rightarrow> bytes \<Rightarrow> body_reader option outcome" where
  "response_read_mode H u body =
     (let r = us_reader u
      in if (case us_request u of Some rq \<Rightarrow> rq_method rq = ''HEAD'' | None \<Rightarrow> False)
         then Ok (Some (with_content_length_read 0 body r))
         else
           bind_outcome (us_get_status_code u) (\<lambda>code.
           if code \<noteq> 101 \<and> 100 \<le> code \<and> code \<le> 199 then Ok None
           else if code = 204 \<or> code = 304 then Ok (Some (with_content_length_read 0 body r))
           else
             bind_outcome (if code = 101 then us_is_request_upgrade H u else Ok False) (\<lambda>up.
             if up then Ok (Some (with_until_closed_read body r))
             else
               bind_outcome (us_get_header H (KName ''transfer-encoding'') u) (\<lambda>te.
               if is_header_value_chunk_encoding te then Ok (Some (with_chunked_read body r))
               else
                 bind_outcome (us_get_header H (KName ''content-length'') u) (\<lambda>cl.
                   (case get_content_length_value cl of
                      Some len \<Rightarrow> Ok (Some (with_content_length_read len body r))
                    | None \<Rightarrow> Ok (Some (with_until_closed_read body r))))))))"

definition set_response_body_reader :: "'m http \<Rightarrow> (unit, 'm upstream, 's) action" where
  "set_response_body_reader H st =
     (let u = fst st
      in if \<not> is_start (us_reader u) then (Ok (), st)
         else
           (case us_body_offset u of
              None \<Rightarrow> (Panic ''unwrap on None'', st)
            | Some off \<Rightarrow>
                (case bind_outcome (offset_get off (us_buffer u)) (response_read_mode H u) of
                   Ok None \<Rightarrow> (Ok (), st)
                 | Ok (Some r) \<Rightarrow> (Ok (), u\<lparr>us_reader := r\<rparr>, snd st)
                 | Err e \<Rightarrow> (Err e, st)
                 | Panic p \<Rightarrow> (Panic p, st))))"

definition on_us_reader ::
  "(body_reader \<Rightarrow> 's \<Rightarrow> 'a outcome \<times> body_reader \<times> 's) \<Rightarrow> ('a, 'm upstream, 's) action" where
  "on_us_reader f st =
     (case f (us_reader (fst st)) (snd st) of (res, r', s') \<Rightarrow> (res, (fst st)\<lparr>us_reader := r'\<rparr>, s'))"

definition read_response_body ::
  "'m http \<Rightarrow> (bytes \<Rightarrow> chunk_status) \<Rightarrow> 's io \<Rightarrow> (offset option, 'm upstream, 's) action" where
  "read_response_body H pcs io =
     abind (set_response_body_reader H) (\<lambda>u. on_us_reader (read_body pcs io))"

definition read_response_body_bytes ::
  "'m http \<Rightarrow> (bytes \<Rightarrow> chunk_status) \<Rightarrow> 's io \<Rightarrow> (bytes option, 'm upstream, 's) action" where
  "read_response_body_bytes H pcs io =
     abind (read_response_body H pcs io) (\<lambda>offset.
       (case offset of
          None \<Rightarrow> areturn None
        | Some off \<Rightarrow>
            abind (aget (\<lambda>u. get_sliced_body off (us_reader u))) (\<lambda>sliced.
            abind (alift sliced) (\<lambda>bytes.
            abind (asession (\<lambda>u. u\<lparr>us_read_size := us_read_size u + length bytes\<rparr>)) (\<lambda>u.
              areturn (Some bytes))))))"

definition is_reading_response_body_finished :: "'m http \<Rightarrow> (bool, 'm upstream, 's) action" where
  "is_reading_response_body_finished H =
     abind (set_response_body_reader H) (\<lambda>u. aget (\<lambda>u. is_finished (us_reader u)))"

definition is_response_body_empty :: "'m http \<Rightarrow> (bool, 'm upstream, 's) action" where
  "is_response_body_empty H =
     abind (set_response_body_reader H) (\<lambda>u. aget (\<lambda>u. is_body_empty (us_reader u)))"

definition force_close_response_body_reader :: "'m upstream \<Rightarrow> 'm upstream" where
  "force_close_response_body_reader u =
     (if us_upgrade u \<and> \<not> is_finished (us_reader u)
      then u\<lparr>us_reader := with_content_length_read 0 [] (us_reader u)\<rparr> else u)"

definition should_read_response_header :: "'m upstream \<Rightarrow> bool" where
  "should_read_response_header u =
     (case us_response u of
        None \<Rightarrow> True
      | Some rs \<Rightarrow> rs_status rs \<noteq> 101 \<and> 100 \<le> rs_status rs \<and> rs_status rs \<le> 199)"

definition read_upstream_response ::
  "'m http \<Rightarrow> (bytes \<Rightarrow> parsed_response parse_status) \<Rightarrow> (bytes \<Rightarrow> chunk_status) \<Rightarrow> 's io
   \<Rightarrow> ('m task, 'm upstream, 's) action" where
  "read_upstream_response H parse pcs io =
     abind (aget should_read_response_header) (\<lambda>should.
       if should
       then
         abind (read_response H parse io) (\<lambda>u.
         abind (aget us_response) (\<lambda>resp.
           (case resp of
              None \<Rightarrow> alift (Panic ''unwrap on None'')
            | Some rs \<Rightarrow>
                abind (is_reading_response_body_finished H) (\<lambda>end_of_body.
                  areturn (THeader rs end_of_body)))))
       else
         abind (is_reading_response_body_finished H) (\<lambda>fin.
           if fin then areturn TDone
           else
             abind (read_response_body_bytes H pcs io) (\<lambda>body.
             abind (is_reading_response_body_finished H) (\<lambda>end_of_body.
               areturn (TBody body end_of_body)))))"

text \<open>
  The session after a read of the response whose future is dropped: in the header, the session's buffer has been
  cleared and what was taken of the head is gone; in the body, the reader has done what it does before it awaits.
\<close>

inductive response_read_dropped ::
  "'m http \<Rightarrow> (bytes \<Rightarrow> parsed_response parse_status) \<Rightarrow> 's io \<Rightarrow> 'm upstream \<times> 's \<Rightarrow> 'm upstream \<times> 's \<Rightarrow> bool"
  for H parse io where
  dropped_head: "should_read_response_header u \<Longrightarrow> head_read_dropped parse io [] s s' \<Longrightarrow>
    response_read_dropped H parse io (u, s) (u\<lparr>us_buffer := []\<rparr>, s')"
| dropped_body: "\<not> should_read_response_header u \<Longrightarrow> set_response_body_reader H (u, s) = (Ok v, u1, s1) \<Longrightarrow>
    read_dropped (us_reader u1) = Some r \<Longrightarrow> response_read_dropped H parse io (u, s) (u1\<lparr>us_reader := r\<rparr>, s1)"

inductive_cases response_read_droppedE: "response_read_dropped H parse io y y'"

section \<open>Writing the request\<close>

definition request_write_mode :: "'m http \<Rightarrow> 'm request_header \<Rightarrow> body_writer \<Rightarrow> body_writer" where
  "request_write_mode H rq w =
     (if is_request_upgrade H rq then with_until_closed_write w
      else if is_header_value_chunk_encoding (rq_get_header H (KName ''transfer-encoding'') rq)
      then with_chunked_encoding_write w
      else
        (case get_content_length_value (rq_get_header H (KName ''content-length'') rq) of
           Some len \<Rightarrow> with_content_length_write len w
         | None \<Rightarrow> with_until_closed_write w))"

definition write_request_header ::
  "'m http \<Rightarrow> 's io \<Rightarrow> 'm request_header \<Rightarrow> (unit, 'm upstream, 's) action" where
  "write_request_header H io rq =
     abind (asession (\<lambda>u. u\<lparr>us_writer := request_write_mode H rq (us_writer u)\<rparr>)) (\<lambda>u.
     abind (alift (rq_build_to_buffer H rq)) (\<lambda>buf.
     abind (amap_err (Wrapped ''error writing response header: '') (awrite_all io buf)) (\<lambda>u.
     abind (aflush io) (\<lambda>u.
       asession (\<lambda>u. u\<lparr>us_request := Some rq, us_write_size := us_write_size u + length buf\<rparr>)))))"

definition on_us_writer ::
  "(body_writer \<Rightarrow> 's \<Rightarrow> 'a outcome \<times> body_writer \<times> 's) \<Rightarrow> ('a, 'm upstream, 's) action" where
  "on_us_writer f st =
     (case f (us_writer (fst st)) (snd st) of (res, w', s') \<Rightarrow> (res, (fst st)\<lparr>us_writer := w'\<rparr>, s'))"

definition us_add_written :: "nat option \<Rightarrow> 'm upstream \<Rightarrow> 'm upstream" where
  "us_add_written n u = (case n of None \<Rightarrow> u | Some k \<Rightarrow> u\<lparr>us_write_size := us_write_size u + k\<rparr>)"

definition write_request_body :: "'s io \<Rightarrow> bytes \<Rightarrow> (nat option, 'm upstream, 's) action" where
  "write_request_body io buffer =
     abind (on_us_writer (write_body io buffer)) (\<lambda>n. abind (asession (us_add_written n)) (\<lambda>u. areturn n))"

definition finish_writing_request_body :: "'s io \<Rightarrow> (nat option, 'm upstream, 's) action" where
  "finish_writing_request_body io =
     abind (on_us_writer (finish io)) (\<lambda>res.
     abind (aflush io) (\<lambda>u.
     abind (asession force_close_response_body_reader) (\<lambda>u. areturn res)))"

definition write_upstream_request :: "'s io \<Rightarrow> 'm task \<Rightarrow> (bool, 'm upstream, 's) action" where
  "write_upstream_request io task =
     (case task of
        TBody req_body end_stream \<Rightarrow>
          abind (case req_body of
                   Some body \<Rightarrow> abind (write_request_body io body) (\<lambda>n. areturn ())
                 | None \<Rightarrow> areturn ()) (\<lambda>u.
            if end_stream then abind (finish_writing_request_body io) (\<lambda>n. areturn end_stream)
            else areturn end_stream)
      | _ \<Rightarrow> alift (Panic ''unexpected request to write''))"


section \<open>Reading through the session\<close>

abbreviation response_piece ::
  "'m http \<Rightarrow> (bytes \<Rightarrow> chunk_status) \<Rightarrow> 's io \<Rightarrow> 'm upstream \<Rightarrow> 's \<Rightarrow> bytes option outcome \<times> 'm upstream \<times> 's"
  where "response_piece H pcs io u s \<equiv> read_response_body_bytes H pcs io (u, s)"

lemma response_piece_lifts:
  assumes "\<not> is_start (us_reader u)" "read_piece pcs io (us_reader u) s = (res, r', s')"
  shows "\<exists>u'. response_piece H pcs io u s = (res, u', s') \<and> us_reader u' = r'"
  using assms
  by (auto simp: read_response_body_bytes_def read_response_body_def set_response_body_reader_def
        on_us_reader_def abind_def action_defs read_piece_def
        split: outcome.splits option.splits prod.splits)

interpretation us_content_length: session_source "read_piece pcs io" "content_length_rep io pending"
  "\<lambda>r s. partial_left (read_state r)" "\<lambda>n r. read_state r = RCompleted n"
  "response_piece H pcs io" us_reader "\<lambda>r. \<not> is_start r"
  for pcs :: "bytes \<Rightarrow> chunk_status" and io :: "'s io" and pending and H :: "'m http"
  by (unfold_locales, erule (1) response_piece_lifts)
    (auto simp: content_length_rep_def is_start_def)

interpretation us_until_closed: session_source "read_piece pcs io" "until_closed_rep io pending"
  "\<lambda>r s. length (rewound r) + length (pending s)" "\<lambda>n r. read_state r = RCompleted n"
  "response_piece H pcs io" us_reader "\<lambda>r. \<not> is_start r"
  for pcs :: "bytes \<Rightarrow> chunk_status" and io :: "'s io" and pending and H :: "'m http"
  by (unfold_locales, erule (1) response_piece_lifts)
    (auto simp: until_closed_rep_def is_start_def)

interpretation us_chunked: session_source "read_piece pcs io" "chunked_rep pcs io pending lh extra"
  "\<lambda>r s. work r (pending s)" "\<lambda>n r. read_state r = RCompleted n"
  "response_piece H pcs io" us_reader "\<lambda>r. \<not> is_start r"
  for pcs :: "bytes \<Rightarrow> chunk_status" and io :: "'s io" and pending lh extra and H :: "'m http"
  by (unfold_locales, erule (1) response_piece_lifts)
    (auto simp: chunked_rep_def decoding_def is_start_def)

text \<open>A session that has written its request and read nothing of the response.\<close>

definition awaiting_response :: "'m request_header \<Rightarrow> 'm upstream \<Rightarrow> bool" where
  "awaiting_response rq u \<longleftrightarrow>
     us_request u = Some rq \<and> us_reader u = body_reader_new \<and> should_read_response_header u"

text \<open>The part of \<open>read_response\<close> after the parse, for a session whose request is known.\<close>

definition response_read ::
  "'m http \<Rightarrow> 'm request_header \<Rightarrow> bytes \<Rightarrow> bytes \<Rightarrow> 'm response_header \<Rightarrow> 'm upstream \<Rightarrow> 'm upstream" where
  "response_read H rq head extra rs u =
     u\<lparr>us_buffer := head @ extra, us_headers_offset := Some (Offset 0 (length head)),
       us_body_offset := Some (Offset (length head) (length (head @ extra))),
       us_upgrade := is_request_upgrade H rq \<and> is_response_upgrade rs, us_response := Some rs\<rparr>"

lemma read_response_complete:
  assumes "delivers_buf io pending" "parses_head parse head p" "length head \<le> Suc max_buffer_size"
    and "\<And>x. assemble_response H (head @ x) p = Ok rs" "pending s = head @ rest" "us_request u = Some rq"
  obtains s1 extra where "read_response H parse io (u, s) = (Ok (), response_read H rq head extra rs u, s1)"
    "rest = extra @ pending s1"
proof -
  have "strict_prefix [] head" using assms(2) by (auto simp: parses_head_def strict_prefix_def)
  then obtain extra s1 where hd: "read_head parse io [] s = (HeadParsed (head @ extra) (length head) p, s1)"
      "rest = extra @ pending s1"
    using read_head_complete [OF assms(1-3)] assms(5) by (metis append_Nil)
  have "read_response H parse io (u, s) = (Ok (), response_read H rq head extra rs u, s1)"
    using hd(1) assms(4,6)
    by (simp add: read_response_def response_read_def us_is_session_upgrade_def us_is_request_upgrade_def)
  then show ?thesis using hd(2) by (rule that)
qed

lemma response_mode_after_head:
  assumes "rq_method rq \<noteq> ''HEAD''" "\<not> is_informational (rs_status rs)"
    and "rs_status rs \<notin> {204, 304}" "us_request u = Some rq"
  shows "response_read_mode H (response_read H rq head extra rs u) body =
     Ok (Some (if is_header_value_chunk_encoding (rs_get_header H (KName ''transfer-encoding'') rs)
               then with_chunked_read body (us_reader u)
               else
                 (case get_content_length_value (rs_get_header H (KName ''content-length'') rs) of
                    Some len \<Rightarrow> with_content_length_read len body (us_reader u)
                  | None \<Rightarrow> with_until_closed_read body (us_reader u))))"
proof -
  let ?u = "response_read H rq head extra rs u"
  have u: "us_request ?u = Some rq" "us_reader ?u = us_reader u" "us_get_response ?u = Ok rs"
    using assms(4) by (simp_all add: response_read_def us_get_response_def)
  have "us_get_status_code ?u = Ok (rs_status rs)" "us_get_header H k ?u = Ok (rs_get_header H k rs)" for k
    using u(3) by (simp_all add: us_get_status_code_def us_get_header_def)
  moreover have "rs_status rs \<noteq> 101" "\<not> (100 \<le> rs_status rs \<and> rs_status rs \<le> 199)"
      "rs_status rs \<noteq> 204" "rs_status rs \<noteq> 304"
    using assms(2,3) by (auto simp: is_informational_def)
  ultimately show ?thesis
    using assms(1) u(1,2) by (simp add: response_read_mode_def Let_def split: option.split)
qed

lemma set_reader_after_response:
  assumes "is_start (us_reader u)" "response_read_mode H (response_read H rq head extra rs u) extra = Ok (Some r)"
  shows "set_response_body_reader H (response_read H rq head extra rs u, s)
     = (Ok (), (response_read H rq head extra rs u)\<lparr>us_reader := r\<rparr>, s)"
proof -
  let ?u = "response_read H rq head extra rs u"
  have "us_reader ?u = us_reader u" "us_buffer ?u = head @ extra"
      "us_body_offset ?u = Some (Offset (length head) (length (head @ extra)))"
    by (simp_all add: response_read_def)
  moreover have "offset_get (Offset (length head) (length (head @ extra))) (head @ extra) = Ok extra"
    by (simp add: get_slice_def slice_def)
  ultimately show ?thesis using assms by (simp add: set_response_body_reader_def del: offset_get.simps)
qed

lemma read_header_task:
  assumes "should_read_response_header u" "read_response H parse io (u, s) = (Ok (), u1, s1)" "us_response u1 = Some rs"
    and "set_response_body_reader H (u1, s1) = (Ok (), u2, s2)"
  shows "read_upstream_response H parse pcs io (u, s) = (Ok (THeader rs (is_finished (us_reader u2))), u2, s2)"
  using assms
  by (simp add: read_upstream_response_def is_reading_response_body_finished_def abind_def [of "read_response H parse io"]
        abind_def [of "set_response_body_reader H"] abind_def [of "abind (set_response_body_reader H) m" for m] areturn_def aget_def)

section \<open>Properties\<close>

text \<open>
  C17 (functional). A chunked response is delivered completely: for every segmentation of head and body
  by the network, \<open>read_upstream_response\<close> first answers with the parsed header, not yet ended, and
  reading the body then yields exactly the payload of the chunks.
\<close>

theorem upstream_response_delivered:
  assumes "delivers io pending" "delivers_buf io pending" "awaiting_response rq u" "rq_method rq \<noteq> ''HEAD''"
    and "parses_head parse head p" "length head \<le> Suc max_buffer_size"
    and "\<And>x. assemble_response H (head @ x) p = Ok rs"
    and "\<not> is_informational (rs_status rs)" "rs_status rs \<notin> {204, 304}"
    and "is_header_value_chunk_encoding (rs_get_header H (KName ''transfer-encoding'') rs)"
    and "chunk_head pcs lh 0" "\<forall>c\<in>set cs. chunk_ok pcs c"
    and "pending s = head @ wire cs (lh @ extra)" "length (wire cs (lh @ extra)) < usize_mod"
  shows "\<exists>u1 s1 bss u2 s2.
     read_upstream_response H parse pcs io (u, s) = (Ok (THeader rs False), u1, s1) \<and>
     drain (response_piece H pcs io) (2 * length (wire cs (lh @ extra)) + 2) u1 s1 = Some (Ok bss, u2, s2) \<and>
     concat bss = payload cs \<and> read_state (us_reader u2) = RCompleted (length (payload cs))"
proof -
  have u: "us_request u = Some rq" "us_reader u = body_reader_new" "should_read_response_header u"
    using assms(3) by (simp_all add: awaiting_response_def)
  have start: "is_start (us_reader u)" using u(2) by (simp add: is_start_def body_reader_new_def)
  obtain s1 x where head: "read_response H parse io (u, s) = (Ok (), response_read H rq head x rs u, s1)"
      "wire cs (lh @ extra) = x @ pending s1"
    by (rule read_response_complete [OF assms(2,5,6,7,13) u(1)])
  let ?r = "with_chunked_read x body_reader_new"
  define u1 where "u1 = (response_read H rq head x rs u)\<lparr>us_reader := ?r\<rparr>"
  have set: "set_response_body_reader H (response_read H rq head x rs u, s1) = (Ok (), u1, s1)"
    unfolding u1_def
    by (rule set_reader_after_response [OF start])
      (use response_mode_after_head [OF assms(4,8,9) u(1)] assms(10) u(2) in simp)
  have len: "length x + length (pending s1) = length (wire cs (lh @ extra))"
    using arg_cong [OF head(2), of length] by simp
  then have xs: "length x < usize_mod" using assms(14) by simp
  note dec = decoding_start [OF head(2) [symmetric] xs]
  have rep: "chunked_rep pcs io pending lh extra 0 (payload cs) (us_reader u1) s1"
    unfolding chunked_rep_def
    by (intro conjI exI [of _ cs] exI [of _ "[]"]) (use assms(1,11,12,14) dec(1) in \<open>simp_all add: u1_def\<close>)
  have "work (us_reader u1) (pending s1) < 2 * length (wire cs (lh @ extra)) + 2"
    using dec(2) len by (simp add: u1_def)
  from us_chunked.session.drain_delivers [where H = H, OF rep this] obtain bss u2 s2 where
    all: "drain (response_piece H pcs io) (2 * length (wire cs (lh @ extra)) + 2) u1 s1 = Some (Ok bss, u2, s2)"
      "concat bss = payload cs" "read_state (us_reader u2) = RCompleted (0 + length (payload cs))"
    by blast
  have resp: "us_response (response_read H rq head x rs u) = Some rs" by (simp add: response_read_def)
  have nf: "\<not> is_finished (us_reader u1)"
    by (simp add: u1_def is_finished_def with_chunked_read_def set_buffer_def Let_def)
  have "read_upstream_response H parse pcs io (u, s) = (Ok (THeader rs False), u1, s1)"
    using read_header_task [OF u(3) head(1) resp set, of pcs] nf by simp
  with all show ?thesis by auto
qed


text \<open>The example response \<open>200\<close> with a chunked body, as the parser reports it, and the body as one chunk.\<close>

definition chunked_response :: "entries response_header" where
  "chunked_response =
     \<lparr>rs_status = 200, rs_version = HTTP_11, rs_headers = [(''transfer-encoding'', ''chunked'')],
      rs_case = [(''transfer-encoding'', ''transfer-encoding'')], rs_reason = None\<rparr>"

definition chunked_parsed :: parsed_response where
  "chunked_parsed =
     \<lparr>pp_code = Some 200, pp_reason = None, pp_version = Some 1,
      pp_headers = [\<lparr>sp_name_start = 0, sp_name_len = 17, sp_value_start = 18, sp_value_len = 7\<rparr>]\<rparr>"

abbreviation (input) chunked_parse :: "bytes \<Rightarrow> parsed_response parse_status" where
  "chunked_parse \<equiv> prefix_parser ''transfer-encoding:chunked'' chunked_parsed"

lemma chunked_response_head:
  "parses_head chunked_parse ''transfer-encoding:chunked'' chunked_parsed"
  "assemble_response list_http (''transfer-encoding:chunked'' @ x) chunked_parsed = Ok chunked_response"
  "length ''transfer-encoding:chunked'' \<le> Suc max_buffer_size"
  "\<not> is_informational (rs_status chunked_response)" "rs_status chunked_response \<notin> {204, 304}"
  "is_header_value_chunk_encoding (rs_get_header list_http (KName ''transfer-encoding'') chunked_response)"
proof -
  show "parses_head chunked_parse ''transfer-encoding:chunked'' chunked_parsed" by (rule prefix_parser_law) simp
  have "name_of list_http ''transfer-encoding'' = Some ''transfer-encoding''" by code_simp
  moreover have "rs_build list_http 200 HTTP_11 = Ok (chunked_response\<lparr>rs_headers := [], rs_case := []\<rparr>)"
    by (simp add: rs_build_def chunked_response_def list_http_def)
  ultimately show "assemble_response list_http (''transfer-encoding:chunked'' @ x) chunked_parsed = Ok chunked_response"
    by (simp add: assemble_response_def header_offsets_def kv_offset_new_def kv_get_key_bytes_def chunked_parsed_def
          kv_get_value_bytes_def get_slice_def slice_def unwrap_or_def parsed_version_def rs_append_header_def
          rs_set_reason_phrase_def chunked_response_def usize_mod_def del: list_http_ops(7))
  show "is_header_value_chunk_encoding (rs_get_header list_http (KName ''transfer-encoding'') chunked_response)"
    by code_simp
qed (simp_all add: chunked_response_def is_informational_def max_buffer_size_def)

lemma hello_chunk:
  "chunk_head (hex_line 0 0) (''0'' @ crlf) 0" "\<forall>c\<in>set [(''5'' @ crlf, ''hello'', crlf)]. chunk_ok (hex_line 0 0) c"
  "length (wire [(''5'' @ crlf, ''hello'', crlf)] ((''0'' @ crlf) @ [])) < usize_mod" "payload [(''5'' @ crlf, ''hello'', crlf)] = ''hello''"
proof -
  have d: "digit_char 0 = CHR ''0''" "digit_char 5 = CHR ''5''" by code_simp+
  have "chunk_head (hex_line 0 0) (''0'' @ crlf) 0" "chunk_head (hex_line 0 0) (''5'' @ crlf) 5"
    using hex_line_head [of 0] hex_line_head [of 5] d
    by (simp_all add: crlf_def show_hex_def show_base.simps usize_mod_def)
  then show "chunk_head (hex_line 0 0) (''0'' @ crlf) 0" "\<forall>c\<in>set [(''5'' @ crlf, ''hello'', crlf)]. chunk_ok (hex_line 0 0) c"
    by (simp_all add: crlf_def numeral_eq_Suc)
qed (simp_all add: crlf_def usize_mod_def)

definition example_upstream :: "entries upstream" where
  "example_upstream =
     \<lparr>us_buffer = [], us_headers_offset = None, us_body_offset = None,
      us_request = Some \<lparr>rq_method = ''GET'', rq_uri = ''/'', rq_version = HTTP_11, rq_headers = [], rq_case = [],
        rq_raw_path = ''/''\<rparr>,
      us_response = None, us_writer = body_writer_new, us_reader = body_reader_new,
      us_write_size = 0, us_read_size = 0, us_keepalive = KOff, us_upgrade = False\<rparr>"

lemma example_awaiting:
  "awaiting_response \<lparr>rq_method = ''GET'', rq_uri = ''/'', rq_version = HTTP_11, rq_headers = [], rq_case = [],
        rq_raw_path = ''/''\<rparr> example_upstream"
  by (simp add: awaiting_response_def example_upstream_def should_read_response_header_def)

lemma upstream_response_delivered_witness:
  "\<exists>u1 s1 bss u2 s2.
     read_upstream_response list_http chunked_parse (hex_line 0 0) script_io
       (example_upstream, \<lparr>rx = [''transfer-'', ''encoding:chunked5'', crlf @ ''hel'', ''lo'' @ crlf @ ''0'' @ crlf], tx = []\<rparr>)
       = (Ok (THeader chunked_response False), u1, s1) \<and>
     drain (response_piece list_http (hex_line 0 0) script_io) 28 u1 s1 = Some (Ok bss, u2, s2) \<and>
     concat bss = ''hello'' \<and> read_state (us_reader u2) = RCompleted 5"
proof -
  let ?s = "\<lparr>rx = [''transfer-'', ''encoding:chunked5'', crlf @ ''hel'', ''lo'' @ crlf @ ''0'' @ crlf], tx = []\<rparr>"
  let ?cs = "[(''5'' @ crlf, ''hello'', crlf)]"
  have pend: "concat (rx ?s) = ''transfer-encoding:chunked'' @ wire ?cs ((''0'' @ crlf) @ [])" by simp
  have get: "rq_method \<lparr>rq_method = ''GET'', rq_uri = ''/'', rq_version = HTTP_11, rq_headers = [], rq_case = [],
         rq_raw_path = ''/''\<rparr> \<noteq> ''HEAD''" by simp
  have len: "2 * length (wire ?cs ((''0'' @ crlf) @ [])) + 2 = 28" "length ''hello'' = 5"
    by (simp_all add: crlf_def)
  show ?thesis
    using upstream_response_delivered [where s = ?s and rs = chunked_response and cs = ?cs and extra = "[]"
        and pcs = "hex_line 0 0", OF script_delivers script_delivers_buf example_awaiting get chunked_response_head(1,3,2,4-6)
        hello_chunk(1,2) pend hello_chunk(3)]
    unfolding len hello_chunk(4) by blast
qed

text \<open>
  A server that closes the connection without answering makes the session panic:
  \<open>read_response\<close> returns normally without a header, and the \<open>unwrap\<close> that the code calls safe fails.
\<close>

theorem silent_upstream_panics:
  assumes "us_response u = None" "io_read_buf io s = (Inr [], s')"
  shows "\<exists>u'. read_upstream_response H parse pcs io (u, s) = (Panic ''unwrap on None'', u', s')"
  using assms
  by (simp add: read_upstream_response_def should_read_response_header_def abind_def action_defs
        read_response_def read_head.simps max_buffer_size_def)

lemma silent_upstream_panics_witness:
  "\<exists>u' s'. read_upstream_response list_http (prefix_parser ''x''
       \<lparr>pp_code = None, pp_reason = None, pp_version = None, pp_headers = []\<rparr>) (hex_line 0 0) script_io
     (example_upstream, \<lparr>rx = [], tx = ''GET''\<rparr>) = (Panic ''unwrap on None'', u', s')"
proof -
  have "us_response example_upstream = None"
      "io_read_buf script_io \<lparr>rx = [], tx = ''GET''\<rparr> = (Inr [], \<lparr>rx = [], tx = ''GET''\<rparr>)"
    by (simp_all add: example_upstream_def script_io_def)
  from silent_upstream_panics [OF this] show ?thesis by blast
qed

text \<open>
  C39 (safety, code bug). Bytes that arrive in the same segment as an interim (1xx) response are lost:
  the next read starts with a cleared buffer. If they were the final response and the server has
  closed, that read finds nothing, returns normally, and the session panics on the offset it kept
  from the interim head; the final response never reaches the client.
\<close>

theorem interim_swallows_final:
  assumes "parse (head @ final) = PComplete (length head) p" "head \<noteq> []"
    and "assemble_response H (head @ final) p = Ok rs"
    and "is_informational (rs_status rs)" "rs_status rs \<noteq> 101" "awaiting_response rq u" "rq_method rq \<noteq> ''HEAD''"
    and "io_read_buf io s = (Inr (head @ final), s')" "io_read_buf io s' = (Inr [], s')"
  shows "\<exists>u1 u2 m. read_upstream_response H parse pcs io (u, s) = (Ok (THeader rs False), u1, s') \<and>
     read_upstream_response H parse pcs io (u1, s') = (Panic m, u2, s')"
proof -
  let ?u = "response_read H rq head final rs u"
  have u: "us_request u = Some rq" "is_start (us_reader u)" "should_read_response_header u"
    using assms(6) by (simp_all add: awaiting_response_def is_start_def body_reader_new_def)
  have code: "100 \<le> rs_status rs" "rs_status rs \<le> 199"
    using assms(4) by (simp_all add: is_informational_def)
  have hd: "read_head parse io [] s = (HeadParsed (head @ final) (length head) p, s')"
      "read_head parse io [] s' = (HeadEof, s')"
    using assms(1,2,8,9) by (simp_all add: read_head.simps max_buffer_size_def)
  have first: "read_response H parse io (u, s) = (Ok (), ?u, s')"
    using hd(1) assms(3) u(1)
    by (simp add: read_response_def response_read_def us_is_session_upgrade_def us_is_request_upgrade_def)
  have fields: "us_response ?u = Some rs" "us_reader ?u = us_reader u" "us_request ?u = Some rq"
      "us_buffer ?u = head @ final"
      "us_body_offset ?u = Some (Offset (length head) (length (head @ final)))"
    using u(1) by (simp_all add: response_read_def)
  have "response_read_mode H ?u b = Ok None" for b
    using fields(1,3) assms(5,7) code
    by (simp add: response_read_mode_def us_get_status_code_def us_get_response_def)
  then have set: "set_response_body_reader H (?u, s') = (Ok (), ?u, s')"
    using fields(2,4,5) u(2) by (simp add: set_response_body_reader_def get_slice_def)
  have nf: "\<not> is_finished (us_reader ?u)"
    using u(2) fields(2) by (auto simp: is_start_def is_finished_def split: read_state.splits)
  have "read_upstream_response H parse pcs io (u, s) = (Ok (THeader rs False), ?u, s')"
    using read_header_task [OF u(3) first fields(1) set, of pcs] nf by simp
  moreover have "should_read_response_header ?u"
    using fields(1) code assms(5) by (simp add: should_read_response_header_def)
  moreover have "read_response H parse io (?u, s') = (Ok (), ?u\<lparr>us_buffer := []\<rparr>, s')"
    using hd(2) by (simp add: read_response_def)
  moreover obtain m where "set_response_body_reader H (?u\<lparr>us_buffer := []\<rparr>, s') = (Panic m, ?u\<lparr>us_buffer := []\<rparr>, s')"
    using fields u(2) assms(2) by (simp add: set_response_body_reader_def get_slice_def)
  ultimately have "\<exists>u2 m. read_upstream_response H parse pcs io (?u, s') = (Panic m, u2, s')"
    using fields(1)
    by (simp add: read_upstream_response_def is_reading_response_body_finished_def
          abind_def [of "read_response H parse io"] abind_def [of "set_response_body_reader H"]
          abind_def [of "abind (set_response_body_reader H) m" for m])
  then show ?thesis
    using \<open>read_upstream_response H parse pcs io (u, s) = (Ok (THeader rs False), ?u, s')\<close> by blast
qed

lemma interim_swallows_final_witness:
  "\<exists>u1 u2 m.
     read_upstream_response list_http (prefix_parser ''100'' \<lparr>pp_code = Some 100, pp_reason = None, pp_version = Some 1,
         pp_headers = []\<rparr>) (hex_line 0 0) script_io (example_upstream, \<lparr>rx = [''100'' @ ''200 OK''], tx = []\<rparr>)
       = (Ok (THeader (chunked_response\<lparr>rs_status := 100, rs_headers := [], rs_case := []\<rparr>) False), u1, \<lparr>rx = [[]], tx = []\<rparr>) \<and>
     read_upstream_response list_http (prefix_parser ''100'' \<lparr>pp_code = Some 100, pp_reason = None, pp_version = Some 1,
         pp_headers = []\<rparr>) (hex_line 0 0) script_io (u1, \<lparr>rx = [[]], tx = []\<rparr>) = (Panic m, u2, \<lparr>rx = [[]], tx = []\<rparr>)"
proof -
  let ?p = "\<lparr>pp_code = Some 100, pp_reason = None, pp_version = Some 1, pp_headers = []\<rparr>"
  let ?rs = "chunked_response\<lparr>rs_status := 100, rs_headers := [], rs_case := []\<rparr>"
  have parse: "prefix_parser ''100'' ?p (''100'' @ ''200 OK'') = PComplete (length ''100'') ?p"
    by (simp add: prefix_parser_def)
  have asm: "assemble_response list_http (''100'' @ ''200 OK'') ?p = Ok ?rs"
    by (simp add: assemble_response_def header_offsets_def parsed_version_def rs_build_def chunked_response_def
          rs_set_reason_phrase_def list_http_def)
  have st: "is_informational (rs_status ?rs)" "rs_status ?rs \<noteq> 101"
      "rq_method \<lparr>rq_method = ''GET'', rq_uri = ''/'', rq_version = HTTP_11, rq_headers = [], rq_case = [],
         rq_raw_path = ''/''\<rparr> \<noteq> ''HEAD''" "''100'' \<noteq> []"
    by (simp_all add: is_informational_def)
  have reads: "io_read_buf script_io \<lparr>rx = [''100'' @ ''200 OK''], tx = []\<rparr> = (Inr (''100'' @ ''200 OK''), \<lparr>rx = [[]], tx = []\<rparr>)"
      "io_read_buf script_io \<lparr>rx = [[]], tx = []\<rparr> = (Inr [], \<lparr>rx = [[]], tx = []\<rparr>)"
    by (simp_all add: script_io_def)
  show ?thesis
    by (rule interim_swallows_final [where head = "''100''" and final = "''200 OK''" and p = ?p
          and parse = "prefix_parser ''100'' ?p", OF parse st(4) asm st(1,2) example_awaiting st(3) reads])
qed

end
