(* ===== verification/Duplex.thy ===== *)
theory Duplex
  imports Upstream
begin

text \<open>
  The proxy loop of a connection (core/src/service/proxy/duplex.rs): two futures that run concurrently,
  one for the downstream session and one for the upstream session, joined by two bounded channels of
  tasks. A step of the relation below is one branch of one of the two \<open>select!\<close>, including the handler
  it runs. When the branch that receives a task is ready first, the future of the other branch is dropped at
  the await it has reached: what such a read has done until then is the sessions' business, two of the
  operations below. The sessions' methods are operations of a record, instantiated in
  DuplexProperties.thy with the two sessions.
\<close>

section \<open>The state of the two loops\<close>

definition channel_size :: nat where
  "channel_size = 32"

text \<open>
  A loop runs with its two flags, the request being done and the response being done; it waits to
  send a task; or it has ended, with the error it returned if any. \<open>DLast\<close> and \<open>ULast\<close> send a failure
  and return.
\<close>

datatype 'm down_loop = DRun bool bool | DLast "'m task" | DEnd "io_error option" | DPanic string

datatype 'm up_loop = URun bool bool | USend bool "'m task" | ULast "'m task" | UEnd "io_error option" | UPanic string

record ('m, 'x, 'y) duplex_ops =
  op_retry_buffer :: "'x \<Rightarrow> bytes option"
  op_read_request :: "'x \<Rightarrow> 'm task outcome \<times> 'x"
  op_write_response :: "'m task list \<Rightarrow> 'x \<Rightarrow> bool outcome \<times> 'x"
  op_read_response :: "'y \<Rightarrow> 'm task outcome \<times> 'y"
  op_write_request :: "'m task \<Rightarrow> 'y \<Rightarrow> bool outcome \<times> 'y"
  op_request_upgrade :: "'y \<Rightarrow> bool outcome"
  op_drop_request :: "'x \<Rightarrow> 'x \<Rightarrow> bool"
  op_drop_response :: "'y \<Rightarrow> 'y \<Rightarrow> bool"

record ('m, 'x, 'y) duplex =
  dx_down :: 'x
  dx_up :: 'y
  dx_requests :: "'m task list"
  dx_responses :: "'m task list"
  dx_dl :: "'m down_loop"
  dx_ul :: "'m up_loop"

definition duplex_start :: "('m, 'x, 'y) duplex_ops \<Rightarrow> 'x \<Rightarrow> 'y \<Rightarrow> ('m, 'x, 'y) duplex" where
  "duplex_start Ops x y =
     \<lparr>dx_down = x, dx_up = y,
      dx_requests = (case op_retry_buffer Ops x of Some b \<Rightarrow> [TBody (Some b) False] | None \<Rightarrow> []),
      dx_responses = [], dx_dl = DRun False False, dx_ul = URun False False\<rparr>"

text \<open>A future that has returned has dropped its halves of the channels.\<close>

definition down_ended :: "('m, 'x, 'y) duplex \<Rightarrow> bool" where
  "down_ended s = (case dx_dl s of DEnd r \<Rightarrow> True | _ \<Rightarrow> False)"

definition up_ended :: "('m, 'x, 'y) duplex \<Rightarrow> bool" where
  "up_ended s = (case dx_ul s of UEnd r \<Rightarrow> True | _ \<Rightarrow> False)"

definition permit :: "('m, 'x, 'y) duplex \<Rightarrow> bool" where
  "permit s \<longleftrightarrow> \<not> up_ended s \<and> length (dx_requests s) < channel_size"

section \<open>The steps\<close>

text \<open>
  The session as the receiving branch of the \<open>select!\<close> finds it: untouched, when that branch was polled first, or as
  the dropped read of the other branch left it. The read is polled only under its branch's condition.
\<close>

definition down_left :: "('m, 'x, 'y) duplex_ops \<Rightarrow> ('m, 'x, 'y) duplex \<Rightarrow> bool \<Rightarrow> 'x \<Rightarrow> bool" where
  "down_left Ops s rd x \<longleftrightarrow> x = dx_down s \<or> \<not> rd \<and> permit s \<and> op_drop_request Ops (dx_down s) x"

definition up_left :: "('m, 'x, 'y) duplex_ops \<Rightarrow> ('m, 'x, 'y) duplex \<Rightarrow> bool \<Rightarrow> 'y \<Rightarrow> bool" where
  "up_left Ops s qd y \<longleftrightarrow> y = dx_up s \<or> \<not> qd \<and> op_drop_response Ops (dx_up s) y"

lemma left_untouched [simp]: "down_left Ops s rd (dx_down s)" "up_left Ops s qd (dx_up s)"
  by (simp_all add: down_left_def up_left_def)

inductive down_step :: "('m, 'x, 'y) duplex_ops \<Rightarrow> ('m, 'x, 'y) duplex \<Rightarrow> ('m, 'x, 'y) duplex \<Rightarrow> bool"
  for Ops s where
  d_read_body: "dx_dl s = DRun False qd \<Longrightarrow> permit s \<Longrightarrow> op_read_request Ops (dx_down s) = (Ok (TBody b e), x) \<Longrightarrow>
    down_step Ops s (s\<lparr>dx_down := x, dx_requests := dx_requests s @ [TBody b e], dx_dl := DRun e qd\<rparr>)"
| d_read_done: "dx_dl s = DRun False qd \<Longrightarrow> permit s \<Longrightarrow> op_read_request Ops (dx_down s) = (Ok TDone, x) \<Longrightarrow>
    down_step Ops s (s\<lparr>dx_down := x, dx_dl := DRun False True\<rparr>)"
| d_read_other: "dx_dl s = DRun False qd \<Longrightarrow> permit s \<Longrightarrow> op_read_request Ops (dx_down s) = (Ok t, x) \<Longrightarrow>
    t \<noteq> TDone \<Longrightarrow> (\<forall>b e. t \<noteq> TBody b e) \<Longrightarrow>
    down_step Ops s (s\<lparr>dx_down := x, dx_dl := DPanic ''unexpected downstream read task''\<rparr>)"
| d_read_error: "dx_dl s = DRun False qd \<Longrightarrow> permit s \<Longrightarrow> op_read_request Ops (dx_down s) = (Err err, x) \<Longrightarrow>
    down_step Ops s (s\<lparr>dx_down := x, dx_dl := DLast (TFailed err)\<rparr>)"
| d_read_panic: "dx_dl s = DRun False qd \<Longrightarrow> permit s \<Longrightarrow> op_read_request Ops (dx_down s) = (Panic p, x) \<Longrightarrow>
    down_step Ops s (s\<lparr>dx_down := x, dx_dl := DPanic p\<rparr>)"
| d_write: "dx_dl s = DRun rd False \<Longrightarrow> dx_responses s = ts @ rest \<Longrightarrow> ts \<noteq> [] \<Longrightarrow> down_left Ops s rd x0 \<Longrightarrow>
    op_write_response Ops ts x0 = (Ok e, x) \<Longrightarrow>
    down_step Ops s (s\<lparr>dx_down := x, dx_responses := rest, dx_dl := DRun e e\<rparr>)"
| d_write_error: "dx_dl s = DRun rd False \<Longrightarrow> dx_responses s = ts @ rest \<Longrightarrow> ts \<noteq> [] \<Longrightarrow> down_left Ops s rd x0 \<Longrightarrow>
    op_write_response Ops ts x0 = (Err err, x) \<Longrightarrow>
    down_step Ops s (s\<lparr>dx_down := x, dx_responses := rest, dx_dl := DEnd (Some err)\<rparr>)"
| d_write_panic: "dx_dl s = DRun rd False \<Longrightarrow> dx_responses s = ts @ rest \<Longrightarrow> ts \<noteq> [] \<Longrightarrow> down_left Ops s rd x0 \<Longrightarrow>
    op_write_response Ops ts x0 = (Panic p, x) \<Longrightarrow>
    down_step Ops s (s\<lparr>dx_down := x, dx_responses := rest, dx_dl := DPanic p\<rparr>)"
| d_closed: "dx_dl s = DRun rd False \<Longrightarrow> dx_responses s = [] \<Longrightarrow> up_ended s \<Longrightarrow> down_left Ops s rd x0 \<Longrightarrow>
    down_step Ops s (s\<lparr>dx_down := x0, dx_dl := DRun rd True\<rparr>)"
| d_else: "dx_dl s = DRun False True \<Longrightarrow> \<not> permit s \<Longrightarrow> down_step Ops s (s\<lparr>dx_dl := DEnd None\<rparr>)"
| d_exit: "dx_dl s = DRun True True \<Longrightarrow> down_step Ops s (s\<lparr>dx_dl := DEnd None\<rparr>)"
| d_last: "dx_dl s = DLast t \<Longrightarrow> \<not> up_ended s \<Longrightarrow> Suc (length (dx_requests s)) < channel_size \<Longrightarrow>
    down_step Ops s (s\<lparr>dx_requests := dx_requests s @ [t], dx_dl := DEnd None\<rparr>)"
| d_last_closed: "dx_dl s = DLast t \<Longrightarrow> up_ended s \<Longrightarrow> down_step Ops s (s\<lparr>dx_dl := DEnd None\<rparr>)"

inductive up_step :: "('m, 'x, 'y) duplex_ops \<Rightarrow> ('m, 'x, 'y) duplex \<Rightarrow> ('m, 'x, 'y) duplex \<Rightarrow> bool"
  for Ops s where
  u_read: "dx_ul s = URun rd False \<Longrightarrow> op_read_response Ops (dx_up s) = (Ok t, y) \<Longrightarrow>
    up_step Ops s (s\<lparr>dx_up := y, dx_ul := USend (task_is_end t) t\<rparr>)"
| u_read_error: "dx_ul s = URun rd False \<Longrightarrow> op_read_response Ops (dx_up s) = (Err err, y) \<Longrightarrow>
    up_step Ops s (s\<lparr>dx_up := y, dx_ul := ULast (TFailed err)\<rparr>)"
| u_read_panic: "dx_ul s = URun rd False \<Longrightarrow> op_read_response Ops (dx_up s) = (Panic p, y) \<Longrightarrow>
    up_step Ops s (s\<lparr>dx_up := y, dx_ul := UPanic p\<rparr>)"
| u_send: "dx_ul s = USend e t \<Longrightarrow> \<not> down_ended s \<Longrightarrow> length (dx_responses s) < channel_size \<Longrightarrow>
    up_step Ops s (s\<lparr>dx_responses := dx_responses s @ [t], dx_ul := URun e e\<rparr>)"
| u_send_closed: "dx_ul s = USend e t \<Longrightarrow> down_ended s \<Longrightarrow>
    up_step Ops s (s\<lparr>dx_ul := (case op_request_upgrade Ops (dx_up s) of
        Ok True \<Rightarrow> URun e e | Ok False \<Rightarrow> UEnd (Some (Other ''channel closed''))
      | Err err \<Rightarrow> UEnd (Some err) | Panic p \<Rightarrow> UPanic p)\<rparr>)"
| u_write: "dx_ul s = URun False qd \<Longrightarrow> dx_requests s = t # rest \<Longrightarrow> up_left Ops s qd y0 \<Longrightarrow>
    op_write_request Ops t y0 = (Ok e, y) \<Longrightarrow>
    up_step Ops s (s\<lparr>dx_up := y, dx_requests := rest, dx_ul := URun e qd\<rparr>)"
| u_write_error: "dx_ul s = URun False qd \<Longrightarrow> dx_requests s = t # rest \<Longrightarrow> up_left Ops s qd y0 \<Longrightarrow>
    op_write_request Ops t y0 = (Err err, y) \<Longrightarrow>
    up_step Ops s (s\<lparr>dx_up := y, dx_requests := rest, dx_ul := UEnd (Some err)\<rparr>)"
| u_write_panic: "dx_ul s = URun False qd \<Longrightarrow> dx_requests s = t # rest \<Longrightarrow> up_left Ops s qd y0 \<Longrightarrow>
    op_write_request Ops t y0 = (Panic p, y) \<Longrightarrow>
    up_step Ops s (s\<lparr>dx_up := y, dx_requests := rest, dx_ul := UPanic p\<rparr>)"
| u_closed: "dx_ul s = URun False qd \<Longrightarrow> dx_requests s = [] \<Longrightarrow> down_ended s \<Longrightarrow> up_left Ops s qd y0 \<Longrightarrow>
    up_step Ops s (s\<lparr>dx_up := y0, dx_ul := URun True qd\<rparr>)"
| u_exit: "dx_ul s = URun True True \<Longrightarrow> up_step Ops s (s\<lparr>dx_ul := UEnd None\<rparr>)"
| u_last: "dx_ul s = ULast t \<Longrightarrow> \<not> down_ended s \<Longrightarrow> length (dx_responses s) < channel_size \<Longrightarrow>
    up_step Ops s (s\<lparr>dx_responses := dx_responses s @ [t], dx_ul := UEnd None\<rparr>)"
| u_last_closed: "dx_ul s = ULast t \<Longrightarrow> down_ended s \<Longrightarrow> up_step Ops s (s\<lparr>dx_ul := UEnd None\<rparr>)"

text \<open>
  \<open>try_join!\<close> runs both until both have returned, or one has returned an error or panicked: that is
  the result of \<open>copy_bidirectional\<close>.
\<close>

definition copy_result :: "('m, 'x, 'y) duplex \<Rightarrow> unit outcome option" where
  "copy_result s =
     (case (dx_dl s, dx_ul s) of
        (DPanic p, _) \<Rightarrow> Some (Panic p)
      | (_, UPanic p) \<Rightarrow> Some (Panic p)
      | (DEnd (Some e), _) \<Rightarrow> Some (Err e)
      | (_, UEnd (Some e)) \<Rightarrow> Some (Err e)
      | (DEnd None, UEnd None) \<Rightarrow> Some (Ok ())
      | _ \<Rightarrow> None)"

inductive duplex_step :: "('m, 'x, 'y) duplex_ops \<Rightarrow> ('m, 'x, 'y) duplex \<Rightarrow> ('m, 'x, 'y) duplex \<Rightarrow> bool"
  for Ops s where
  by_down: "copy_result s = None \<Longrightarrow> down_step Ops s s' \<Longrightarrow> duplex_step Ops s s'"
| by_up: "copy_result s = None \<Longrightarrow> up_step Ops s s' \<Longrightarrow> duplex_step Ops s s'"

inductive_cases down_stepE: "down_step Ops s s'"
inductive_cases up_stepE: "up_step Ops s s'"
inductive_simps duplex_step_iff: "duplex_step Ops s s'"

abbreviation duplex_run :: "('m, 'x, 'y) duplex_ops \<Rightarrow> ('m, 'x, 'y) duplex \<Rightarrow> ('m, 'x, 'y) duplex \<Rightarrow> bool" where
  "duplex_run Ops \<equiv> (duplex_step Ops)\<^sup>*\<^sup>*"

text \<open>Neither channel ever holds more than its size.\<close>

definition channels_bounded :: "('m, 'x, 'y) duplex \<Rightarrow> bool" where
  "channels_bounded s \<longleftrightarrow> length (dx_requests s) \<le> channel_size \<and> length (dx_responses s) \<le> channel_size"

lemma down_step_bounded: "down_step Ops s s' \<Longrightarrow> channels_bounded s \<Longrightarrow> channels_bounded s'"
  by (erule down_stepE) (auto simp: channels_bounded_def permit_def)

lemma up_step_bounded: "up_step Ops s s' \<Longrightarrow> channels_bounded s \<Longrightarrow> channels_bounded s'"
  by (erule up_stepE) (auto simp: channels_bounded_def)

lemma run_bounded:
  assumes "duplex_run Ops s s'" "channels_bounded s"
  shows "channels_bounded s'"
  using assms
  by (induction rule: rtranclp_induct) (auto simp: duplex_step_iff dest: down_step_bounded up_step_bounded)

section \<open>What the sessions owe the request body\<close>

text \<open>The bytes a task carries, and those of a channel.\<close>

fun task_bytes :: "'m task \<Rightarrow> bytes" where
  "task_bytes (TBody (Some b) e) = b"
| "task_bytes t = []"

definition channel_bytes :: "'m task list \<Rightarrow> bytes" where
  "channel_bytes ts = concat (map task_bytes ts)"

lemma channel_bytes_simps [simp]:
  "channel_bytes [] = []" "channel_bytes (t # ts) = task_bytes t @ channel_bytes ts"
  "channel_bytes (ts @ us) = channel_bytes ts @ channel_bytes us"
  by (simp_all add: channel_bytes_def)

text \<open>
  The contract on which the request body crosses the loop: \<open>unread rest x\<close>, the downstream session has
  still to hand out \<open>rest\<close>; \<open>written sent y\<close>, the upstream session has been given \<open>sent\<close>.
\<close>

locale request_pipe =
  fixes Ops :: "('m, 'x, 'y) duplex_ops"
    and unread :: "bytes \<Rightarrow> 'x \<Rightarrow> bool"
    and written :: "bytes \<Rightarrow> 'y \<Rightarrow> bool"
  assumes reads: "unread rest x \<Longrightarrow> op_read_request Ops x = (Ok t, x') \<Longrightarrow>
      \<exists>rest'. rest = task_bytes t @ rest' \<and> unread rest' x'"
    and responds: "unread rest x \<Longrightarrow> op_write_response Ops ts x = (Ok e, x') \<Longrightarrow> unread rest x'"
    and receives: "written sent y \<Longrightarrow> op_read_response Ops y = (r, y') \<Longrightarrow> written sent y'"
    and writes: "written sent y \<Longrightarrow> op_write_request Ops t y = (Ok e, y') \<Longrightarrow> written (sent @ task_bytes t) y'"
    and drops_request: "unread rest x \<Longrightarrow> op_drop_request Ops x x' \<Longrightarrow> unread rest x'"
    and drops_response: "written sent y \<Longrightarrow> op_drop_response Ops y y' \<Longrightarrow> written sent y'"
begin

lemma unread_left: "unread rest (dx_down s) \<Longrightarrow> down_left Ops s rd x \<Longrightarrow> unread rest x"
  by (auto simp: down_left_def intro: drops_request)

lemma written_left: "written sent (dx_up s) \<Longrightarrow> up_left Ops s qd y \<Longrightarrow> written sent y"
  by (auto simp: up_left_def intro: drops_response)

text \<open>
  Nothing is lost, duplicated or reordered between the sessions: while the copy runs, the body is what
  the upstream session was given, what is in the channel, and what the downstream session has not read.
\<close>

definition conserved :: "bytes \<Rightarrow> ('m, 'x, 'y) duplex \<Rightarrow> bool" where
  "conserved body s \<longleftrightarrow>
     (\<exists>sent rest. written sent (dx_up s) \<and> body = sent @ channel_bytes (dx_requests s) @ rest \<and>
        (\<forall>rd qd. dx_dl s = DRun rd qd \<longrightarrow> unread rest (dx_down s)) \<and>
        (\<forall>t. dx_dl s = DLast t \<longrightarrow> task_bytes t = []))"

lemma conservedI:
  assumes "written sent (dx_up s)" "body = sent @ channel_bytes (dx_requests s) @ rest"
    and "\<And>rd qd. dx_dl s = DRun rd qd \<Longrightarrow> unread rest (dx_down s)" "\<And>t. dx_dl s = DLast t \<Longrightarrow> task_bytes t = []"
  shows "conserved body s"
  unfolding conserved_def using assms by blast

lemma down_conserved:
  assumes "down_step Ops s s'" "conserved body s"
  shows "conserved body s'"
proof -
  obtain sent rest where I: "written sent (dx_up s)" "body = sent @ channel_bytes (dx_requests s) @ rest"
      "\<And>rd qd. dx_dl s = DRun rd qd \<Longrightarrow> unread rest (dx_down s)" "\<And>t. dx_dl s = DLast t \<Longrightarrow> task_bytes t = []"
    using assms(2) unfolding conserved_def by blast
  from assms(1) show ?thesis
  proof cases
    case (d_read_body qd b e x)
    from reads [OF I(3) [OF d_read_body(2)] d_read_body(4)] obtain rest' where
      "rest = task_bytes (TBody b e :: 'm task) @ rest'" "unread rest' x" by blast
    then show ?thesis unfolding d_read_body(1)
      by (intro conservedI [of sent _ _ rest']) (use I(1,2) in simp_all)
  next
    case (d_read_done qd x)
    from reads [OF I(3) [OF d_read_done(2)] d_read_done(4)] have "unread rest x" by simp
    then show ?thesis unfolding d_read_done(1)
      by (intro conservedI [of sent _ _ rest]) (use I(1,2) in simp_all)
  next
    case (d_write rd ts rest' x0 e x)
    from responds [OF unread_left [OF I(3) [OF d_write(2)] d_write(5)] d_write(6)] show ?thesis unfolding d_write(1)
      by (intro conservedI [of sent _ _ rest]) (use I(1,2) in simp_all)
  next
    case (d_read_error qd err x)
    with I(1,2) show ?thesis by (intro conservedI [of sent _ _ rest]) auto
  next
    case (d_closed rd x0)
    with I(1,2) unread_left [OF I(3) [OF d_closed(2)] d_closed(5)] show ?thesis
      by (intro conservedI [of sent _ _ rest]) simp_all
  next
    case (d_last t)
    with I(1,2) I(4) [OF d_last(2)] show ?thesis by (intro conservedI [of sent _ _ rest]) simp_all
  qed ((rule conservedI [of sent _ _ rest]; use I in simp)+)
qed

lemma up_conserved:
  assumes "up_step Ops s s'" "conserved body s"
  shows "conserved body s' \<or> (\<exists>err. dx_ul s' = UEnd (Some err)) \<or> (\<exists>p. dx_ul s' = UPanic p)"
proof -
  obtain sent rest where I: "written sent (dx_up s)" "body = sent @ channel_bytes (dx_requests s) @ rest"
      "\<And>rd qd. dx_dl s = DRun rd qd \<Longrightarrow> unread rest (dx_down s)" "\<And>t. dx_dl s = DLast t \<Longrightarrow> task_bytes t = []"
    using assms(2) unfolding conserved_def by blast
  from assms(1) show ?thesis
  proof cases
    case (u_read rd t y)
    from receives [OF I(1) u_read(3)] I show ?thesis unfolding u_read(1)
      by (intro disjI1 conservedI [of sent _ _ rest]) simp_all
  next
    case (u_read_error rd err y)
    from receives [OF I(1) u_read_error(3)] I show ?thesis unfolding u_read_error(1)
      by (intro disjI1 conservedI [of sent _ _ rest]) simp_all
  next
    case (u_write qd t rest' y0 e y)
    from writes [OF written_left [OF I(1) u_write(4)] u_write(5)] I u_write(3) show ?thesis unfolding u_write(1)
      by (intro disjI1 conservedI [of "sent @ task_bytes t" _ _ rest]) simp_all
  next
    case (u_send e t)
    with I show ?thesis by (intro disjI1 conservedI [of sent _ _ rest]) simp_all
  next
    case (u_send_closed e t)
    with I show ?thesis by (intro disjI1 conservedI [of sent _ _ rest]) simp_all
  next
    case (u_closed qd y0)
    with I written_left [OF I(1) u_closed(5)] show ?thesis by (intro disjI1 conservedI [of sent _ _ rest]) simp_all
  next
    case u_exit
    with I show ?thesis by (intro disjI1 conservedI [of sent _ _ rest]) simp_all
  next
    case (u_last t)
    with I show ?thesis by (intro disjI1 conservedI [of sent _ _ rest]) simp_all
  next
    case (u_last_closed t)
    with I show ?thesis by (intro disjI1 conservedI [of sent _ _ rest]) simp_all
  qed simp_all
qed

lemma run_conserved:
  assumes "duplex_run Ops s s'" "conserved body s"
  shows "conserved body s' \<or> (\<exists>err. dx_ul s' = UEnd (Some err)) \<or> (\<exists>p. dx_ul s' = UPanic p)"
  using assms(1)
proof (induction rule: rtranclp_induct)
  case base
  then show ?case using assms(2) by blast
next
  case (step t u)
  have "copy_result t = None" using step(2) by (auto simp: duplex_step_iff)
  then have "\<not> (\<exists>err. dx_ul t = UEnd (Some err))" "\<not> (\<exists>p. dx_ul t = UPanic p)"
    by (auto simp: copy_result_def split: down_loop.splits option.splits)
  then have "conserved body t" using step(3) by blast
  with step(2) show ?case by (auto simp: duplex_step_iff dest: down_conserved up_conserved)
qed

lemma start_conserved:
  assumes "unread body x" "written [] y" "op_retry_buffer Ops x = None"
  shows "conserved body (duplex_start Ops x y)"
  using assms by (auto simp: conserved_def duplex_start_def)

end

end
