(* ===== verification/DuplexProperties.thy ===== *)
theory DuplexProperties
  imports Duplex
begin

text \<open>
  The proxy loop on the two sessions: the operations of Duplex.thy instantiated, \<open>handle_process\<close>
  (core/src/service/proxy/duplex.rs), the request body's way from the client's socket to the server's, and
  what the loop does when a side stops early.
\<close>

section \<open>The loop on the sessions\<close>

definition session_ops ::
  "'m http \<Rightarrow> (bytes \<Rightarrow> parsed_response parse_status) \<Rightarrow> (bytes \<Rightarrow> chunk_status) \<Rightarrow> bytes \<Rightarrow> 's io \<Rightarrow> 't io
   \<Rightarrow> ('m, 'm downstream \<times> 's, 'm upstream \<times> 't) duplex_ops" where
  "session_ops H parse pcs date dio uio =
     \<lparr>op_retry_buffer = (\<lambda>x. get_retry_buffer (fst x)),
      op_read_request = read_downstream_request H pcs dio,
      op_write_response = write_downstream_response H dio date,
      op_read_response = read_upstream_response H parse pcs uio,
      op_write_request = write_upstream_request uio,
      op_request_upgrade = (\<lambda>y. us_is_request_upgrade H (fst y)),
      op_drop_request = request_read_dropped H,
      op_drop_response = response_read_dropped H parse uio\<rparr>"

lemma session_ops_simps [simp]:
  "op_retry_buffer (session_ops H parse pcs date dio uio) = (\<lambda>x. get_retry_buffer (fst x))"
  "op_read_request (session_ops H parse pcs date dio uio) = read_downstream_request H pcs dio"
  "op_write_response (session_ops H parse pcs date dio uio) = write_downstream_response H dio date"
  "op_read_response (session_ops H parse pcs date dio uio) = read_upstream_response H parse pcs uio"
  "op_write_request (session_ops H parse pcs date dio uio) = write_upstream_request uio"
  "op_request_upgrade (session_ops H parse pcs date dio uio) = (\<lambda>y. us_is_request_upgrade H (fst y))"
  "op_drop_request (session_ops H parse pcs date dio uio) = request_read_dropped H"
  "op_drop_response (session_ops H parse pcs date dio uio) = response_read_dropped H parse uio"
  by (simp_all add: session_ops_def)

text \<open>
  \<open>handle_process\<close> up to the copy: the client's request is read, its header is sent to the server. The
  lookup of a header \<open>test\<close> for printing is left out.
\<close>

definition prepare_exchange ::
  "'m http \<Rightarrow> (bytes \<Rightarrow> parsed_request parse_status) \<Rightarrow> 's io \<Rightarrow> 't io \<Rightarrow> 's \<Rightarrow> 't
   \<Rightarrow> (('m downstream \<times> 's) \<times> ('m upstream \<times> 't)) outcome" where
  "prepare_exchange H parse dio uio client server =
     (case read_request H parse dio (downstream_new, client) of
        (Err e, x) \<Rightarrow> Err e
      | (Panic p, x) \<Rightarrow> Panic p
      | (Ok _, d, s) \<Rightarrow>
          bind_outcome (ds_get_request d) (\<lambda>rq.
            (case write_request_header H uio rq (upstream_new, server) of
               (Err e, y) \<Rightarrow> Err e
             | (Panic p, y) \<Rightarrow> Panic p
             | (Ok _, y) \<Rightarrow> Ok ((enable_retry_buffer d, s), y))))"

inductive handle_process ::
  "'m http \<Rightarrow> (bytes \<Rightarrow> parsed_request parse_status) \<Rightarrow> (bytes \<Rightarrow> parsed_response parse_status)
   \<Rightarrow> (bytes \<Rightarrow> chunk_status) \<Rightarrow> bytes \<Rightarrow> 's io \<Rightarrow> 't io \<Rightarrow> 's \<Rightarrow> 't \<Rightarrow> 't outcome \<Rightarrow> bool"
  for H parse_rq parse_rs pcs date dio uio client server where
  process_fails: "prepare_exchange H parse_rq dio uio client server = Err e \<Longrightarrow>
    handle_process H parse_rq parse_rs pcs date dio uio client server (Err e)"
| process_panics: "prepare_exchange H parse_rq dio uio client server = Panic p \<Longrightarrow>
    handle_process H parse_rq parse_rs pcs date dio uio client server (Panic p)"
| process_copies: "prepare_exchange H parse_rq dio uio client server = Ok (x, y) \<Longrightarrow>
    duplex_run (session_ops H parse_rs pcs date dio uio)
      (duplex_start (session_ops H parse_rs pcs date dio uio) x y) s \<Longrightarrow> copy_result s = Some r \<Longrightarrow>
    handle_process H parse_rq parse_rs pcs date dio uio client server
      (bind_outcome r (\<lambda>u. Ok (snd (dx_up s))))"

section \<open>Actions that keep a predicate\<close>

definition keeps :: "('d \<times> 's \<Rightarrow> bool) \<Rightarrow> ('a, 'd, 's) action \<Rightarrow> bool" where
  "keeps Q m \<longleftrightarrow> (\<forall>st. Q st \<longrightarrow> Q (snd (m st)))"

named_theorems keeps_intros \<open>how predicates pass through actions\<close>

lemma keeps_bind [keeps_intros]: "keeps Q m \<Longrightarrow> (\<And>a. keeps Q (f a)) \<Longrightarrow> keeps Q (abind m f)"
  unfolding keeps_def abind_def by (force split: outcome.split prod.split)

lemma keeps_simple [keeps_intros]:
  "keeps Q (areturn x)" "keeps Q (afail e)" "keeps Q (alift r)" "keeps Q (aget g)"
  by (simp_all add: keeps_def action_defs)

lemma keeps_map_err [keeps_intros]: "keeps Q m \<Longrightarrow> keeps Q (amap_err g m)"
  unfolding keeps_def amap_err_def by (force split: outcome.split prod.split)

lemma keeps_if [keeps_intros]: "(b \<Longrightarrow> keeps Q m) \<Longrightarrow> (\<not> b \<Longrightarrow> keeps Q m') \<Longrightarrow> keeps Q (if b then m else m')"
  by simp

lemma keepsD: "keeps Q m \<Longrightarrow> Q st \<Longrightarrow> m st = (r, st') \<Longrightarrow> Q st'"
  unfolding keeps_def by (metis snd_conv)

section \<open>The client's side\<close>

text \<open>A stream whose writes leave alone what its peer has still to deliver.\<close>

definition writes_keep :: "'s io \<Rightarrow> ('s \<Rightarrow> bytes) \<Rightarrow> bool" where
  "writes_keep io pending \<longleftrightarrow>
     (\<forall>bs s. pending (snd (io_write io bs s)) = pending s) \<and>
     (\<forall>bss s. pending (snd (io_write_vectored io bss s)) = pending s) \<and>
     (\<forall>bs s. pending (snd (io_write_all io bs s)) = pending s) \<and>
     (\<forall>s. pending (snd (io_flush io s)) = pending s)"

lemma script_writes_keep: "writes_keep script_io (\<lambda>s. concat (rx s))"
  by (simp add: writes_keep_def script_io_def)

lemma writes_keepD:
  shows "io_write io bs s = (r, s') \<Longrightarrow> writes_keep io pending \<Longrightarrow> pending s' = pending s"
    and "io_write_vectored io bss s = (r, s') \<Longrightarrow> writes_keep io pending \<Longrightarrow> pending s' = pending s"
    and "io_write_all io bs s = (r', s') \<Longrightarrow> writes_keep io pending \<Longrightarrow> pending s' = pending s"
    and "io_flush io s = (r', s') \<Longrightarrow> writes_keep io pending \<Longrightarrow> pending s' = pending s"
  unfolding writes_keep_def by (metis snd_conv)+

lemma poll_write_vec_keeps:
  assumes "poll_write_vec io buf s = (r, buf', s')" and K: "writes_keep io pending"
  shows "pending s' = pending s"
  using assms(1)
  by (auto simp: poll_write_vec_def Let_def dest!: writes_keepD [OF _ K] split: if_splits prod.splits sum.splits)

lemma write_vec_all_keeps:
  "write_vec_all io buf s = (r, s') \<Longrightarrow> writes_keep io pending \<Longrightarrow> pending s' = pending s"
proof (induction io buf s arbitrary: r s' rule: write_vec_all.induct)
  case (1 io buf s)
  show ?case
  proof (cases "concat buf = []")
    case True
    with 1 show ?thesis by (simp add: write_vec_all.simps [of io buf s])
  next
    case False
    obtain w buf1 s1 where p: "poll_write_vec io buf s = (w, buf1, s1)" by (metis prod_cases3)
    note step = poll_write_vec_keeps [OF p "1.prems"(2)]
    consider n where "w = Ok n" "n \<noteq> 0" | "s' = s1"
      using "1.prems"(1) False p by (cases w) (auto simp: write_vec_all.simps [of io buf s] split: if_splits)
    then show ?thesis
    proof cases
      case (1 n)
      with False p have "write_vec_all io buf s = write_vec_all io buf1 s1"
        by (simp add: write_vec_all.simps [of io buf s] del: concat_eq_Nil_conv)
      then have "write_vec_all io buf1 s1 = (r, s')" using "1.prems"(1) by simp
      from "1.IH" [OF False p [symmetric] 1(1) refl 1(2) this "1.prems"(2)] step show ?thesis by simp
    qed (use step in simp)
  qed
qed

lemma write_body_keeps:
  assumes "write_body io b w s = (r, w', s')" and K: "writes_keep io pending"
  shows "pending s' = pending s"
  using assms(1)
  by (auto simp: write_body_def write_by_content_length_def write_by_chunked_encoding_def write_until_closed_def Let_def
        dest!: writes_keepD [OF _ K] write_vec_all_keeps [OF _ K]
        split: write_state.splits if_splits prod.splits sum.splits outcome.splits)

lemma finish_keeps:
  assumes "finish io w s = (r, w', s')" and K: "writes_keep io pending"
  shows "pending s' = pending s"
  using assms(1)
  by (auto simp: finish_def finish_chunked_encoding_def dest!: writes_keepD [OF _ K]
        split: write_state.splits if_splits prod.splits sum.splits outcome.splits)


text \<open>
  The request body \<open>rest\<close> is still to be read from a content-length body: the head has been read and the
  first read will set up the reader, or reading goes on, or the session has stopped reading it: it was
  read to its end, or a response header has reset the reader.
\<close>

definition reader_unset :: "'m http \<Rightarrow> 's io \<Rightarrow> ('s \<Rightarrow> bytes) \<Rightarrow> bytes \<Rightarrow> 'm downstream \<Rightarrow> 's \<Rightarrow> bool" where
  "reader_unset H io pending rest d s \<longleftrightarrow>
     is_start (ds_reader d) \<and>
     (\<exists>off body rq. ds_body_offset d = Some off \<and> offset_get off (ds_buffer d) = Ok body \<and> ds_request d = Some rq \<and>
        content_length_rep io pending 0 rest (request_body_mode H rq body (ds_reader d)) s)"

definition unread_request :: "'m http \<Rightarrow> 's io \<Rightarrow> ('s \<Rightarrow> bytes) \<Rightarrow> bytes \<Rightarrow> 'm downstream \<times> 's \<Rightarrow> bool" where
  "unread_request H io pending rest x \<longleftrightarrow>
     writes_keep io pending \<and>
     (reader_unset H io pending rest (fst x) (snd x) \<or>
      (\<exists>n. content_length_rep io pending n rest (ds_reader (fst x)) (snd x)) \<or>
      (\<exists>n. read_state (ds_reader (fst x)) = RCompleted n))"

definition same_reading :: "'m downstream \<Rightarrow> 'm downstream \<Rightarrow> bool" where
  "same_reading d d' \<longleftrightarrow> ds_reader d' = ds_reader d \<and> ds_request d' = ds_request d \<and> ds_buffer d' = ds_buffer d \<and>
     ds_body_offset d' = ds_body_offset d"

lemma unread_frame:
  assumes "unread_request H io pending rest (d, s)" "same_reading d d'" "pending s' = pending s"
  shows "unread_request H io pending rest (d', s')"
  using assms by (auto simp: unread_request_def reader_unset_def same_reading_def content_length_rep_def)

lemma keeps_session_unread:
  assumes "\<And>d. same_reading d (f d) \<or> read_state (ds_reader (f d)) = RCompleted 0"
  shows "keeps (unread_request H io pending rest) (asession f)"
proof -
  have "unread_request H io pending rest (f d, s)" if "unread_request H io pending rest (d, s)" for d s
    using assms [of d] unread_frame [OF that, of "f d" s] that by (auto simp: unread_request_def)
  then show ?thesis by (simp add: keeps_def asession_def)
qed

lemma keepsI: "(\<And>d s. Q (d, s) \<Longrightarrow> Q (snd (m (d, s)))) \<Longrightarrow> keeps Q m"
  by (auto simp: keeps_def)

lemma keeps_write_unread [keeps_intros]:
  fixes H :: "'m http" and io :: "'s io" and pending :: "'s \<Rightarrow> bytes" and rest :: bytes
  defines "Q \<equiv> unread_request H io pending rest :: 'm downstream \<times> 's \<Rightarrow> bool"
  shows "keeps Q (awrite_all io bs)" "keeps Q (aflush io)"
proof -
  have frame: "unread_request H io pending rest (d, s')" if "unread_request H io pending rest (d, s)" "pending s' = pending s"
    for d :: "'m downstream" and s s'
    by (rule unread_frame [OF that(1) _ that(2)]) (simp add: same_reading_def)
  show "keeps Q (awrite_all io bs)"
  unfolding Q_def
  proof (rule keepsI)
    fix d :: "'m downstream" and s
    assume Q: "unread_request H io pending rest (d, s)"
    obtain r s' where w: "io_write_all io bs s = (r, s')" by fastforce
    have "writes_keep io pending" using Q by (simp add: unread_request_def)
    from frame [OF Q writes_keepD(3) [OF w this]] w show "unread_request H io pending rest (snd (awrite_all io bs (d, s)))"
      by (simp add: awrite_all_def split: sum.split)
  qed
  show "keeps Q (aflush io)"
  unfolding Q_def
  proof (rule keepsI)
    fix d :: "'m downstream" and s
    assume Q: "unread_request H io pending rest (d, s)"
    obtain r s' where w: "io_flush io s = (r, s')" by fastforce
    have "writes_keep io pending" using Q by (simp add: unread_request_def)
    from frame [OF Q writes_keepD(4) [OF w this]] w show "unread_request H io pending rest (snd (aflush io (d, s)))"
      by (simp add: aflush_def split: sum.split)
  qed
qed

lemma keeps_writer_unread [keeps_intros]:
  assumes "\<And>w s r w' s'. f w s = (r, w', s') \<Longrightarrow> writes_keep io pending \<Longrightarrow> pending s' = pending s"
  shows "keeps (unread_request H io pending rest) (on_writer f)"
proof -
  have "unread_request H io pending rest (d\<lparr>ds_writer := w'\<rparr>, s')"
    if "unread_request H io pending rest (d, s)" "f (ds_writer d) s = (r, w', s')" for d s r w' s'
  proof (rule unread_frame [OF that(1)])
    have "writes_keep io pending" using that(1) by (simp add: unread_request_def)
    with assms [OF that(2)] show "pending s' = pending s" .
  qed (simp add: same_reading_def)
  then show ?thesis unfolding keeps_def on_writer_def by (force split: prod.split)
qed

lemma keeps_task_case [keeps_intros]:
  assumes "\<And>rs e. keeps Q (f1 rs e)" "\<And>b e. keeps Q (f2 b e)" "keeps Q f3" "keeps Q f4" "\<And>e. keeps Q (f5 e)"
  shows "keeps Q (case t of THeader rs e \<Rightarrow> f1 rs e | TBody b e \<Rightarrow> f2 b e | TTrailer \<Rightarrow> f3 | TDone \<Rightarrow> f4 | TFailed e \<Rightarrow> f5 e)"
  using assms by (cases t) simp_all

lemma keeps_option_case [keeps_intros]:
  "keeps Q f1 \<Longrightarrow> (\<And>x. keeps Q (f2 x)) \<Longrightarrow> keeps Q (case v of None \<Rightarrow> f1 | Some x \<Rightarrow> f2 x)"
  by (cases v) simp_all

lemma keeps_write_response_headers [keeps_intros]:
  "keeps (unread_request H io pending rest) (write_response_headers H io date rs)"
  unfolding write_response_headers_def prepare_final_def send_response_header_def set_response_body_writer_def
  by (intro keeps_intros keeps_session_unread) (auto simp: ds_set_keepalive_def with_content_length_read_def same_reading_def)

lemma keeps_write_response_body [keeps_intros]:
  "keeps (unread_request H io pending rest) (write_response_body io b)"
  unfolding write_response_body_def
  by (intro keeps_intros keeps_session_unread write_body_keeps)
    (auto simp: add_written_def same_reading_def split: option.split)

lemma keeps_finish_response [keeps_intros]:
  "keeps (unread_request H io pending rest) (finish_writing_response_body io)"
  unfolding finish_writing_response_body_def
  by (intro keeps_intros keeps_session_unread finish_keeps)
    (auto simp: force_close_request_body_reader_def with_content_length_read_def same_reading_def)

lemma keeps_vectored_write [keeps_intros]:
  "keeps (unread_request H io pending rest) (vectored_write_response_body io)"
proof -
  have "unread_request H io pending rest (d', s')"
    if "unread_request H io pending rest (d, s)" "vectored_write_response_body io (d, s) = (r, d', s')" for d s r d' s'
  proof -
    have K: "writes_keep io pending" using that(1) by (simp add: unread_request_def)
    obtain w w' s1 where w: "write_body io (ds_vec_buffer d) (ds_writer d) s = (w, w', s1)" by (metis prod_cases3)
    note same = write_body_keeps [OF w K]
    have "same_reading d d' \<and> pending s' = pending s"
      using that(2) w same
      by (auto simp: same_reading_def vectored_write_response_body_def on_writer_def add_written_def
            split: if_splits outcome.splits option.splits)
    then show ?thesis using unread_frame [OF that(1)] by blast
  qed
  then show ?thesis unfolding keeps_def by (metis prod.collapse)
qed

lemma keeps_vectored_tasks [keeps_intros]:
  "keeps (unread_request H io pending rest) (vectored_tasks H io date e ts)"
proof (induction H io date e ts rule: vectored_tasks.induct)
  case (3 H io date e body e' ts)
  show ?case
    unfolding vectored_tasks.simps by (intro keeps_intros keeps_session_unread 3) (simp add: same_reading_def)
qed (simp_all add: keeps_intros)

lemma keeps_write_downstream_response:
  "keeps (unread_request H io pending rest) (write_downstream_response H io date ts)"
proof -
  have one: "keeps (unread_request H io pending rest) (write_response_to_downstream H io date t)" for t
    unfolding write_response_to_downstream_def
    by (intro keeps_intros)
  show ?thesis
    unfolding write_downstream_response_def vectored_write_response_to_downstream_def
    by (auto intro!: keeps_intros one split: list.split)
qed


lemma read_task_finished:
  assumes "\<not> is_start (ds_reader d)" "is_finished (ds_reader d)"
  shows "read_downstream_request H pcs io (d, s) =
     (case io_read io 1 s of
        (Inl e, s') \<Rightarrow> (Err e, d, s')
      | (Inr bs, s') \<Rightarrow> (Err (Other (if bs = [] then ''connection closed'' else ''connect error'')), d, s'))"
  using assms
  by (simp add: read_downstream_request_def read_request_body_or_idle_def is_reading_request_body_finished_def
        set_request_body_reader_def abind_def aget_def ds_idle_def afail_def split: prod.split sum.split)

lemma read_task_body:
  fixes d :: "'m downstream" and s :: 's
  assumes "\<not> is_start (ds_reader d)" "\<not> is_finished (ds_reader d)"
    and "request_piece H pcs io d s = (Ok (Some bs), d', s')" "\<not> is_start (ds_reader d')"
  shows "read_downstream_request H pcs io (d, s) = (Ok (TBody (Some bs) (is_finished (ds_reader d'))), d', s')"
proof -
  have fin: "is_reading_request_body_finished H (d0, s0) = (Ok (is_finished (ds_reader d0)), d0, s0)"
    if "\<not> is_start (ds_reader d0)" for d0 :: "'m downstream" and s0 :: 's
    using that by (simp add: is_reading_request_body_finished_def set_request_body_reader_def abind_def aget_def)
  have "read_request_body_or_idle H pcs io (d, s) = (Ok (Some bs), d', s')"
    unfolding read_request_body_or_idle_def using fin [OF assms(1)] assms(2,3) by (simp add: abind_def)
  then show ?thesis
    unfolding read_downstream_request_def using fin [OF assms(4)] by (simp add: abind_def areturn_def)
qed

text \<open>The first read sets up the reader, so it is a read of the session with its reader set up.\<close>

lemma unset_sets:
  assumes "reader_unset H io pending rest d s"
  obtains d1 where "set_request_body_reader H (d, s) = (Ok (), d1, s)" "content_length_rep io pending 0 rest (ds_reader d1) s"
proof -
  obtain off body rq where h: "is_start (ds_reader d)" "ds_body_offset d = Some off" "offset_get off (ds_buffer d) = Ok body"
      "ds_request d = Some rq" "content_length_rep io pending 0 rest (request_body_mode H rq body (ds_reader d)) s"
    using assms by (auto simp: reader_unset_def)
  define d1 where "d1 = d\<lparr>ds_retry := map_option clear_buffer (ds_retry d), ds_reader := request_body_mode H rq body (ds_reader d)\<rparr>"
  have "set_request_body_reader H (d, s) = (Ok (), d1, s)"
    using h by (simp add: set_request_body_reader_def Let_def ds_get_request_def d1_def)
  with that show ?thesis using h(5) by (simp add: d1_def)
qed

lemma unset_reads:
  assumes "reader_unset H io pending rest d s"
  obtains d1 where "read_downstream_request H pcs io (d, s) = read_downstream_request H pcs io (d1, s)"
    "content_length_rep io pending 0 rest (ds_reader d1) s"
proof -
  obtain d1 where set: "set_request_body_reader H (d, s) = (Ok (), d1, s)" "content_length_rep io pending 0 rest (ds_reader d1) s"
    by (rule unset_sets [OF assms])
  have "\<not> is_start (ds_reader d1)" using set(2) by (auto simp: content_length_rep_def is_start_def)
  then have set1: "set_request_body_reader H (d1, s) = (Ok (), d1, s)" by (simp add: set_request_body_reader_def)
  have "is_reading_request_body_finished H (d, s) = is_reading_request_body_finished H (d1, s)"
    by (simp add: is_reading_request_body_finished_def abind_def set(1) set1)
  then have "read_request_body_or_idle H pcs io (d, s) = read_request_body_or_idle H pcs io (d1, s)"
    by (simp add: read_request_body_or_idle_def abind_def [of "is_reading_request_body_finished H"])
  then have "read_downstream_request H pcs io (d, s) = read_downstream_request H pcs io (d1, s)"
    by (simp add: read_downstream_request_def abind_def [of "read_request_body_or_idle H pcs io"])
  then show ?thesis using that set(2) by blast
qed

lemma rep_reads:
  fixes d :: "'m downstream" and s :: 's
  assumes "content_length_rep io pending n rest (ds_reader d) s" "writes_keep io pending"
    and "read_downstream_request H pcs io (d, s) = (Ok t, x')"
  shows "\<exists>rest'. rest = task_bytes t @ rest' \<and> unread_request H io pending rest' x'"
proof -
  note rep = assms(1)
  have ready: "\<not> is_start (ds_reader d)" using rep by (auto simp: content_length_rep_def is_start_def)
  have nf: "\<not> is_finished (ds_reader d)"
  proof
    assume "is_finished (ds_reader d)"
    from read_task_finished [OF ready this, of H pcs io s] assms(3) show False
      by (auto split: prod.splits sum.splits)
  qed
  with rep have "rest \<noteq> []" by (auto simp: content_length_rep_def is_finished_def)
  with ds_content_length.session.progress [OF rep, where H = H and pcs = pcs] obtain bs c d' s' where
    piece: "request_piece H pcs io d s = (Ok (Some bs), d', s')" "rest = bs @ c"
      "content_length_rep io pending (n + length bs) c (ds_reader d') s'" by blast
  have "\<not> is_start (ds_reader d')" using piece(3) by (auto simp: content_length_rep_def is_start_def)
  from read_task_body [OF ready nf piece(1) this] assms(3)
  have t: "t = TBody (Some bs) (is_finished (ds_reader d'))" "x' = (d', s')" by simp_all
  have "unread_request H io pending c (d', s')"
    using piece(3) assms(2) by (auto simp: unread_request_def)
  with piece(2) t show ?thesis by auto
qed

lemma unread_reads:
  fixes d :: "'m downstream" and s :: 's
  assumes "unread_request H io pending rest (d, s)" "read_downstream_request H pcs io (d, s) = (Ok t, x')"
  shows "\<exists>rest'. rest = task_bytes t @ rest' \<and> unread_request H io pending rest' x'"
proof -
  have W: "writes_keep io pending" using assms(1) by (simp add: unread_request_def)
  from assms(1) consider (unset) "reader_unset H io pending rest d s"
    | (rep) n where "content_length_rep io pending n rest (ds_reader d) s"
    | (completed) n where "read_state (ds_reader d) = RCompleted n" by (auto simp: unread_request_def)
  then show ?thesis
  proof cases
    case unset
    then obtain d1 where "read_downstream_request H pcs io (d, s) = read_downstream_request H pcs io (d1, s)"
        "content_length_rep io pending 0 rest (ds_reader d1) s" by (rule unset_reads)
    then show ?thesis using rep_reads [OF _ W] assms(2) by metis
  next
    case rep
    then show ?thesis using rep_reads [OF _ W assms(2)] by blast
  next
    case completed
    then have "\<not> is_start (ds_reader d)" "is_finished (ds_reader d)" by (simp_all add: is_start_def is_finished_def)
    from read_task_finished [OF this, of H pcs io s] assms(2) show ?thesis by (auto split: prod.splits sum.splits)
  qed
qed

text \<open>A dropped read of a content-length body loses nothing: at most it has set up the reader.\<close>

lemma read_dropped_same:
  "read_dropped r = Some r' \<Longrightarrow> \<forall>a b c d. read_state r \<noteq> RChunked a b c d \<Longrightarrow> r' = r"
  by (auto simp: read_dropped_def split: option.splits read_state.splits if_splits)

lemma rep_dropped:
  assumes "content_length_rep io pending n rest (ds_reader d) s" "writes_keep io pending"
    and "read_dropped (ds_reader d) = Some r \<or> is_finished (ds_reader d) \<and> r = ds_reader d"
  shows "unread_request H io pending rest (d\<lparr>ds_reader := r\<rparr>, s)"
proof -
  have "\<forall>a b c e. read_state (ds_reader d) \<noteq> RChunked a b c e" using assms(1) by (auto simp: content_length_rep_def)
  with read_dropped_same assms(3) have "r = ds_reader d" by blast
  with assms(1,2) show ?thesis by (auto simp: unread_request_def)
qed

lemma dropped_unread:
  assumes "unread_request H io pending rest x" "request_read_dropped H x x'"
  shows "unread_request H io pending rest x'"
proof -
  obtain d s where x: "x = (d, s)" by (cases x)
  have W: "writes_keep io pending" using assms(1) by (simp add: unread_request_def)
  from assms(1) consider (unset) "reader_unset H io pending rest d s"
    | (rep) n where "content_length_rep io pending n rest (ds_reader d) s"
    | (completed) n where "read_state (ds_reader d) = RCompleted n" by (auto simp: unread_request_def x)
  then show ?thesis
  proof cases
    case unset
    then obtain d1 where d1: "set_request_body_reader H (d, s) = (Ok (), d1, s)" "content_length_rep io pending 0 rest (ds_reader d1) s"
      by (rule unset_sets)
    with rep_dropped [OF d1(2) W] assms(2) show ?thesis
      by (auto simp: request_read_dropped_def x split: if_splits option.splits) (metis downstream.surjective downstream.update_convs(9))
  next
    case rep
    then have "set_request_body_reader H (d, s) = (Ok (), d, s)"
      by (auto simp: set_request_body_reader_def content_length_rep_def is_start_def)
    with rep_dropped [OF rep W] assms(2) show ?thesis
      by (auto simp: request_read_dropped_def x split: if_splits option.splits) (use assms(1) x in blast)
  next
    case completed
    then have "set_request_body_reader H (d, s) = (Ok (), d, s)" "is_finished (ds_reader d)"
      by (simp_all add: set_request_body_reader_def is_start_def is_finished_def)
    with assms show ?thesis by (simp add: request_read_dropped_def x)
  qed
qed

section \<open>The server's side\<close>

text \<open>
  The server has been sent the first \<open>tot\<close> bytes of \<open>sent\<close> after the request header \<open>base\<close>, by a writer
  for a body of length \<open>tot\<close> that is still writing or has finished after all of them.
\<close>

definition written_request ::
  "'t io \<Rightarrow> ('t \<Rightarrow> bytes) \<Rightarrow> bytes \<Rightarrow> nat \<Rightarrow> bytes \<Rightarrow> 'm upstream \<times> 't \<Rightarrow> bool" where
  "written_request io sentf base tot sent y \<longleftrightarrow>
     io_contract io sentf \<and> sentf (snd y) = base @ take tot sent \<and>
     (write_state (us_writer (fst y)) = WContentLength tot (min tot (length sent)) \<or>
      tot \<le> length sent \<and> (\<exists>n. write_state (us_writer (fst y)) = WCompleted n))"

lemma written_frame:
  assumes "written_request io sentf base tot sent (u, s)" "us_writer u' = us_writer u" "sentf s' = sentf s"
  shows "written_request io sentf base tot sent (u', s')"
  using assms by (simp add: written_request_def)

lemma read_head_wire: "read_head parse io buf s = (r, s') \<Longrightarrow> io_contract io sentf \<Longrightarrow> sentf s' = sentf s"
proof (induction parse io buf s arbitrary: r s' rule: read_head.induct)
  case (1 parse io buf s)
  show ?case
  proof (cases "max_buffer_size < length buf")
    case True
    with 1(2) show ?thesis by (simp add: read_head.simps [of parse io buf s])
  next
    case False
    obtain w s1 where rd: "io_read_buf io s = (w, s1)" by fastforce
    then have same: "sentf s1 = sentf s" using "1.prems"(2) unfolding io_contract_def by blast
    have run: "read_head parse io buf s =
      (case w of Inl e \<Rightarrow> (HeadError e, s1)
       | Inr bs \<Rightarrow>
             (if bs = []
              then (if buf \<noteq> [] then (HeadError (Other ''connection closed''), s1) else (HeadEof, s1))
              else
                (case parse (buf @ bs) of
                   PComplete n p \<Rightarrow> (HeadParsed (buf @ bs) n p, s1)
                 | PPartial \<Rightarrow> read_head parse io (buf @ bs) s1
                 | PError msg \<Rightarrow> (HeadError (Other msg), s1))))"
      using False rd by (simp add: read_head.simps [of parse io buf s])
    show ?thesis
    proof (cases "\<exists>bs. w = Inr bs \<and> bs \<noteq> [] \<and> parse (buf @ bs) = PPartial")
      case True
      then obtain bs where bs: "w = Inr bs" "bs \<noteq> []" "parse (buf @ bs) = PPartial" by blast
      with run "1.prems"(1) have "read_head parse io (buf @ bs) s1 = (r, s')" by simp
      from "1.IH" [OF False rd [symmetric] bs(1,2,3) this "1.prems"(2)] same show ?thesis by simp
    next
      case False
      with run "1.prems"(1) have "s' = s1"
        by (auto split: sum.splits if_splits parse_status.splits)
      with same show ?thesis by simp
    qed
  qed
qed

lemma read_or_rewind_wire:
  assumes "read_or_rewind io r s = (res, r', s')" and K: "io_contract io sentf"
  shows "sentf s' = sentf s"
  using assms(1)
  by (auto simp: read_or_rewind_def Let_def dest!: io_read_contract(1) [OF K]
        split: if_splits option.splits prod.splits sum.splits)

lemma read_body_wire:
  assumes "read_body pcs io r s = (res, r', s')" and K: "io_contract io sentf"
  shows "sentf s' = sentf s"
proof -
  have fill: "sentf s1 = sentf s" if "chunked_fill io r s = (f, r1, s1)" for f r1 s1
    using that
    by (auto simp: chunked_fill_def dest!: read_or_rewind_wire [OF _ K] io_read_contract(1) [OF K]
          split: read_state.splits if_splits outcome.splits prod.splits option.splits sum.splits)
  show ?thesis
  proof (cases "read_state r")
    case (RChunked a b c d)
    obtain f r1 s1 where f: "chunked_fill io r s = (f, r1, s1)" by (metis prod_cases3)
    have "s' = s1"
      using assms(1) RChunked f
      by (auto simp: read_body_def read_chunked_def split: outcome.splits if_splits prod.splits)
    with fill [OF f] show ?thesis by simp
  qed (use assms(1) in \<open>auto simp: read_body_def read_partially_def read_until_closed_def Let_def
        dest!: read_or_rewind_wire [OF _ K] split: outcome.splits if_splits prod.splits option.splits read_state.splits\<close>)
qed


lemma keeps_session_written:
  assumes "\<And>u. us_writer (f u) = us_writer u"
  shows "keeps (written_request io sentf base tot sent) (asession f)"
  using assms by (auto simp: keeps_def asession_def written_request_def)

lemma keeps_set_response_reader [keeps_intros]:
  "keeps (written_request io sentf base tot sent) (set_response_body_reader H)"
  by (rule keepsI)
    (auto simp: set_response_body_reader_def written_request_def split: option.split outcome.split)

lemma keeps_read_response [keeps_intros]:
  fixes H :: "'m http"
  shows "keeps (written_request io sentf base tot sent) (read_response H parse io)"
proof (rule keepsI)
  fix u :: "'m upstream" and s
  assume Q: "written_request io sentf base tot sent (u, s)"
  obtain hr s' where hd: "read_head parse io [] s = (hr, s')" by fastforce
  have "sentf s' = sentf s"
    using Q by (intro read_head_wire [OF hd]) (simp add: written_request_def)
  with Q hd show "written_request io sentf base tot sent (snd (read_response H parse io (u, s)))"
    by (simp add: read_response_def Let_def written_request_def split: head_read.split outcome.split)
qed

lemma keeps_read_response_body [keeps_intros]:
  fixes H :: "'m http" and io :: "'s io"
  shows "keeps (written_request io sentf base tot sent) (read_response_body H pcs io)"
proof -
  have "keeps (written_request io sentf base tot sent :: 'm upstream \<times> 's \<Rightarrow> bool) (on_us_reader (read_body pcs io))"
  proof (rule keepsI)
    fix u :: "'m upstream" and s
    assume Q: "written_request io sentf base tot sent (u, s)"
    obtain r r' s' where rd: "read_body pcs io (us_reader u) s = (r, r', s')" by (metis prod_cases3)
    have "sentf s' = sentf s"
      using Q by (intro read_body_wire [OF rd]) (simp add: written_request_def)
    with Q rd show "written_request io sentf base tot sent (snd (on_us_reader (read_body pcs io) (u, s)))"
      by (simp add: on_us_reader_def written_request_def)
  qed
  then show ?thesis unfolding read_response_body_def by (intro keeps_intros)
qed

lemma keeps_read_upstream_response:
  "keeps (written_request io sentf base tot sent) (read_upstream_response H parse pcs io)"
  unfolding read_upstream_response_def is_reading_response_body_finished_def read_response_body_bytes_def
  by (intro keeps_intros keeps_session_written) simp

lemma write_body_written:
  assumes "io_contract io sentf" "write_state w = WContentLength tot n" "n \<le> tot"
    and "write_body io b w s = (Ok r, w', s')"
  shows "write_state w' = WContentLength tot (min tot (n + length b)) \<and> sentf s' = sentf s @ take (tot - n) b"
proof (cases "tot \<le> n")
  case True
  with assms show ?thesis by (auto simp: write_body_def write_by_content_length_def)
next
  case False
  define k where "k = (if tot - n < length b then tot - n else length b)"
  have k: "k = min (tot - n) (length b)" by (auto simp: k_def)
  have b: "take k b = take (tot - n) b" "min tot (n + length b) = n + k" using False by (auto simp: k min_def)
  obtain v s1 where v: "io_write_all io (take k b) s = (Inr v, s1)"
    using assms(2,4) False
    by (auto simp: write_body_def write_by_content_length_def Let_def k_def split: prod.splits sum.splits if_splits)
  have sent: "sentf s1 = sentf s @ take k b" using io_write_all_contract [OF assms(1) v] by simp
  have flush: "sentf s2 = sentf s1" if "io_flush io s1 = (q, s2)" for q s2
    using io_flush_contract [OF assms(1) that] .
  have run: "write_body io b w s =
     (let w1 = w\<lparr>write_state := WContentLength tot (n + k)\<rparr>
      in if finished w1 then (case io_flush io s1 of (Inl e, s'') \<Rightarrow> (Err e, w1, s'') | (Inr u, s'') \<Rightarrow> (Ok (Some k), w1, s''))
         else (Ok (Some k), w1, s1))"
    using assms(2) False v by (simp add: write_body_def write_by_content_length_def Let_def flip: k_def)
  then show ?thesis
    using assms(4) sent b by (auto simp: Let_def dest: flush split: if_splits prod.splits sum.splits)
qed

lemma written_write:
  assumes W: "written_request io sentf base tot sent (u, s)" and "write_request_body io b (u, s) = (Ok r, u', s')"
  shows "written_request io sentf base tot (sent @ b) (u', s')"
proof -
  have K: "io_contract io sentf" using W by (simp add: written_request_def)
  obtain r0 w' s1 where w: "write_body io b (us_writer u) s = (Ok r0, w', s1)" "us_writer u' = w'" "s' = s1"
    using assms(2)
    by (auto simp: write_request_body_def on_us_writer_def abind_def asession_def areturn_def us_add_written_def
          split: prod.splits outcome.splits option.splits)
  from W consider (writing) "write_state (us_writer u) = WContentLength tot (min tot (length sent))"
    | (complete) n where "write_state (us_writer u) = WCompleted n" "tot \<le> length sent"
    by (auto simp: written_request_def)
  then show ?thesis
  proof cases
    case writing
    have "take (tot - min tot (length sent)) b = take (tot - length sent) b"
      by (cases "tot \<le> length sent") auto
    with write_body_written [OF K writing _ w(1)] W w(2,3) show ?thesis
      by (auto simp: written_request_def)
  next
    case complete
    with w W show ?thesis by (auto simp: write_body_def written_request_def)
  qed
qed

lemma written_finish:
  assumes W: "written_request io sentf base tot sent (u, s)" and "finish_writing_request_body io (u, s) = (Ok r, u', s')"
  shows "written_request io sentf base tot sent (u', s')"
proof -
  have K: "io_contract io sentf" using W by (simp add: written_request_def)
  obtain r0 w' s1 v where w: "finish io (us_writer u) s = (Ok r0, w', s1)" "io_flush io s1 = (Inr v, s')" "us_writer u' = w'"
    using assms(2)
    by (auto simp: finish_writing_request_body_def on_us_writer_def abind_def asession_def areturn_def aflush_def
          force_close_response_body_reader_def split: prod.splits outcome.splits sum.splits if_splits)
  have flush: "sentf s' = sentf s1" by (rule io_flush_contract [OF K w(2)])
  from W consider (writing) "write_state (us_writer u) = WContentLength tot (min tot (length sent))"
    | (complete) n where "write_state (us_writer u) = WCompleted n" "tot \<le> length sent"
    by (auto simp: written_request_def)
  then show ?thesis
  proof cases
    case writing
    then have "write_state w' = WCompleted tot \<and> s1 = s \<and> tot \<le> length sent"
      using w(1) by (auto simp: finish_def finish_content_length_def Let_def split: if_splits)
    with w(3) flush W show ?thesis by (simp add: written_request_def)
  next
    case complete
    with w flush W show ?thesis by (auto simp: finish_def written_request_def)
  qed
qed

lemma written_writes:
  assumes W: "written_request io sentf base tot sent y" and run: "write_upstream_request io t y = (Ok e, y')"
  shows "written_request io sentf base tot (sent @ task_bytes t) y'"
proof -
  obtain body e' where t: "t = TBody body e'"
    using run by (cases t) (auto simp: write_upstream_request_def alift_def)
  obtain u s where y: "y = (u, s)" by (cases y)
  obtain y1 where 1: "(case body of Some b \<Rightarrow> abind (write_request_body io b) (\<lambda>n. areturn ()) | None \<Rightarrow> areturn ()) y = (Ok (), y1)"
      "(if e' then abind (finish_writing_request_body io) (\<lambda>n. areturn e') else areturn e') y1 = (Ok e, y')"
    using run t by (auto simp: write_upstream_request_def abind_def split: outcome.splits prod.splits)
  obtain u1 s1 where y1: "y1 = (u1, s1)" by (cases y1)
  have W1: "written_request io sentf base tot (sent @ task_bytes t) (u1, s1)"
  proof (cases body)
    case None
    with 1(1) W t y y1 show ?thesis by (simp add: areturn_def)
  next
    case (Some b)
    with 1(1) y y1 obtain r where "write_request_body io b (u, s) = (Ok r, u1, s1)"
      by (auto simp: abind_def areturn_def split: outcome.splits prod.splits)
    from written_write [OF W [unfolded y] this] Some t show ?thesis by simp
  qed
  show ?thesis
  proof (cases e')
    case False
    with 1(2) W1 y1 show ?thesis by (simp add: areturn_def)
  next
    case True
    obtain u2 s2 where y': "y' = (u2, s2)" by (cases y')
    with True 1(2) y1 obtain r where "finish_writing_request_body io (u1, s1) = (Ok r, u2, s2)"
      by (auto simp: abind_def areturn_def split: outcome.splits prod.splits)
    from written_finish [OF W1 this] y' show ?thesis by simp
  qed
qed


text \<open>A dropped read of the response touches neither the writer nor what the server has been sent.\<close>

lemma head_dropped_wire: "head_read_dropped parse io buf s s' \<Longrightarrow> io_contract io sentf \<Longrightarrow> sentf s' = sentf s"
  by (induction rule: head_read_dropped.induct) (simp_all add: io_contract_def)

lemma dropped_written:
  assumes "written_request io sentf base tot sent y" "response_read_dropped H parse io y y'"
  shows "written_request io sentf base tot sent y'"
  using assms(2)
proof cases
  case (dropped_head u s s')
  from assms(1) have "io_contract io sentf" by (simp add: written_request_def)
  from head_dropped_wire [OF dropped_head(4) this] assms(1) show ?thesis by (simp add: dropped_head(1,2) written_request_def)
next
  case (dropped_body u s v u1 s1 r)
  with keepsD [OF keeps_set_response_reader] assms(1) have "written_request io sentf base tot sent (u1, s1)" by metis
  with dropped_body(2) show ?thesis by (simp add: written_request_def)
qed

interpretation proxy: request_pipe "session_ops H parse pcs date dio uio"
  "unread_request H dio pending" "written_request uio sentf base tot"
  for H :: "'m http" and parse pcs date and dio :: "'s io" and uio :: "'t io" and pending sentf base tot
proof
  fix rest x t x'
  show "unread_request H dio pending rest x \<Longrightarrow> op_read_request (session_ops H parse pcs date dio uio) x = (Ok t, x') \<Longrightarrow>
      \<exists>rest'. rest = task_bytes t @ rest' \<and> unread_request H dio pending rest' x'"
    by (cases x) (auto intro: unread_reads)
next
  fix rest x ts e x'
  show "unread_request H dio pending rest x \<Longrightarrow> op_write_response (session_ops H parse pcs date dio uio) ts x = (Ok e, x') \<Longrightarrow>
      unread_request H dio pending rest x'"
    using keepsD [OF keeps_write_downstream_response] by simp blast
next
  fix sent y r y'
  show "written_request uio sentf base tot sent y \<Longrightarrow> op_read_response (session_ops H parse pcs date dio uio) y = (r, y') \<Longrightarrow>
      written_request uio sentf base tot sent y'"
    using keepsD [OF keeps_read_upstream_response] by simp blast
next
  fix sent y t e y'
  show "written_request uio sentf base tot sent y \<Longrightarrow> op_write_request (session_ops H parse pcs date dio uio) t y = (Ok e, y') \<Longrightarrow>
      written_request uio sentf base tot (sent @ task_bytes t) y'"
    by (simp add: written_writes)
next
  fix rest x x'
  show "unread_request H dio pending rest x \<Longrightarrow> op_drop_request (session_ops H parse pcs date dio uio) x x' \<Longrightarrow>
      unread_request H dio pending rest x'"
    by (simp add: dropped_unread)
next
  fix sent y y'
  show "written_request uio sentf base tot sent y \<Longrightarrow> op_drop_response (session_ops H parse pcs date dio uio) y y' \<Longrightarrow>
      written_request uio sentf base tot sent y'"
    by (simp add: dropped_written)
qed

section \<open>Properties\<close>

text \<open>
  The request body crosses the proxy unharmed: whatever the interleaving of the two loops,
  whatever the timing and segmentation of both sockets and whatever the server answers, as long as no
  write to the server fails, what the server has been sent after the request header is a prefix of the
  client's body, and once its writer has finished it is the whole body. Neither channel ever holds
  more than its 32 tasks.
\<close>

lemma request_body_forwarded:
  assumes "unread_request H dio pending body x" "get_retry_buffer (fst x) = None"
    and "io_contract uio sentf" "sentf (snd y) = base"
    and "write_state (us_writer (fst y)) = WContentLength (length body) 0"
    and "duplex_run (session_ops H parse pcs date dio uio) (duplex_start (session_ops H parse pcs date dio uio) x y) s"
    and "\<nexists>err. dx_ul s = UEnd (Some err)" "\<nexists>p. dx_ul s = UPanic p"
  shows "\<exists>sent rest. sentf (snd (dx_up s)) = base @ sent \<and>
      body = sent @ channel_bytes (dx_requests s) @ rest \<and>
      ((\<exists>n. write_state (us_writer (fst (dx_up s))) = WCompleted n) \<longrightarrow> sent = body) \<and>
      length (dx_requests s) \<le> 32 \<and> length (dx_responses s) \<le> 32"
proof -
  let ?start = "duplex_start (session_ops H parse pcs date dio uio) x y"
  have "written_request uio sentf base (length body) [] y"
    using assms(3-5) by (simp add: written_request_def)
  from proxy.start_conserved [OF assms(1) this, where parse = parse and pcs = pcs and date = date] assms(2)
  have "proxy.conserved H dio pending uio sentf base (length body) body ?start" by simp
  from proxy.run_conserved [OF assms(6) this] assms(7,8)
  have "proxy.conserved H dio pending uio sentf base (length body) body s" by blast
  then obtain sent rest where "written_request uio sentf base (length body) sent (dx_up s)"
      "body = sent @ channel_bytes (dx_requests s) @ rest"
    unfolding proxy.conserved_def by blast
  moreover from this have "take (length body) sent = sent" by simp
  moreover have "channels_bounded ?start"
    by (simp add: channels_bounded_def duplex_start_def channel_size_def split: option.split)
  with run_bounded [OF assms(6)] have "length (dx_requests s) \<le> 32" "length (dx_responses s) \<le> 32"
    by (simp_all add: channels_bounded_def channel_size_def)
  ultimately show ?thesis by (auto simp: written_request_def)
qed

text \<open>Writing a request leaves alone what the session has buffered and what the server has still to say.\<close>

lemma write_request_keeps_unread:
  fixes io :: "'t io" and u :: "'m upstream"
  assumes K: "writes_keep io pending" and run: "write_upstream_request io t (u, s) = (r, u', s')"
  shows "us_buffer u' = us_buffer u \<and> us_response u' = us_response u \<and> pending s' = pending s"
proof -
  let ?Q = "\<lambda>y :: 'm upstream \<times> 't. us_buffer (fst y) = us_buffer u \<and> us_response (fst y) = us_response u \<and> pending (snd y) = pending s"
  have writer: "keeps ?Q (on_us_writer f)" if "\<And>w s r w' s'. f w s = (r, w', s') \<Longrightarrow> pending s' = pending s"
    for f :: "body_writer \<Rightarrow> 't \<Rightarrow> 'a outcome \<times> body_writer \<times> 't"
    by (rule keepsI) (auto simp: on_us_writer_def split: prod.split dest!: that)
  have session: "keeps ?Q (asession f)" if "\<And>u. us_buffer (f u) = us_buffer u \<and> us_response (f u) = us_response u" for f
    using that by (auto simp: keeps_def asession_def)
  have flush: "keeps ?Q (aflush io :: (unit, 'm upstream, 't) action)"
    by (rule keepsI) (auto simp: aflush_def split: sum.split prod.split dest!: writes_keepD(4) [OF _ K])
  have "keeps ?Q (write_upstream_request io t)"
    unfolding write_upstream_request_def write_request_body_def finish_writing_request_body_def
    by (intro keeps_intros writer session flush)
      (auto dest: write_body_keeps [OF _ K] finish_keeps [OF _ K]
        simp: us_add_written_def force_close_response_body_reader_def split: option.split)
  from keepsD [OF this _ run] show ?thesis by simp
qed

text \<open>
  C24 (safety, code bug). Reading a response head is not safe to cancel, and the loop cancels it: while the server's
  head is on its way, every task of the client's request that arrives drops the read. The piece of the head that
  the read had taken from the stream is lost with its local buffer: after the step the session holds no byte of it, still
  waits for a head, and the server has only what follows that piece to say.
\<close>

theorem dropped_read_loses_head:
  assumes "dx_ul s = URun False False" "dx_requests s = t # later" "copy_result s = None"
    and "dx_up s = (u, srv)" "should_read_response_header u"
    and "delivers_buf uio pending" "writes_keep uio pending"
    and "io_read_buf uio srv = (Inr bs, srv1)" "bs \<noteq> []" "length bs \<le> max_buffer_size" "parse bs = PPartial"
  shows "\<exists>s'. duplex_step (session_ops H parse pcs date dio uio) s s' \<and>
     pending srv = bs @ pending (snd (dx_up s')) \<and> us_buffer (fst (dx_up s')) = [] \<and> should_read_response_header (fst (dx_up s'))"
proof -
  let ?Ops = "session_ops H parse pcs date dio uio"
  let ?y0 = "(u\<lparr>us_buffer := []\<rparr>, srv1)"
  obtain o1 u' s1 where w: "write_upstream_request uio t ?y0 = (o1, u', s1)" by (metis prod_cases3)
  have "head_read_dropped parse uio [] srv srv1"
    by (rule taken [OF _ assms(8,9)]) (use assms(10,11) in \<open>simp_all add: awaiting\<close>)
  then have "response_read_dropped H parse uio (u, srv) ?y0" by (rule dropped_head [OF assms(5)])
  then have left: "up_left ?Ops s False ?y0" using assms(4) by (simp add: up_left_def)
  have "\<exists>s'. up_step ?Ops s s' \<and> dx_up s' = (u', s1)"
  proof (cases o1)
    case (Ok e)
    with u_write [OF assms(1,2) left] w show ?thesis by fastforce
  next
    case (Err e)
    with u_write_error [OF assms(1,2) left] w show ?thesis by fastforce
  next
    case (Panic v)
    with u_write_panic [OF assms(1,2) left] w show ?thesis by fastforce
  qed
  then obtain s' where s': "up_step ?Ops s s'" "dx_up s' = (u', s1)" by blast
  have "pending srv = bs @ pending srv1"
    using assms(6,8) unfolding delivers_buf_def by (metis Pair_inject sum.inject(2))
  moreover note write_request_keeps_unread [OF assms(7) w]
  ultimately show ?thesis using by_up [OF assms(3) s'(1)] s'(2) assms(5) by (auto simp: should_read_response_header_def)
qed

lemma dropped_read_loses_head_witness:
  "\<exists>s'. duplex_step (session_ops list_http (prefix_parser ''head'' \<lparr>pp_code = None, pp_reason = None, pp_version = None,
        pp_headers = []\<rparr>) (hex_line 0 0) ''now'' script_io script_io)
      \<lparr>dx_down = (example_downstream, \<lparr>rx = [], tx = []\<rparr>),
       dx_up = (upstream_new\<lparr>us_writer := \<lparr>write_state = WContentLength 10 0\<rparr>\<rparr>, \<lparr>rx = [''he'', ''ad''], tx = []\<rparr>),
       dx_requests = [body_task ''part''], dx_responses = [], dx_dl = DRun False False, dx_ul = URun False False\<rparr> s' \<and>
    concat [''he'', ''ad''] = ''he'' @ concat (rx (snd (dx_up s'))) \<and> us_buffer (fst (dx_up s')) = [] \<and>
    should_read_response_header (fst (dx_up s'))"
proof -
  have "io_read_buf script_io \<lparr>rx = [''he'', ''ad''], tx = []\<rparr> = (Inr ''he'', \<lparr>rx = [[], ''ad''], tx = []\<rparr>)" by (simp add: script_io_def)
  then have "io_read_buf script_io srv = (Inr ''he'', \<lparr>rx = [[], ''ad''], tx = []\<rparr>)" if "srv = \<lparr>rx = [''he'', ''ad''], tx = []\<rparr>" for srv
    using that by simp
  note drop = dropped_read_loses_head [where pending = "\<lambda>s. concat (rx s)" and later = "[]", OF _ _ _ _ _ script_delivers_buf script_writes_keep this]
  show ?thesis
    by (rule exE [OF drop [where s = "\<lparr>dx_down = (example_downstream, \<lparr>rx = [], tx = []\<rparr>),
         dx_up = (upstream_new\<lparr>us_writer := \<lparr>write_state = WContentLength 10 0\<rparr>\<rparr>, \<lparr>rx = [''he'', ''ad''], tx = []\<rparr>),
         dx_requests = [body_task ''part''], dx_responses = [], dx_dl = DRun False False, dx_ul = URun False False\<rparr>"
         and parse = "prefix_parser ''head'' \<lparr>pp_code = None, pp_reason = None, pp_version = None, pp_headers = []\<rparr>"
         and H = list_http and pcs = "hex_line 0 0" and date = "''now''" and dio = script_io]])
      (auto simp: copy_result_def should_read_response_header_def upstream_new_def prefix_parser_def max_buffer_size_def)
qed

text \<open>
  C38 (safety, code bug). A finished request is forgotten: writing a batch that does not end the response
  sets the downstream loop's \<open>request_done\<close> back to false, so the loop reads again from a body that is
  finished. Any byte the client sends, a pipelined request say, or its close, is then an error that is
  sent to the upstream loop as a failed task, on which \<open>write_upstream_request\<close> panics.
\<close>

theorem response_batch_reopens_request:
  assumes "dx_dl s = DRun True False" "dx_ul s = URun False qd" "dx_requests s = []"
    and "dx_responses s = ts" "ts \<noteq> []"
    and "write_downstream_response H dio date ts (dx_down s) = (Ok False, d, c)"
    and "\<not> is_start (ds_reader d)" "is_finished (ds_reader d)" "io_read dio 1 c = (Inr bs, c')"
  shows "\<exists>s'. duplex_run (session_ops H parse pcs date dio uio) s s' \<and> copy_result s' = Some (Panic ''unexpected request to write'')"
proof -
  let ?Ops = "session_ops H parse pcs date dio uio"
  let ?err = "Other (if bs = [] then ''connection closed'' else ''connect error'')"
  let ?s1 = "s\<lparr>dx_down := (d, c), dx_responses := [], dx_dl := DRun False False\<rparr>"
  let ?s2 = "?s1\<lparr>dx_down := (d, c'), dx_dl := DLast (TFailed ?err)\<rparr>"
  let ?s3 = "?s2\<lparr>dx_requests := [TFailed ?err], dx_dl := DEnd None\<rparr>"
  let ?s4 = "?s3\<lparr>dx_requests := [], dx_ul := UPanic ''unexpected request to write''\<rparr>"
  have open1: "\<not> up_ended s" "\<not> up_ended ?s1" "\<not> up_ended ?s2" using assms(2) by (simp_all add: up_ended_def)
  have 1: "down_step ?Ops s ?s1"
    by (rule d_write [of s True ts "[]"]) (use assms in simp_all)
  have "read_downstream_request H pcs dio (d, c) = (Err ?err, d, c')"
    using read_task_finished [OF assms(7,8), of H pcs dio c] assms(9) by simp
  then have 2: "down_step ?Ops ?s1 ?s2"
    by (intro d_read_error [of ?s1 False]) (use assms open1 in \<open>simp_all add: permit_def channel_size_def\<close>)
  have 3: "down_step ?Ops ?s2 ?s3"
    using d_last [of ?s2 "TFailed ?err" ?Ops] open1(3) assms(3) by (simp add: channel_size_def)
  have 4: "up_step ?Ops ?s3 ?s4"
    using u_write_panic [of ?s3 qd "TFailed ?err" "[]" ?Ops "dx_up s" "''unexpected request to write''" "dx_up s"] assms(2)
    by (simp add: write_upstream_request_def alift_def up_left_def)
  have "duplex_step ?Ops s ?s1" by (rule by_down [OF _ 1]) (use assms(1,2) in \<open>simp add: copy_result_def\<close>)
  moreover have "duplex_step ?Ops ?s1 ?s2" by (rule by_down [OF _ 2]) (use assms(2) in \<open>simp add: copy_result_def\<close>)
  moreover have "duplex_step ?Ops ?s2 ?s3" by (rule by_down [OF _ 3]) (use assms(2) in \<open>simp add: copy_result_def\<close>)
  moreover have "duplex_step ?Ops ?s3 ?s4" by (rule by_up [OF _ 4]) (use assms(2) in \<open>simp add: copy_result_def\<close>)
  ultimately have "duplex_run ?Ops s ?s4" by (meson converse_rtranclp_into_rtranclp r_into_rtranclp)
  moreover have "copy_result ?s4 = Some (Panic ''unexpected request to write'')" using assms(2) by (simp add: copy_result_def)
  ultimately show ?thesis by blast
qed

lemma response_batch_reopens_request_witness:
  "\<exists>s'. duplex_run (session_ops list_http (prefix_parser ''x'' \<lparr>pp_code = None, pp_reason = None, pp_version = None,
        pp_headers = []\<rparr>) (hex_line 0 0) ''now'' script_io script_io)
      \<lparr>dx_down = (example_downstream\<lparr>ds_writer := \<lparr>write_state = WHTTP10 0\<rparr>, ds_reader := \<lparr>read_state = RCompleted 5,
           body_buffer = None, body_size = 10, rewind_buf_size = 0\<rparr>\<rparr>, \<lparr>rx = [], tx = []\<rparr>),
       dx_up = (example_upstream, \<lparr>rx = [], tx = []\<rparr>), dx_requests = [], dx_responses = [body_task ''part''],
       dx_dl = DRun True False, dx_ul = URun False False\<rparr> s' \<and>
    copy_result s' = Some (Panic ''unexpected request to write'')"
proof -
  let ?d = "example_downstream\<lparr>ds_writer := \<lparr>write_state = WHTTP10 0\<rparr>, ds_reader := \<lparr>read_state = RCompleted 5,
           body_buffer = None, body_size = 10, rewind_buf_size = 0\<rparr>\<rparr>"
  have run: "write_downstream_response list_http script_io ''now'' [body_task ''part''] (?d, \<lparr>rx = [], tx = []\<rparr>) =
      (Ok False, ?d\<lparr>ds_writer := \<lparr>write_state = WHTTP10 4\<rparr>, ds_write_size := 4\<rparr>, \<lparr>rx = [], tx = ''part''\<rparr>)"
    by (simp add: write_downstream_response_def write_response_to_downstream_def body_task_def write_response_body_def
          on_writer_def write_body_def write_until_closed_def script_io_def abind_def areturn_def asession_def
          add_written_def example_downstream_def Let_def)
  have idle: "io_read script_io 1 \<lparr>rx = [], tx = ''part''\<rparr> = (Inr [], \<lparr>rx = [], tx = ''part''\<rparr>)"
    by (simp add: script_io_def)
  show ?thesis
    by (rule response_batch_reopens_request [where qd = False and ts = "[body_task ''part'']", OF _ _ _ _ _ _ _ _ idle])
      (simp_all add: run, simp_all add: example_downstream_def is_start_def is_finished_def)
qed

text \<open>
  \<open>Done\<close> for the request marks the response as done: once the client of an upgrade
  has nothing more to say, no task of the server is ever taken from the channel again; the response is
  cut off there.
\<close>

theorem request_done_stops_responses:
  assumes "dx_dl s = DRun False qd" "permit s" "copy_result s = None" "op_read_request Ops (dx_down s) = (Ok TDone, x)"
    and "duplex_run Ops (s\<lparr>dx_down := x, dx_dl := DRun False True\<rparr>) s'"
  shows "duplex_step Ops s (s\<lparr>dx_down := x, dx_dl := DRun False True\<rparr>) \<and>
    (\<exists>more. dx_responses s' = dx_responses s @ more) \<and> (\<forall>rd. dx_dl s' \<noteq> DRun rd False)"
proof
  show "duplex_step Ops s (s\<lparr>dx_down := x, dx_dl := DRun False True\<rparr>)"
    by (rule by_down [OF assms(3)]) (rule d_read_done [OF assms(1,2,4)])
  show "(\<exists>more. dx_responses s' = dx_responses s @ more) \<and> (\<forall>rd. dx_dl s' \<noteq> DRun rd False)"
    using assms(5)
  proof (induction rule: rtranclp_induct)
    case (step t u)
    then show ?case
      by (auto simp: duplex_step_iff elim!: down_stepE up_stepE)
  qed simp
qed


lemma request_done_stops_responses_witness:
  "{s'. duplex_run \<lparr>op_retry_buffer = \<lambda>x. None, op_read_request = \<lambda>x. (Ok TDone, x),
      op_write_response = \<lambda>ts x. (Ok True, x), op_read_response = \<lambda>y. (Ok (TBody (Some ''b'') True :: entries task), y),
      op_write_request = \<lambda>t y. (Ok False, y), op_request_upgrade = \<lambda>y. Ok True,
      op_drop_request = \<lambda>x x'. x' = x, op_drop_response = \<lambda>y y'. y' = y\<rparr>
    \<lparr>dx_down = (), dx_up = (), dx_requests = [], dx_responses = [TBody (Some ''a'') False], dx_dl = DRun False True,
     dx_ul = URun False False\<rparr> s'} \<subseteq> {s'. \<exists>more. dx_responses s' = TBody (Some ''a'') False # more}"
proof (intro subsetI CollectI)
  let ?Ops = "\<lparr>op_retry_buffer = \<lambda>x. None, op_read_request = \<lambda>x. (Ok TDone, x),
      op_write_response = \<lambda>ts x. (Ok True, x), op_read_response = \<lambda>y. (Ok (TBody (Some ''b'') True :: entries task), y),
      op_write_request = \<lambda>t y. (Ok False, y), op_request_upgrade = \<lambda>y. Ok True,
      op_drop_request = \<lambda>x x'. x' = x, op_drop_response = \<lambda>y y'. y' = y\<rparr>"
  let ?s = "\<lparr>dx_down = (), dx_up = (), dx_requests = [], dx_responses = [TBody (Some ''a'') False], dx_dl = DRun False False,
     dx_ul = URun False False\<rparr>"
  fix s'
  assume "s' \<in> {s'. duplex_run ?Ops \<lparr>dx_down = (), dx_up = (), dx_requests = [], dx_responses = [TBody (Some ''a'') False],
     dx_dl = DRun False True, dx_ul = URun False False\<rparr> s'}"
  then have run: "duplex_run ?Ops (?s\<lparr>dx_down := (), dx_dl := DRun False True\<rparr>) s'" by simp
  have "\<exists>more. dx_responses s' = dx_responses ?s @ more"
    using request_done_stops_responses [where s = ?s and qd = False and Ops = ?Ops, OF _ _ _ _ run]
    by (auto simp: permit_def up_ended_def channel_size_def copy_result_def)
  then show "\<exists>more. dx_responses s' = TBody (Some ''a'') False # more" by simp
qed

text \<open>
  A client that connects and closes without sending a byte makes the proxy panic:
  \<open>read_request\<close> returns normally without a header, and the accessor right after it expects one.
\<close>

theorem silent_client_panics:
  assumes "io_read_buf dio client = (Inr [], client')"
  shows "handle_process H parse_rq parse_rs pcs date dio uio client server r
    \<longleftrightarrow> r = Panic ''Request header is not read yet''"
proof -
  have hd: "read_head parse_rq dio [] client = (HeadEof, client')"
    using assms by (simp add: read_head.simps max_buffer_size_def)
  have "prepare_exchange H parse_rq dio uio client server = Panic ''Request header is not read yet''"
    using hd by (simp add: prepare_exchange_def read_request_def downstream_new_def ds_get_request_def)
  note prep = this
  show ?thesis
  proof
    assume "handle_process H parse_rq parse_rs pcs date dio uio client server r"
    then show "r = Panic ''Request header is not read yet''"
      by cases (simp_all add: prep)
  next
    assume "r = Panic ''Request header is not read yet''"
    then show "handle_process H parse_rq parse_rs pcs date dio uio client server r"
      using process_panics [OF prep] by simp
  qed
qed

lemma silent_client_panics_witness:
  "handle_process list_http
      (prefix_parser ''x'' \<lparr>pq_method = None, pq_path = None, pq_version = None, pq_headers = []\<rparr>)
      (prefix_parser ''x'' \<lparr>pp_code = None, pp_reason = None, pp_version = None, pp_headers = []\<rparr>)
      (hex_line 0 0) ''now'' script_io script_io \<lparr>rx = [], tx = []\<rparr> \<lparr>rx = [], tx = []\<rparr>
      (Panic ''Request header is not read yet'')"
proof -
  have "io_read_buf script_io \<lparr>rx = [], tx = []\<rparr> = (Inr [], \<lparr>rx = [], tx = []\<rparr>)" by (simp add: script_io_def)
  then show ?thesis by (rule silent_client_panics [THEN iffD2, OF _ refl])
qed

end
