(* ===== verification/Lru.thy ===== *)
theory Lru
  imports Prelude "HOL-Library.AList" "HOL-Library.Word" "HOL-Library.Multiset"
begin

text \<open>
  The bookkeeping of idle connections (core/src/pool/lru.rs): one least-recently-used cache per
  worker thread, a capacity, and a flag that refuses insertions once the connections are drained.
  The cache itself is the \<open>lru\<close> crate, a record of operations whose documented behaviour \<open>lru_laws\<close>
  states over its iteration order, the most recently used entry first.
\<close>

section \<open>The cache crate\<close>

record ('u, 'v, 'c) lru_crate =
  lc_unbounded :: 'c
  lc_put :: "'u \<Rightarrow> 'v \<Rightarrow> 'c \<Rightarrow> 'c"
  lc_pop :: "'u \<Rightarrow> 'c \<Rightarrow> 'v option \<times> 'c"
  lc_pop_lru :: "'c \<Rightarrow> ('u \<times> 'v) option \<times> 'c"
  lc_len :: "'c \<Rightarrow> nat"
  lc_iter :: "'c \<Rightarrow> ('u \<times> 'v) list"
  lc_clear :: "'c \<Rightarrow> 'c"

definition without_key :: "'u \<Rightarrow> ('u \<times> 'v) list \<Rightarrow> ('u \<times> 'v) list" where
  "without_key k es = filter (\<lambda>e. fst e \<noteq> k) es"

definition lru_laws :: "('u, 'v, 'c) lru_crate \<Rightarrow> bool" where
  "lru_laws L \<longleftrightarrow>
     lc_iter L (lc_unbounded L) = [] \<and>
     (\<forall>k v c. lc_iter L (lc_put L k v c) = (k, v) # without_key k (lc_iter L c)) \<and>
     (\<forall>k c. fst (lc_pop L k c) = map_of (lc_iter L c) k \<and>
            lc_iter L (snd (lc_pop L k c)) = without_key k (lc_iter L c)) \<and>
     (\<forall>c. fst (lc_pop_lru L c) = (if lc_iter L c = [] then None else Some (last (lc_iter L c))) \<and>
          lc_iter L (snd (lc_pop_lru L c)) = butlast (lc_iter L c)) \<and>
     (\<forall>c. lc_len L c = length (lc_iter L c)) \<and>
     (\<forall>c. lc_iter L (lc_clear L c) = [])"

definition list_lru :: "('u, 'v, ('u \<times> 'v) list) lru_crate" where
  "list_lru =
     \<lparr>lc_unbounded = [],
      lc_put = (\<lambda>k v c. (k, v) # without_key k c),
      lc_pop = (\<lambda>k c. (map_of c k, without_key k c)),
      lc_pop_lru = (\<lambda>c. (if c = [] then None else Some (last c), butlast c)),
      lc_len = length,
      lc_iter = (\<lambda>c. c),
      lc_clear = (\<lambda>c. [])\<rparr>"

lemma list_lru_laws: "lru_laws list_lru"
  by (simp add: lru_laws_def list_lru_def)

lemma lru_lawsD:
  assumes "lru_laws L"
  shows "lc_iter L (lc_unbounded L) = []"
    and "lc_iter L (lc_put L k v c) = (k, v) # without_key k (lc_iter L c)"
    and "fst (lc_pop L k c) = map_of (lc_iter L c) k"
    and "lc_iter L (snd (lc_pop L k c)) = without_key k (lc_iter L c)"
    and "fst (lc_pop_lru L c) = (if lc_iter L c = [] then None else Some (last (lc_iter L c)))"
    and "lc_iter L (snd (lc_pop_lru L c)) = butlast (lc_iter L c)"
    and "lc_len L c = length (lc_iter L c)"
    and "lc_iter L (lc_clear L c) = []"
  using assms by (simp_all add: lru_laws_def)

lemma without_key_facts [simp]:
  "without_key k [] = []"
  "set (without_key k es) = {e \<in> set es. fst e \<noteq> k}"
  "distinct (map fst es) \<Longrightarrow> distinct (map fst (without_key k es))"
  "length (without_key k es) \<le> length es"
  by (auto simp: without_key_def distinct_map_filter)

lemma without_key_absent: "k \<notin> fst ` set es \<Longrightarrow> without_key k es = es"
  by (auto simp: without_key_def filter_id_conv)

section \<open>The connection cache\<close>

text \<open>A \<open>Notify\<close> is a handle, the log of \<open>notify_one\<close> calls the list of handles notified.\<close>

type_synonym thread = nat

record 'm lru_node =
  ln_notifier :: nat
  ln_metadata :: 'm

record ('m, 'c) conn_lru =
  cl_store :: "(thread \<times> 'c) list"
  cl_capacity :: nat
  cl_drain :: bool
  cl_fresh :: nat
  cl_notified :: "nat list"

definition lru_node_new :: "'m \<Rightarrow> ('m, 'c) conn_lru \<Rightarrow> 'm lru_node \<times> ('m, 'c) conn_lru" where
  "lru_node_new m lr = (\<lparr>ln_notifier = cl_fresh lr, ln_metadata = m\<rparr>, lr\<lparr>cl_fresh := Suc (cl_fresh lr)\<rparr>)"

definition notify_removal :: "'m lru_node \<Rightarrow> ('m, 'c) conn_lru \<Rightarrow> ('m, 'c) conn_lru" where
  "notify_removal n lr = lr\<lparr>cl_notified := cl_notified lr @ [ln_notifier n]\<rparr>"

definition lru_new :: "nat \<Rightarrow> ('m, 'c) conn_lru" where
  "lru_new capacity = \<lparr>cl_store = [], cl_capacity = capacity, cl_drain = False, cl_fresh = 0, cl_notified = []\<rparr>"

definition thread_cache :: "('u, 'v, 'c) lru_crate \<Rightarrow> thread \<Rightarrow> ('m, 'c) conn_lru \<Rightarrow> 'c" where
  "thread_cache L t lr = (case map_of (cl_store lr) t of None \<Rightarrow> lc_unbounded L | Some c \<Rightarrow> c)"

definition set_thread_cache :: "thread \<Rightarrow> 'c \<Rightarrow> ('m, 'c) conn_lru \<Rightarrow> ('m, 'c) conn_lru" where
  "set_thread_cache t c lr = lr\<lparr>cl_store := AList.update t c (cl_store lr)\<rparr>"

definition insert_connection ::
  "('u, 'm lru_node, 'c) lru_crate \<Rightarrow> thread \<Rightarrow> 'u \<Rightarrow> 'm lru_node \<Rightarrow> ('m, 'c) conn_lru
   \<Rightarrow> 'm option \<times> ('m, 'c) conn_lru" where
  "insert_connection L t cid node lr =
     (if cl_drain lr then (None, notify_removal node lr)
      else
        (let c = lc_put L cid node (thread_cache L t lr)
         in if cl_capacity lr < lc_len L c
            then
              (case lc_pop_lru L c of
                 (Some (k, n), c') \<Rightarrow> (Some (ln_metadata n), notify_removal n (set_thread_cache t c' lr))
               | (None, c') \<Rightarrow> (None, set_thread_cache t c' lr))
            else (None, set_thread_cache t c lr)))"

definition lru_add_new_connection ::
  "('u, 'm lru_node, 'c) lru_crate \<Rightarrow> thread \<Rightarrow> 'u \<Rightarrow> 'm \<Rightarrow> ('m, 'c) conn_lru
   \<Rightarrow> (nat \<times> 'm option) \<times> ('m, 'c) conn_lru" where
  "lru_add_new_connection L t cid m lr =
     (case lru_node_new m lr of
        (node, lr1) \<Rightarrow>
          (case insert_connection L t cid node lr1 of
             (replaced, lr2) \<Rightarrow> ((ln_notifier node, replaced), lr2)))"

definition pop_connection ::
  "('u, 'm lru_node, 'c) lru_crate \<Rightarrow> thread \<Rightarrow> 'u \<Rightarrow> ('m, 'c) conn_lru
   \<Rightarrow> 'm lru_node option \<times> ('m, 'c) conn_lru" where
  "pop_connection L t cid lr =
     (case lc_pop L cid (thread_cache L t lr) of (r, c) \<Rightarrow> (r, set_thread_cache t c lr))"

definition drain_connections :: "('u, 'm lru_node, 'c) lru_crate \<Rightarrow> ('m, 'c) conn_lru \<Rightarrow> ('m, 'c) conn_lru" where
  "drain_connections L lr =
     lr\<lparr>cl_drain := True,
        cl_notified := cl_notified lr @
          concat (map (\<lambda>(t, c). map (\<lambda>(k, n). ln_notifier n) (lc_iter L c)) (cl_store lr)),
        cl_store := map (\<lambda>(t, c). (t, lc_clear L c)) (cl_store lr)\<rparr>"

section \<open>Lemmas\<close>

text \<open>The entries of one thread's cache, the most recently used one first.\<close>

definition entries_of :: "('u, 'm lru_node, 'c) lru_crate \<Rightarrow> thread \<Rightarrow> ('m, 'c) conn_lru \<Rightarrow> ('u \<times> 'm lru_node) list" where
  "entries_of L t lr = lc_iter L (thread_cache L t lr)"

lemma thread_cache_set [simp]:
  "thread_cache L t (set_thread_cache t' c lr) = (if t = t' then c else thread_cache L t lr)"
  by (simp add: thread_cache_def set_thread_cache_def update_conv)

lemma lru_frame [simp]:
  "thread_cache L t (notify_removal n lr) = thread_cache L t lr"
  "cl_capacity (notify_removal n lr) = cl_capacity lr" "cl_drain (notify_removal n lr) = cl_drain lr"
  "cl_capacity (set_thread_cache t c lr) = cl_capacity lr" "cl_drain (set_thread_cache t c lr) = cl_drain lr"
  by (simp_all add: thread_cache_def notify_removal_def set_thread_cache_def)

lemma entries_of_new: "lru_laws L \<Longrightarrow> entries_of L t (lru_new capacity) = []"
  by (simp add: entries_of_def thread_cache_def lru_new_def lru_lawsD)

lemma add_new_connection_cases:
  assumes laws: "lru_laws L" and drain: "\<not> cl_drain lr"
    and add: "lru_add_new_connection L t cid m lr = ((h, replaced), lr')"
  shows "\<exists>es. es = (cid, \<lparr>ln_notifier = h, ln_metadata = m\<rparr>) # without_key cid (entries_of L t lr) \<and>
     cl_capacity lr' = cl_capacity lr \<and> \<not> cl_drain lr' \<and>
     (if cl_capacity lr < length es
      then entries_of L t lr' = butlast es \<and> replaced = Some (ln_metadata (snd (last es)))
      else entries_of L t lr' = es \<and> replaced = None)"
proof -
  let ?node = "\<lparr>ln_notifier = cl_fresh lr, ln_metadata = m\<rparr>"
  let ?lr = "lr\<lparr>cl_fresh := Suc (cl_fresh lr)\<rparr>"
  let ?c = "lc_put L cid ?node (thread_cache L t ?lr)"
  have tc: "thread_cache L t ?lr = thread_cache L t lr" by (simp add: thread_cache_def)
  have es: "lc_iter L ?c = (cid, ?node) # without_key cid (entries_of L t lr)"
    by (simp add: lru_lawsD [OF laws] entries_of_def tc)
  have ins: "insert_connection L t cid ?node ?lr = (replaced, lr')" "h = cl_fresh lr"
    using add by (auto simp: lru_add_new_connection_def lru_node_new_def split: prod.splits)
  obtain e c' where pop: "lc_pop_lru L ?c = (e, c')" by fastforce
  then have "e = Some (last (lc_iter L ?c))" "lc_iter L c' = butlast (lc_iter L ?c)"
    using lru_lawsD(5,6) [OF laws, of ?c] es by simp_all
  with ins drain pop es show ?thesis
    by (auto simp: insert_connection_def Let_def lru_lawsD(7) [OF laws] entries_of_def
          split: if_splits prod.splits)
qed

lemma pop_connection_entries:
  assumes "lru_laws L"
  shows "entries_of L t (snd (pop_connection L t cid lr)) = without_key cid (entries_of L t lr)"
    and "cl_capacity (snd (pop_connection L t cid lr)) = cl_capacity lr"
    and "cl_drain (snd (pop_connection L t cid lr)) = cl_drain lr"
  using lru_lawsD(4) [OF assms, of cid "thread_cache L t lr"]
  by (simp_all add: pop_connection_def entries_of_def case_prod_unfold)

end
