(* ===== verification/Pool.thy ===== *)
theory Pool
  imports Lru
begin

text \<open>
  The pool of idle upstream connections (core/src/pool/pool.rs). A connection node holds the connections
  of one group: a bounded hot queue (the \<open>ArrayQueue\<close> of crossbeam, a record of operations with the
  documented FIFO behaviour) and a hash map for what does not fit. The map is a list of entries with
  distinct keys; which entry its iterator yields first is left to a function \<open>pick\<close>. The pool maps groups to nodes
  and keeps the cache of Lru.thy. Operations are atomic here; PoolProperties.thy
  takes those of a node apart into steps.
\<close>

section \<open>The queue crate\<close>

record ('e, 'q) queue_crate =
  qc_new :: "nat \<Rightarrow> 'q"
  qc_push :: "'e \<Rightarrow> 'q \<Rightarrow> 'e + 'q"
  qc_pop :: "'q \<Rightarrow> 'e option \<times> 'q"
  qc_len :: "'q \<Rightarrow> nat"
  qc_items :: "'q \<Rightarrow> 'e list"
  qc_capacity :: "'q \<Rightarrow> nat"

text \<open>\<open>qc_items\<close> and \<open>qc_capacity\<close> observe a queue: its elements from the oldest on, and its size.\<close>

definition queue_laws :: "('e, 'q) queue_crate \<Rightarrow> bool" where
  "queue_laws Q \<longleftrightarrow>
     (\<forall>n. qc_items Q (qc_new Q n) = [] \<and> qc_capacity Q (qc_new Q n) = n) \<and>
     (\<forall>e q. (if length (qc_items Q q) < qc_capacity Q q
             then \<exists>q'. qc_push Q e q = Inr q' \<and> qc_items Q q' = qc_items Q q @ [e] \<and>
                       qc_capacity Q q' = qc_capacity Q q
             else qc_push Q e q = Inl e)) \<and>
     (\<forall>q. (case qc_items Q q of
              [] \<Rightarrow> qc_pop Q q = (None, q)
            | e # es \<Rightarrow> \<exists>q'. qc_pop Q q = (Some e, q') \<and> qc_items Q q' = es \<and>
                          qc_capacity Q q' = qc_capacity Q q)) \<and>
     (\<forall>q. qc_len Q q = length (qc_items Q q))"

definition list_queue :: "('e, nat \<times> 'e list) queue_crate" where
  "list_queue =
     \<lparr>qc_new = (\<lambda>n. (n, [])),
      qc_push = (\<lambda>e q. if length (snd q) < fst q then Inr (fst q, snd q @ [e]) else Inl e),
      qc_pop = (\<lambda>q. (case snd q of [] \<Rightarrow> (None, q) | e # es \<Rightarrow> (Some e, fst q, es))),
      qc_len = (\<lambda>q. length (snd q)),
      qc_items = snd,
      qc_capacity = fst\<rparr>"

lemma list_queue_laws: "queue_laws list_queue"
  by (auto simp: queue_laws_def list_queue_def split: list.splits)

lemma queue_lawsD:
  assumes "queue_laws Q"
  shows "qc_items Q (qc_new Q n) = []" "qc_capacity Q (qc_new Q n) = n"
    "qc_len Q q = length (qc_items Q q)"
    "qc_items Q q = [] \<Longrightarrow> qc_pop Q q = (None, q)"
    "\<not> length (qc_items Q q) < qc_capacity Q q \<Longrightarrow> qc_push Q e q = Inl e"
  using assms unfolding queue_laws_def by (auto split: list.splits if_splits)

lemma queue_pushE:
  assumes "queue_laws Q" "length (qc_items Q q) < qc_capacity Q q"
  obtains q' where "qc_push Q e q = Inr q'" "qc_items Q q' = qc_items Q q @ [e]"
    "qc_capacity Q q' = qc_capacity Q q"
  using assms unfolding queue_laws_def by metis

lemma queue_popE:
  assumes "queue_laws Q" "qc_items Q q = e # es"
  obtains q' where "qc_pop Q q = (Some e, q')" "qc_items Q q' = es" "qc_capacity Q q' = qc_capacity Q q"
proof -
  have "\<exists>q'. qc_pop Q q = (Some e, q') \<and> qc_items Q q' = es \<and> qc_capacity Q q' = qc_capacity Q q"
    using assms unfolding queue_laws_def by (auto dest!: spec [of _ q])
  then show ?thesis using that by blast
qed

section \<open>Connection nodes\<close>

type_synonym conn_id = "32 word"
type_synonym group_id = "64 word"

record conn_meta =
  md_group :: group_id
  md_id :: conn_id

definition conn_meta_new :: "group_id \<Rightarrow> conn_id \<Rightarrow> conn_meta" where
  "conn_meta_new g i = \<lparr>md_group = g, md_id = i\<rparr>"

record ('a, 'q) conn_node =
  cn_connections :: "(conn_id \<times> 'a) list"
  cn_hot :: 'q

text \<open>The crates the pool rests on, and the choice of its hash maps' iterators.\<close>

record ('a, 'q, 'c) pool_env =
  pe_queue :: "(conn_id \<times> 'a, 'q) queue_crate"
  pe_lru :: "(conn_id, conn_meta lru_node, 'c) lru_crate"
  pe_pick :: "conn_id list \<Rightarrow> conn_id"

definition pool_env_laws :: "('a, 'q, 'c) pool_env \<Rightarrow> bool" where
  "pool_env_laws E \<longleftrightarrow>
     queue_laws (pe_queue E) \<and> lru_laws (pe_lru E) \<and> (\<forall>ks. ks \<noteq> [] \<longrightarrow> pe_pick E ks \<in> set ks)"

definition hot_queue_size :: nat where
  "hot_queue_size = 16"

definition node_new :: "('a, 'q, 'c) pool_env \<Rightarrow> ('a, 'q) conn_node" where
  "node_new E = \<lparr>cn_connections = [], cn_hot = qc_new (pe_queue E) hot_queue_size\<rparr>"

definition get_available_connection ::
  "('a, 'q, 'c) pool_env \<Rightarrow> ('a, 'q) conn_node \<Rightarrow> (conn_id \<times> 'a) option \<times> ('a, 'q) conn_node" where
  "get_available_connection E n =
     (case qc_pop (pe_queue E) (cn_hot n) of
        (Some e, q) \<Rightarrow> (Some e, n\<lparr>cn_hot := q\<rparr>)
      | (None, q) \<Rightarrow>
          (let l = cn_connections n
           in if l = [] then (None, n\<lparr>cn_hot := q\<rparr>)
              else
                (let k = pe_pick E (map fst l)
                 in case map_of l k of
                      Some c \<Rightarrow> (Some (k, c), n\<lparr>cn_hot := q, cn_connections := AList.delete k l\<rparr>)
                    | None \<Rightarrow> (None, n\<lparr>cn_hot := q\<rparr>))))"

definition node_add_new_connection ::
  "('a, 'q, 'c) pool_env \<Rightarrow> conn_id \<Rightarrow> 'a \<Rightarrow> ('a, 'q) conn_node \<Rightarrow> ('a, 'q) conn_node" where
  "node_add_new_connection E cid c n =
     (case qc_push (pe_queue E) (cid, c) (cn_hot n) of
        Inr q \<Rightarrow> n\<lparr>cn_hot := q\<rparr>
      | Inl (k, x) \<Rightarrow> n\<lparr>cn_connections := AList.update k x (cn_connections n)\<rparr>)"

text \<open>The loop over the hot queue: what is not looked for goes back to its end.\<close>

fun remove_hot ::
  "('a, 'q, 'c) pool_env \<Rightarrow> conn_id \<Rightarrow> nat \<Rightarrow> ('a, 'q) conn_node \<Rightarrow> 'a option \<times> ('a, 'q) conn_node" where
  "remove_hot E cid 0 n = (None, n)"
| "remove_hot E cid (Suc k) n =
     (case qc_pop (pe_queue E) (cn_hot n) of
        (None, q) \<Rightarrow> (None, n\<lparr>cn_hot := q\<rparr>)
      | (Some (k', c), q) \<Rightarrow>
          (if cid = k' then (Some c, n\<lparr>cn_hot := q\<rparr>)
           else remove_hot E cid k (node_add_new_connection E k' c (n\<lparr>cn_hot := q\<rparr>))))"

definition node_remove_connection ::
  "('a, 'q, 'c) pool_env \<Rightarrow> conn_id \<Rightarrow> ('a, 'q) conn_node \<Rightarrow> 'a option \<times> ('a, 'q) conn_node" where
  "node_remove_connection E cid n =
     (case map_of (cn_connections n) cid of
        Some c \<Rightarrow> (Some c, n\<lparr>cn_connections := AList.delete cid (cn_connections n)\<rparr>)
      | None \<Rightarrow> remove_hot E cid (qc_len (pe_queue E) (cn_hot n)) n)"

section \<open>The contract of a store of connections\<close>

text \<open>
  What the pool needs of a node: a store with unique identifiers from which some connection can be
  taken as long as there is one, and a given one removed.
\<close>

locale conn_store =
  fixes inv :: "'n \<Rightarrow> bool"
    and contents :: "'n \<Rightarrow> (conn_id \<times> 'a) multiset"
    and take_any :: "'n \<Rightarrow> (conn_id \<times> 'a) option \<times> 'n"
    and add :: "conn_id \<Rightarrow> 'a \<Rightarrow> 'n \<Rightarrow> 'n"
    and remove :: "conn_id \<Rightarrow> 'n \<Rightarrow> 'a option \<times> 'n"
  assumes take_none: "inv n \<Longrightarrow> contents n = {#} \<Longrightarrow> \<exists>n'. take_any n = (None, n') \<and> inv n' \<and> contents n' = {#}"
    and take_some: "inv n \<Longrightarrow> contents n \<noteq> {#} \<Longrightarrow>
      \<exists>e n'. take_any n = (Some e, n') \<and> inv n' \<and> contents n = add_mset e (contents n')"
    and add_contents: "inv n \<Longrightarrow> cid \<notin># image_mset fst (contents n) \<Longrightarrow>
      inv (add cid c n) \<and> contents (add cid c n) = add_mset (cid, c) (contents n)"
    and remove_none: "inv n \<Longrightarrow> cid \<notin># image_mset fst (contents n) \<Longrightarrow>
      \<exists>n'. remove cid n = (None, n') \<and> inv n' \<and> contents n' = contents n"
    and remove_some: "inv n \<Longrightarrow> (cid, c) \<in># contents n \<Longrightarrow>
      \<exists>n'. remove cid n = (Some c, n') \<and> inv n' \<and> contents n = add_mset (cid, c) (contents n')"
begin

text \<open>Taking connections until there is none left.\<close>

fun take_all :: "nat \<Rightarrow> 'n \<Rightarrow> (conn_id \<times> 'a) list \<times> 'n" where
  "take_all 0 n = ([], n)"
| "take_all (Suc k) n =
     (case take_any n of
        (None, n') \<Rightarrow> ([], n')
      | (Some e, n') \<Rightarrow> (case take_all k n' of (es, n'') \<Rightarrow> (e # es, n'')))"

lemma take_all_drains:
  assumes "inv n" "size (contents n) \<le> k"
  shows "\<exists>es n'. take_all k n = (es, n') \<and> inv n' \<and> mset es = contents n \<and> contents n' = {#}"
  using assms
proof (induction k arbitrary: n)
  case 0
  then show ?case by simp
next
  case (Suc k)
  show ?case
  proof (cases "contents n = {#}")
    case True
    with take_none [OF Suc.prems(1)] show ?thesis by auto
  next
    case False
    then obtain e n' where step: "take_any n = (Some e, n')" "inv n'" "contents n = add_mset e (contents n')"
      using take_some [OF Suc.prems(1)] by blast
    with Suc.prems(2) have "size (contents n') \<le> k" by simp
    from Suc.IH [OF step(2) this] step show ?thesis by auto
  qed
qed

lemma remove_contents:
  assumes "inv n"
  shows "inv (snd (remove cid n)) \<and>
     set_mset (contents (snd (remove cid n))) \<subseteq> set_mset (contents n)"
proof (cases "cid \<in># image_mset fst (contents n)")
  case True
  then obtain c where "(cid, c) \<in># contents n" by auto
  from remove_some [OF assms this] obtain n' where rem: "remove cid n = (Some c, n')" "inv n'"
      and eq: "contents n = add_mset (cid, c) (contents n')" by blast
  have "set_mset (contents n') \<subseteq> set_mset (contents n)" unfolding eq by auto
  with rem show ?thesis by simp
next
  case False
  from remove_none [OF assms this] show ?thesis by auto
qed

end

section \<open>The node is such a store\<close>

definition node_items :: "('a, 'q, 'c) pool_env \<Rightarrow> ('a, 'q) conn_node \<Rightarrow> (conn_id \<times> 'a) list" where
  "node_items E n = qc_items (pe_queue E) (cn_hot n) @ cn_connections n"

definition node_ok :: "('a, 'q, 'c) pool_env \<Rightarrow> ('a, 'q) conn_node \<Rightarrow> bool" where
  "node_ok E n \<longleftrightarrow>
     pool_env_laws E \<and> distinct (map fst (node_items E n)) \<and>
     qc_capacity (pe_queue E) (cn_hot n) = hot_queue_size \<and>
     length (qc_items (pe_queue E) (cn_hot n)) \<le> hot_queue_size"


lemma node_okD:
  assumes "node_ok E n"
  shows "queue_laws (pe_queue E)" "lru_laws (pe_lru E)" "\<And>ks. ks \<noteq> [] \<Longrightarrow> pe_pick E ks \<in> set ks"
    "distinct (map fst (qc_items (pe_queue E) (cn_hot n)))" "distinct (map fst (cn_connections n))"
    "fst ` set (qc_items (pe_queue E) (cn_hot n)) \<inter> fst ` set (cn_connections n) = {}"
    "qc_capacity (pe_queue E) (cn_hot n) = hot_queue_size"
    "length (qc_items (pe_queue E) (cn_hot n)) \<le> hot_queue_size"
  using assms by (auto simp: node_ok_def pool_env_laws_def node_items_def)

lemma node_ok_new: "pool_env_laws E \<Longrightarrow> node_ok E (node_new E) \<and> node_items E (node_new E) = []"
  using queue_lawsD(1,2) [of "pe_queue E"]
  by (simp add: node_ok_def node_new_def node_items_def pool_env_laws_def)

lemma update_absent: "k \<notin> fst ` set es \<Longrightarrow> AList.update k v es = es @ [(k, v)]"
  by (induction es) auto

lemma distinct_remove: "distinct (map fst es) \<Longrightarrow> (k, c) \<in> set es \<Longrightarrow>
    mset es = add_mset (k, c) (mset (AList.delete k es))"
proof (induction es)
  case (Cons e es)
  show ?case
  proof (cases "e = (k, c)")
    case True
    with Cons.prems have "k \<notin> fst ` set es" by simp
    then show ?thesis using True by simp
  next
    case False
    with Cons.prems have k: "(k, c) \<in> set es" by simp
    then have "k \<in> fst ` set es" by (simp add: rev_image_eqI)
    then have "fst e \<noteq> k" using Cons.prems(1) by auto
    then show ?thesis using Cons.IH [OF _ k] Cons.prems(1) by (cases e) auto
  qed
qed simp

lemma take_node:
  assumes "node_ok E n"
  shows "\<exists>r n'. get_available_connection E n = (r, n') \<and> node_ok E n' \<and>
     (case r of None \<Rightarrow> node_items E n = [] \<and> node_items E n' = []
              | Some e \<Rightarrow> mset (node_items E n) = add_mset e (mset (node_items E n')))"
proof (cases "qc_items (pe_queue E) (cn_hot n)")
  case (Cons e es)
  obtain q where "qc_pop (pe_queue E) (cn_hot n) = (Some e, q)" "qc_items (pe_queue E) q = es"
      "qc_capacity (pe_queue E) q = qc_capacity (pe_queue E) (cn_hot n)"
    by (rule queue_popE [OF node_okD(1) [OF assms] Cons])
  with assms Cons show ?thesis
    by (auto simp: get_available_connection_def node_ok_def node_items_def)
next
  case Nil
  then have pop: "qc_pop (pe_queue E) (cn_hot n) = (None, cn_hot n)"
    using node_okD(1) [OF assms] by (rule queue_lawsD(4) [rotated])
  show ?thesis
  proof (cases "cn_connections n = []")
    case True
    with Nil pop assms show ?thesis by (simp add: get_available_connection_def node_items_def node_ok_def)
  next
    case False
    let ?k = "pe_pick E (map fst (cn_connections n))"
    have "?k \<in> fst ` set (cn_connections n)"
      using node_okD(3) [OF assms, of "map fst (cn_connections n)"] False by simp
    then obtain c where kc: "(?k, c) \<in> set (cn_connections n)" by force
    note d = node_okD(5) [OF assms]
    have "map_of (cn_connections n) ?k = Some c" using d kc by simp
    moreover have "distinct (map fst (AList.delete ?k (cn_connections n)))"
      using d by (rule distinct_delete)
    ultimately show ?thesis
      using Nil pop False assms distinct_remove [OF d kc]
      by (simp add: get_available_connection_def Let_def node_items_def node_ok_def)
  qed
qed

lemma add_node:
  assumes "node_ok E n" "cid \<notin> fst ` set (node_items E n)"
  shows "node_ok E (node_add_new_connection E cid c n) \<and>
     mset (node_items E (node_add_new_connection E cid c n)) = add_mset (cid, c) (mset (node_items E n))"
proof (cases "length (qc_items (pe_queue E) (cn_hot n)) < qc_capacity (pe_queue E) (cn_hot n)")
  case True
  obtain q where "qc_push (pe_queue E) (cid, c) (cn_hot n) = Inr q"
      "qc_items (pe_queue E) q = qc_items (pe_queue E) (cn_hot n) @ [(cid, c)]"
      "qc_capacity (pe_queue E) q = qc_capacity (pe_queue E) (cn_hot n)"
    by (rule queue_pushE [OF node_okD(1) [OF assms(1)] True])
  with assms True show ?thesis
    by (auto simp: node_add_new_connection_def node_ok_def node_items_def)
next
  case False
  have "cid \<notin> fst ` set (cn_connections n)" using assms(2) by (auto simp: node_items_def)
  then have "AList.update cid c (cn_connections n) = cn_connections n @ [(cid, c)]"
    by (rule update_absent)
  with False queue_lawsD(5) [OF node_okD(1) [OF assms(1)] False, of "(cid, c)"] assms show ?thesis
    by (auto simp: node_add_new_connection_def node_ok_def node_items_def)
qed


text \<open>One turn of the removal loop: what is popped goes back to the end of the queue.\<close>

lemma hot_rotates:
  assumes "queue_laws (pe_queue E)" "qc_items (pe_queue E) (cn_hot n) = (k, c) # es"
    "length (qc_items (pe_queue E) (cn_hot n)) \<le> qc_capacity (pe_queue E) (cn_hot n)"
  obtains q n' where "qc_pop (pe_queue E) (cn_hot n) = (Some (k, c), q)" "qc_items (pe_queue E) q = es"
    "node_add_new_connection E k c (n\<lparr>cn_hot := q\<rparr>) = n'" "cn_connections n' = cn_connections n"
    "qc_items (pe_queue E) (cn_hot n') = es @ [(k, c)]"
    "qc_capacity (pe_queue E) (cn_hot n') = qc_capacity (pe_queue E) (cn_hot n)"
    "qc_capacity (pe_queue E) q = qc_capacity (pe_queue E) (cn_hot n)"
proof -
  obtain q where q: "qc_pop (pe_queue E) (cn_hot n) = (Some (k, c), q)" "qc_items (pe_queue E) q = es"
      "qc_capacity (pe_queue E) q = qc_capacity (pe_queue E) (cn_hot n)"
    by (rule queue_popE [OF assms(1,2)])
  then have "length (qc_items (pe_queue E) q) < qc_capacity (pe_queue E) q" using assms(2,3) by simp
  from queue_pushE [OF assms(1) this, of "(k, c)"] obtain q' where
    q': "qc_push (pe_queue E) (k, c) q = Inr q'" "qc_items (pe_queue E) q' = es @ [(k, c)]"
      "qc_capacity (pe_queue E) q' = qc_capacity (pe_queue E) (cn_hot n)"
    using q(2,3) by metis
  show ?thesis
    by (rule that [OF q(1,2) refl _ _ _ q(3)]) (use q' in \<open>simp_all add: node_add_new_connection_def\<close>)
qed

lemma remove_hot_absent:
  assumes "queue_laws (pe_queue E)" "qc_items (pe_queue E) (cn_hot n) = xs @ ys" "cid \<notin> fst ` set xs"
    "length (xs @ ys) \<le> qc_capacity (pe_queue E) (cn_hot n)"
  shows "\<exists>n'. remove_hot E cid (length xs) n = (None, n') \<and> cn_connections n' = cn_connections n \<and>
     qc_items (pe_queue E) (cn_hot n') = ys @ xs \<and>
     qc_capacity (pe_queue E) (cn_hot n') = qc_capacity (pe_queue E) (cn_hot n)"
  using assms(2-)
proof (induction xs arbitrary: n ys)
  case (Cons x xs)
  obtain k c where x: "x = (k, c)" by (cases x)
  obtain q n' where rot: "qc_pop (pe_queue E) (cn_hot n) = (Some (k, c), q)"
      "node_add_new_connection E k c (n\<lparr>cn_hot := q\<rparr>) = n'" "cn_connections n' = cn_connections n"
      "qc_items (pe_queue E) (cn_hot n') = xs @ ys @ [(k, c)]"
      "qc_capacity (pe_queue E) (cn_hot n') = qc_capacity (pe_queue E) (cn_hot n)"
    by (rule hot_rotates [OF assms(1), of n k c "xs @ ys"]) (use Cons.prems x in auto)
  with Cons.IH [of n' "ys @ [(k, c)]"] Cons.prems x show ?case by auto
qed simp

lemma remove_hot_present:
  assumes "queue_laws (pe_queue E)" "qc_items (pe_queue E) (cn_hot n) = us @ (cid, c) # vs"
    "cid \<notin> fst ` set us" "length (us @ (cid, c) # vs) \<le> qc_capacity (pe_queue E) (cn_hot n)"
    "length us < k"
  shows "\<exists>n'. remove_hot E cid k n = (Some c, n') \<and> cn_connections n' = cn_connections n \<and>
     qc_items (pe_queue E) (cn_hot n') = vs @ us \<and>
     qc_capacity (pe_queue E) (cn_hot n') = qc_capacity (pe_queue E) (cn_hot n)"
  using assms(2-)
proof (induction us arbitrary: n vs k)
  case Nil
  then obtain k0 where k: "k = Suc k0" by (cases k) auto
  obtain q where "qc_pop (pe_queue E) (cn_hot n) = (Some (cid, c), q)" "qc_items (pe_queue E) q = vs"
      "qc_capacity (pe_queue E) q = qc_capacity (pe_queue E) (cn_hot n)"
    by (rule queue_popE [OF assms(1), of "cn_hot n" "(cid, c)" vs]) (use Nil in auto)
  with k show ?case by simp
next
  case (Cons u us)
  obtain k1 c1 where u: "u = (k1, c1)" by (cases u)
  obtain k0 where k: "k = Suc k0" using Cons.prems(4) by (cases k) auto
  obtain q n' where rot: "qc_pop (pe_queue E) (cn_hot n) = (Some (k1, c1), q)"
      "node_add_new_connection E k1 c1 (n\<lparr>cn_hot := q\<rparr>) = n'" "cn_connections n' = cn_connections n"
      "qc_items (pe_queue E) (cn_hot n') = us @ (cid, c) # vs @ [(k1, c1)]"
      "qc_capacity (pe_queue E) (cn_hot n') = qc_capacity (pe_queue E) (cn_hot n)"
    by (rule hot_rotates [OF assms(1), of n k1 c1 "us @ (cid, c) # vs"]) (use Cons.prems u in auto)
  with Cons.IH [of n' "vs @ [(k1, c1)]" k0] Cons.prems u k show ?case by auto
qed

lemma remove_node_absent:
  assumes "node_ok E n" "cid \<notin> fst ` set (node_items E n)"
  shows "\<exists>n'. node_remove_connection E cid n = (None, n') \<and> node_ok E n' \<and> node_items E n' = node_items E n"
proof -
  have "map_of (cn_connections n) cid = None" "cid \<notin> fst ` set (qc_items (pe_queue E) (cn_hot n))"
    using assms(2) by (auto simp: node_items_def map_of_eq_None_iff)
  with remove_hot_absent [OF node_okD(1) [OF assms(1)], of n "qc_items (pe_queue E) (cn_hot n)" "[]" cid]
    node_okD(7,8) [OF assms(1)] assms(1)
  show ?thesis
    by (auto simp: node_remove_connection_def node_items_def node_ok_def queue_lawsD(3) [OF node_okD(1) [OF assms(1)]])
qed

lemma remove_node_present:
  assumes ok: "node_ok E n" and mem: "(cid, c) \<in> set (node_items E n)"
  shows "\<exists>n'. node_remove_connection E cid n = (Some c, n') \<and> node_ok E n' \<and>
     mset (node_items E n) = add_mset (cid, c) (mset (node_items E n'))"
proof (cases "(cid, c) \<in> set (cn_connections n)")
  case True
  then have "map_of (cn_connections n) cid = Some c" using node_okD(5) [OF ok] by simp
  moreover have "distinct (map fst (AList.delete cid (cn_connections n)))"
    using node_okD(5) [OF ok] by (rule distinct_delete)
  moreover have "fst ` set (AList.delete cid (cn_connections n)) \<subseteq> fst ` set (cn_connections n)"
    by (rule dom_delete_subset)
  ultimately show ?thesis
    using ok distinct_remove [OF node_okD(5) [OF ok] True] node_okD(6) [OF ok]
    by (auto simp: node_remove_connection_def node_ok_def node_items_def)
next
  case False
  with mem have hot: "(cid, c) \<in> set (qc_items (pe_queue E) (cn_hot n))" by (simp add: node_items_def)
  then obtain us vs where split: "qc_items (pe_queue E) (cn_hot n) = us @ (cid, c) # vs"
    by (meson split_list)
  have "cid \<notin> fst ` set us" using node_okD(4) [OF ok] split by auto
  moreover have "map_of (cn_connections n) cid = None"
    using node_okD(6) [OF ok] hot by (force simp: map_of_eq_None_iff)
  moreover have "length (us @ (cid, c) # vs) \<le> qc_capacity (pe_queue E) (cn_hot n)"
    using node_okD(7,8) [OF ok] split by simp
  ultimately obtain n' where rem: "node_remove_connection E cid n = (Some c, n')"
      "cn_connections n' = cn_connections n" "qc_items (pe_queue E) (cn_hot n') = vs @ us"
      "qc_capacity (pe_queue E) (cn_hot n') = qc_capacity (pe_queue E) (cn_hot n)"
    using remove_hot_present [OF node_okD(1) [OF ok] split, of "qc_len (pe_queue E) (cn_hot n)"] split
    by (auto simp: node_remove_connection_def queue_lawsD(3) [OF node_okD(1) [OF ok]])
  moreover have "distinct (map fst ((us @ (cid, c) # vs) @ cn_connections n))"
    using ok split by (simp add: node_ok_def node_items_def)
  ultimately show ?thesis
    using ok split by (auto simp: node_ok_def node_items_def)
qed

interpretation node: conn_store "node_ok E" "\<lambda>n. mset (node_items E n)" "get_available_connection E"
  "node_add_new_connection E" "node_remove_connection E"
  for E :: "('a, 'q, 'c) pool_env"
proof
  fix n :: "('a, 'q) conn_node"
  assume ok: "node_ok E n"
  from take_node [OF ok] show "mset (node_items E n) = {#} \<Longrightarrow> \<exists>n'. get_available_connection E n = (None, n') \<and>
      node_ok E n' \<and> mset (node_items E n') = {#}"
    by (fastforce split: option.splits)
  from take_node [OF ok] show "mset (node_items E n) \<noteq> {#} \<Longrightarrow> \<exists>e n'. get_available_connection E n = (Some e, n') \<and>
      node_ok E n' \<and> mset (node_items E n) = add_mset e (mset (node_items E n'))"
    by (auto split: option.splits)
  fix cid :: conn_id and c :: 'a
  show "cid \<notin># image_mset fst (mset (node_items E n)) \<Longrightarrow> node_ok E (node_add_new_connection E cid c n) \<and>
      mset (node_items E (node_add_new_connection E cid c n)) = add_mset (cid, c) (mset (node_items E n))"
    by (rule add_node [OF ok]) (simp flip: mset_map)
  show "cid \<notin># image_mset fst (mset (node_items E n)) \<Longrightarrow> \<exists>n'. node_remove_connection E cid n = (None, n') \<and>
      node_ok E n' \<and> mset (node_items E n') = mset (node_items E n)"
    using remove_node_absent [OF ok, of cid] by (auto simp flip: mset_map)
  show "(cid, c) \<in># mset (node_items E n) \<Longrightarrow> \<exists>n'. node_remove_connection E cid n = (Some c, n') \<and>
      node_ok E n' \<and> mset (node_items E n) = add_mset (cid, c) (mset (node_items E n'))"
    using remove_node_present [OF ok, of cid c] by simp
qed


section \<open>The connection pool\<close>

text \<open>
  A connection waits in the pool with the sender of a oneshot channel, a handle here. \<open>cp_signals\<close> is the log of
  what receivers learn: the handle with \<open>True\<close> when the connection is picked up, with \<open>False\<close> when the sender is
  dropped together with its connection.
\<close>

record 's conn_notifier =
  cnt_sender :: nat
  cnt_connection :: 's

record ('s, 'q, 'c) conn_pool =
  cp_pool :: "group_id \<rightharpoonup> ('s conn_notifier, 'q) conn_node"
  cp_lru :: "(conn_meta, 'c) conn_lru"
  cp_channels :: nat
  cp_signals :: "(nat \<times> bool) list"

type_synonym ('s, 'q, 'c) env = "('s conn_notifier, 'q, 'c) pool_env"

definition pool_new :: "nat \<Rightarrow> ('s, 'q, 'c) conn_pool" where
  "pool_new capacity = \<lparr>cp_pool = Map.empty, cp_lru = lru_new capacity, cp_channels = 0, cp_signals = []\<rparr>"

definition pick_up_connection :: "'s conn_notifier \<Rightarrow> ('s, 'q, 'c) conn_pool \<Rightarrow> 's \<times> ('s, 'q, 'c) conn_pool" where
  "pick_up_connection cn P = (cnt_connection cn, P\<lparr>cp_signals := cp_signals P @ [(cnt_sender cn, True)]\<rparr>)"

definition get_connection_node ::
  "('s, 'q, 'c) env \<Rightarrow> group_id \<Rightarrow> ('s, 'q, 'c) conn_pool
   \<Rightarrow> ('s conn_notifier, 'q) conn_node \<times> ('s, 'q, 'c) conn_pool" where
  "get_connection_node E g P =
     (case cp_pool P g of
        Some n \<Rightarrow> (n, P)
      | None \<Rightarrow> (node_new E, P\<lparr>cp_pool := (cp_pool P)(g \<mapsto> node_new E)\<rparr>))"

definition get_connection_from_pool ::
  "('s, 'q, 'c) env \<Rightarrow> thread \<Rightarrow> group_id \<Rightarrow> ('s, 'q, 'c) conn_pool \<Rightarrow> 's option \<times> ('s, 'q, 'c) conn_pool" where
  "get_connection_from_pool E t g P =
     (case cp_pool P g of
        None \<Rightarrow> (None, P)
      | Some n \<Rightarrow>
          (case get_available_connection E n of
             (None, n') \<Rightarrow> (None, P\<lparr>cp_pool := (cp_pool P)(g \<mapsto> n')\<rparr>)
           | (Some (cid, cn), n') \<Rightarrow>
               (case pick_up_connection cn
                       (P\<lparr>cp_pool := (cp_pool P)(g \<mapsto> n'),
                          cp_lru := snd (pop_connection (pe_lru E) t cid (cp_lru P))\<rparr>) of
                  (c, P') \<Rightarrow> (Some c, P'))))"

definition remove_connection_from_pool ::
  "('s, 'q, 'c) env \<Rightarrow> conn_meta \<Rightarrow> ('s, 'q, 'c) conn_pool \<Rightarrow> ('s, 'q, 'c) conn_pool" where
  "remove_connection_from_pool E m P =
     (case cp_pool P (md_group m) of
        None \<Rightarrow> P
      | Some n \<Rightarrow>
          (case node_remove_connection E (md_id m) n of
             (r, n') \<Rightarrow>
               P\<lparr>cp_pool := (cp_pool P)(md_group m \<mapsto> n'),
                 cp_signals := cp_signals P @ (case r of None \<Rightarrow> [] | Some cn \<Rightarrow> [(cnt_sender cn, False)])\<rparr>))"

definition remove_connection ::
  "('s, 'q, 'c) env \<Rightarrow> thread \<Rightarrow> conn_meta \<Rightarrow> ('s, 'q, 'c) conn_pool \<Rightarrow> ('s, 'q, 'c) conn_pool" where
  "remove_connection E t m P =
     (let P' = remove_connection_from_pool E m P
      in P'\<lparr>cp_lru := snd (pop_connection (pe_lru E) t (md_id m) (cp_lru P'))\<rparr>)"

text \<open>The result: the handles on which the caller learns of the removal and of the pick-up.\<close>

definition add_connection_to_pool ::
  "('s, 'q, 'c) env \<Rightarrow> thread \<Rightarrow> conn_meta \<Rightarrow> 's \<Rightarrow> ('s, 'q, 'c) conn_pool
   \<Rightarrow> (nat \<times> nat) \<times> ('s, 'q, 'c) conn_pool" where
  "add_connection_to_pool E t m s P =
     (case lru_add_new_connection (pe_lru E) t (md_id m) m (cp_lru P) of
        ((closed, replaced), lr) \<Rightarrow>
          (let P1 = P\<lparr>cp_lru := lr\<rparr>;
               P2 = (case replaced of Some old \<Rightarrow> remove_connection_from_pool E old P1 | None \<Rightarrow> P1)
           in case get_connection_node E (md_group m) P2 of
                (n, P3) \<Rightarrow>
                  (let h = cp_channels P3;
                       n' = node_add_new_connection E (md_id m) \<lparr>cnt_sender = h, cnt_connection = s\<rparr> n
                   in ((closed, h), P3\<lparr>cp_channels := Suc h, cp_pool := (cp_pool P3)(md_group m \<mapsto> n')\<rparr>))))"

text \<open>
  The task that watches an idle connection: the \<open>select!\<close> is biased, so of several ready branches the first
  one is taken; \<open>None\<close> is still waiting. A receiver is ready when its sender has sent or is gone.
\<close>

datatype idle_event = IdlePickedUp | IdleEvicted | IdleTimedOut

definition connection_idle_timeout ::
  "('s, 'q, 'c) env \<Rightarrow> thread \<Rightarrow> conn_meta \<Rightarrow> bool \<Rightarrow> nat \<times> nat \<Rightarrow> ('s, 'q, 'c) conn_pool
   \<Rightarrow> idle_event option \<times> ('s, 'q, 'c) conn_pool" where
  "connection_idle_timeout E t m elapsed handles P =
     (if snd handles \<in> fst ` set (cp_signals P) then (Some IdlePickedUp, P)
      else if fst handles \<in> set (cl_notified (cp_lru P)) then (Some IdleEvicted, P)
      else if elapsed then (Some IdleTimedOut, remove_connection E t m P)
      else (None, P))"

section \<open>The entries of the pool\<close>

definition pool_items :: "('s, 'q, 'c) env \<Rightarrow> ('s, 'q, 'c) conn_pool \<Rightarrow> group_id \<Rightarrow> (conn_id \<times> 's conn_notifier) multiset" where
  "pool_items E P g = (case cp_pool P g of None \<Rightarrow> {#} | Some n \<Rightarrow> mset (node_items E n))"

definition pool_entries :: "('s, 'q, 'c) env \<Rightarrow> ('s, 'q, 'c) conn_pool \<Rightarrow> (group_id \<times> conn_id) set" where
  "pool_entries E P = {(g, i). i \<in> fst ` set_mset (pool_items E P g)}"

definition nodes_ok :: "('s, 'q, 'c) env \<Rightarrow> ('s, 'q, 'c) conn_pool \<Rightarrow> bool" where
  "nodes_ok E P \<longleftrightarrow> pool_env_laws E \<and> (\<forall>g n. cp_pool P g = Some n \<longrightarrow> node_ok E n)"

lemma pool_items_frame [simp]:
  "pool_items E (P\<lparr>cp_lru := lr\<rparr>) = pool_items E P" "pool_items E (P\<lparr>cp_signals := sg\<rparr>) = pool_items E P"
  "pool_items E (P\<lparr>cp_channels := k\<rparr>) = pool_items E P"
  "nodes_ok E (P\<lparr>cp_lru := lr\<rparr>) = nodes_ok E P" "nodes_ok E (P\<lparr>cp_signals := sg\<rparr>) = nodes_ok E P"
  "nodes_ok E (P\<lparr>cp_channels := k\<rparr>) = nodes_ok E P"
  by (simp_all add: pool_items_def nodes_ok_def fun_eq_iff)

lemma pool_items_node [simp]:
  "pool_items E (P\<lparr>cp_pool := (cp_pool P)(g \<mapsto> n)\<rparr>) = (pool_items E P)(g := mset (node_items E n))"
  by (simp add: pool_items_def fun_eq_iff)

lemma nodes_ok_node: "nodes_ok E P \<Longrightarrow> node_ok E n \<Longrightarrow> nodes_ok E (P\<lparr>cp_pool := (cp_pool P)(g \<mapsto> n)\<rparr>)"
  by (simp add: nodes_ok_def)

text \<open>Membership, one node at a time.\<close>

lemma pool_entries_node:
  "(g', i) \<in> pool_entries E (P\<lparr>cp_pool := (cp_pool P)(g \<mapsto> n)\<rparr>) \<longleftrightarrow>
     (if g' = g then i \<in> fst ` set (node_items E n) else (g', i) \<in> pool_entries E P)"
  by (simp add: pool_entries_def)

lemma pool_entries_at: "cp_pool P g = Some n \<Longrightarrow> (g, i) \<in> pool_entries E P \<longleftrightarrow> i \<in> fst ` set (node_items E n)"
  by (simp add: pool_entries_def pool_items_def)

lemma pool_entries_frame [simp]:
  "pool_entries E (P\<lparr>cp_lru := lr\<rparr>) = pool_entries E P" "pool_entries E (P\<lparr>cp_signals := sg\<rparr>) = pool_entries E P"
  "pool_entries E (P\<lparr>cp_channels := k\<rparr>) = pool_entries E P"
  by (simp_all add: pool_entries_def)

lemma pool_entries_remove_node:
  assumes "cp_pool P g = Some n" "fst ` set (node_items E n') = fst ` set (node_items E n) - X"
  shows "pool_entries E (P\<lparr>cp_pool := (cp_pool P)(g \<mapsto> n')\<rparr>) = pool_entries E P - {g} \<times> X"
proof -
  have "(g', i) \<in> pool_entries E (P\<lparr>cp_pool := (cp_pool P)(g \<mapsto> n')\<rparr>) \<longleftrightarrow> (g', i) \<in> pool_entries E P - {g} \<times> X"
    for g' i
    using pool_entries_at [OF assms(1)] assms(2) by (cases "g' = g") (simp_all add: pool_entries_node)
  then show ?thesis by auto
qed

lemma node_ids_distinct:
  assumes "node_ok E n" "mset (node_items E n) = add_mset (cid, c) (mset xs)"
  shows "fst ` set xs = fst ` set (node_items E n) - {cid}"
proof -
  have eq: "mset (map fst (node_items E n)) = mset (cid # map fst xs)"
    using assms(2) by simp
  have "distinct (map fst (node_items E n))" using assms(1) by (simp add: node_ok_def)
  then have "distinct (cid # map fst xs)" using mset_eq_imp_distinct_iff [OF eq] by blast
  with mset_eq_setD [OF eq] show ?thesis by auto
qed

text \<open>What the private operations do to the contents of the pool.\<close>

lemma get_connection_node_items:
  assumes "nodes_ok E P" "get_connection_node E g P = (n, P')"
  shows "node_ok E n" "nodes_ok E P'" "mset (node_items E n) = pool_items E P g"
    "pool_items E P' = pool_items E P" "cp_lru P' = cp_lru P" "cp_signals P' = cp_signals P"
  using assms node_ok_new [of E]
  by (auto simp: get_connection_node_def nodes_ok_def pool_items_def fun_eq_iff split: option.splits if_splits)

lemma remove_from_pool_items:
  assumes "nodes_ok E P"
  shows "nodes_ok E (remove_connection_from_pool E m P)"
    and "cp_lru (remove_connection_from_pool E m P) = cp_lru P"
    and "pool_entries E (remove_connection_from_pool E m P) = pool_entries E P - {(md_group m, md_id m)}"
proof -
  consider (none) "cp_pool P (md_group m) = None" | (some) n where "cp_pool P (md_group m) = Some n"
    by (cases "cp_pool P (md_group m)") auto
  then have "nodes_ok E (remove_connection_from_pool E m P) \<and> cp_lru (remove_connection_from_pool E m P) = cp_lru P \<and>
     pool_entries E (remove_connection_from_pool E m P) = pool_entries E P - {(md_group m, md_id m)}"
  proof cases
    case none
    then have "remove_connection_from_pool E m P = P" by (simp add: remove_connection_from_pool_def)
    moreover have "(md_group m, md_id m) \<notin> pool_entries E P"
      using none by (simp add: pool_entries_def pool_items_def)
    ultimately show ?thesis using assms by simp
  next
    case some
    then have ok: "node_ok E n" using assms by (simp add: nodes_ok_def)
    obtain r n' where rem: "node_remove_connection E (md_id m) n = (r, n')" by fastforce
    have "node_ok E n' \<and> fst ` set (node_items E n') = fst ` set (node_items E n) - {md_id m}"
    proof (cases "md_id m \<in> fst ` set (node_items E n)")
      case True
      then obtain c where "(md_id m, c) \<in> set (node_items E n)" by auto
      from remove_node_present [OF ok this] rem have "node_ok E n'"
          "mset (node_items E n) = add_mset (md_id m, c) (mset (node_items E n'))" by auto
      with node_ids_distinct [OF ok this(2)] show ?thesis by simp
    next
      case False
      with remove_node_absent [OF ok False] rem show ?thesis by auto
    qed
    with rem some assms pool_entries_remove_node [OF some, of E n' "{md_id m}"] show ?thesis
      by (simp add: remove_connection_from_pool_def nodes_ok_node)
  qed
  then show "nodes_ok E (remove_connection_from_pool E m P)"
    "cp_lru (remove_connection_from_pool E m P) = cp_lru P"
    "pool_entries E (remove_connection_from_pool E m P) = pool_entries E P - {(md_group m, md_id m)}"
    by simp_all
qed


section \<open>The pool and its cache agree\<close>

text \<open>
  With one worker thread, and unless the cache has been drained, the cache lists exactly the
  connections of the pool, no more than its capacity.
\<close>

definition cached_entries :: "('s, 'q, 'c) env \<Rightarrow> thread \<Rightarrow> ('s, 'q, 'c) conn_pool \<Rightarrow> (conn_id \<times> conn_meta lru_node) list" where
  "cached_entries E t P = entries_of (pe_lru E) t (cp_lru P)"

definition entry_of :: "conn_id \<times> conn_meta lru_node \<Rightarrow> group_id \<times> conn_id" where
  "entry_of e = (md_group (ln_metadata (snd e)), fst e)"

definition pool_inv :: "('s, 'q, 'c) env \<Rightarrow> thread \<Rightarrow> ('s, 'q, 'c) conn_pool \<Rightarrow> bool" where
  "pool_inv E t P \<longleftrightarrow>
     nodes_ok E P \<and> \<not> cl_drain (cp_lru P) \<and> 0 < cl_capacity (cp_lru P) \<and>
     distinct (map fst (cached_entries E t P)) \<and>
     length (cached_entries E t P) \<le> cl_capacity (cp_lru P) \<and>
     (\<forall>e \<in> set (cached_entries E t P). md_id (ln_metadata (snd e)) = fst e) \<and>
     entry_of ` set (cached_entries E t P) = pool_entries E P"

lemma cached_unique: "entry_of ` {e \<in> A. fst e \<noteq> k} = entry_of ` A - {e. snd e = k}"
  by (auto simp: entry_of_def image_iff)

lemma entry_of_inj: "distinct (map fst es) \<Longrightarrow> inj_on entry_of (set es)"
  by (auto simp: entry_of_def inj_on_def distinct_map)

lemma pool_inv_bound:
  assumes "pool_inv E t P"
  shows "finite (pool_entries E P)" "card (pool_entries E P) \<le> cl_capacity (cp_lru P)"
    "(g, i) \<in> pool_entries E P \<Longrightarrow> (g', i) \<in> pool_entries E P \<Longrightarrow> g = g'"
proof -
  let ?es = "cached_entries E t P"
  have inv: "entry_of ` set ?es = pool_entries E P" "length ?es \<le> cl_capacity (cp_lru P)" "distinct (map fst ?es)"
    using assms by (simp_all add: pool_inv_def)
  then show "finite (pool_entries E P)" by (metis finite_imageI List.finite_set)
  have "card (pool_entries E P) \<le> length ?es"
    unfolding inv(1) [symmetric] by (meson card_image_le card_length List.finite_set order_trans)
  with inv(2) show "card (pool_entries E P) \<le> cl_capacity (cp_lru P)" by simp
  assume "(g, i) \<in> pool_entries E P" "(g', i) \<in> pool_entries E P"
  then show "g = g'"
    unfolding inv(1) [symmetric] using eq_key_imp_eq_value [OF inv(3)] by (force simp: entry_of_def)
qed

lemma entries_with_id:
  assumes "pool_inv E t P" "(g, i) \<in> pool_entries E P"
  shows "pool_entries E P - {x. snd x = i} = pool_entries E P - {(g, i)}"
proof -
  have only: "x = (g, i)" if "x \<in> pool_entries E P" "snd x = i" for x
  proof -
    have "(fst x, i) \<in> pool_entries E P" using that by (cases x) simp
    then have "g = fst x" by (rule pool_inv_bound(3) [OF assms])
    with that(2) show ?thesis by (simp add: prod_eq_iff)
  qed
  show ?thesis
  proof (rule set_eqI)
    fix x
    show "x \<in> pool_entries E P - {x. snd x = i} \<longleftrightarrow> x \<in> pool_entries E P - {(g, i)}"
      using only [of x] by (cases "snd x = i") auto
  qed
qed

lemma entry_ids: "snd ` entry_of ` A = fst ` A"
  by (simp add: image_image entry_of_def)

lemma pool_inv_new:
  assumes "pool_env_laws E" "0 < capacity"
  shows "pool_inv E t (pool_new capacity)"
  using assms entries_of_new [of "pe_lru E" t capacity]
  by (simp add: pool_inv_def pool_new_def cached_entries_def nodes_ok_def pool_entries_def pool_items_def
        lru_new_def pool_env_laws_def)

lemma pool_inv_taken:
  assumes inv: "pool_inv E t P" and n: "cp_pool P g = Some n" and ok: "node_ok E n'"
    and taken: "mset (node_items E n) = add_mset (cid, cn) (mset (node_items E n'))"
  shows "pool_inv E t (P\<lparr>cp_pool := (cp_pool P)(g \<mapsto> n'), cp_lru := snd (pop_connection (pe_lru E) t cid (cp_lru P))\<rparr>)"
    (is "pool_inv E t ?P")
proof -
  have laws: "lru_laws (pe_lru E)" and nodes: "nodes_ok E P"
    using inv by (simp_all add: pool_inv_def nodes_ok_def pool_env_laws_def)
  have items: "fst ` set (node_items E n') = fst ` set (node_items E n) - {cid}"
    using node_ids_distinct [of E n cid cn] taken nodes n by (simp add: nodes_ok_def)
  from arg_cong [OF taken, of set_mset] have "cid \<in> fst ` set (node_items E n)" by force
  then have here: "(g, cid) \<in> pool_entries E P" using n by (simp add: pool_entries_def pool_items_def)
  have "pool_entries E ?P = pool_entries E P - {(g, cid)}" using pool_entries_remove_node [OF n items] by simp
  also have "\<dots> = pool_entries E P - {x. snd x = cid}" using entries_with_id [OF inv here] by simp
  finally have entries: "pool_entries E ?P = pool_entries E P - {x. snd x = cid}" .
  have "cached_entries E t ?P = without_key cid (cached_entries E t P)"
    using pop_connection_entries(1) [OF laws] by (simp add: cached_entries_def)
  moreover have "length (without_key cid (cached_entries E t P)) \<le> cl_capacity (cp_lru P)"
    using without_key_facts(4) [of cid "cached_entries E t P"] inv unfolding pool_inv_def by linarith
  ultimately show ?thesis
    using inv entries nodes_ok_node [OF nodes ok, of g] pop_connection_entries(2,3) [OF laws]
    by (simp add: pool_inv_def cached_unique)
qed

lemma pool_inv_find:
  assumes "pool_inv E t P"
  shows "pool_inv E t (snd (get_connection_from_pool E t g P))"
proof (cases "cp_pool P g")
  case None
  then show ?thesis using assms by (simp add: get_connection_from_pool_def)
next
  case (Some n)
  have nodes: "nodes_ok E P" using assms by (simp add: pool_inv_def)
  then have ok: "node_ok E n" using Some by (simp add: nodes_ok_def)
  obtain r n' where take: "get_available_connection E n = (r, n')" "node_ok E n'"
      "case r of None \<Rightarrow> node_items E n = [] \<and> node_items E n' = []
        | Some e \<Rightarrow> mset (node_items E n) = add_mset e (mset (node_items E n'))"
    using take_node [OF ok] by blast
  show ?thesis
  proof (cases r)
    case None
    then have "pool_entries E (P\<lparr>cp_pool := (cp_pool P)(g \<mapsto> n')\<rparr>) = pool_entries E P"
      using take(3) pool_entries_remove_node [OF Some, of E n' "{}"] by simp
    then show ?thesis
      using None take Some assms nodes_ok_node [OF nodes take(2), of g]
      by (simp add: get_connection_from_pool_def pool_inv_def cached_entries_def)
  next
    case e: (Some e)
    obtain cid cn where cid: "e = (cid, cn)" by (cases e)
    let ?P = "P\<lparr>cp_pool := (cp_pool P)(g \<mapsto> n'), cp_lru := snd (pop_connection (pe_lru E) t cid (cp_lru P))\<rparr>"
    have "pool_inv E t ?P" by (rule pool_inv_taken [OF assms Some take(2), of cid cn]) (use take(3) e cid in simp)
    moreover have "snd (get_connection_from_pool E t g P) = ?P\<lparr>cp_signals := cp_signals P @ [(cnt_sender cn, True)]\<rparr>"
      using take(1) e cid Some by (simp add: get_connection_from_pool_def pick_up_connection_def)
    ultimately show ?thesis by (simp add: pool_inv_def cached_entries_def pool_entries_def)
  qed
qed


lemma pool_inv_remove:
  assumes "pool_inv E t P" "md_id m \<in> snd ` pool_entries E P \<Longrightarrow> (md_group m, md_id m) \<in> pool_entries E P"
  shows "pool_inv E t (remove_connection E t m P)"
proof -
  have laws: "lru_laws (pe_lru E)" and nodes: "nodes_ok E P"
    using assms by (simp_all add: pool_inv_def nodes_ok_def pool_env_laws_def)
  let ?P = "remove_connection_from_pool E m P"
  note rem = remove_from_pool_items [OF nodes, of m]
  have "pool_entries E ?P = pool_entries E P - {x. snd x = md_id m}"
  proof (cases "(md_group m, md_id m) \<in> pool_entries E P")
    case True
    then show ?thesis using rem(3) entries_with_id [OF assms(1) True] by simp
  next
    case False
    then have "md_id m \<notin> snd ` pool_entries E P" using assms(2) by blast
    then have "pool_entries E P - {x. snd x = md_id m} = pool_entries E P" by (auto simp: image_iff)
    then show ?thesis using rem(3) False by simp
  qed
  moreover have "length (without_key (md_id m) (cached_entries E t P)) \<le> cl_capacity (cp_lru P)"
    using without_key_facts(4) [of "md_id m" "cached_entries E t P"] assms unfolding pool_inv_def by linarith
  moreover have "cached_entries E t (remove_connection E t m P) = without_key (md_id m) (cached_entries E t P)"
    using pop_connection_entries(1) [OF laws] rem(2)
    by (simp add: cached_entries_def remove_connection_def Let_def)
  ultimately show ?thesis
    using assms(1) rem(1,2) pop_connection_entries(2,3) [OF laws]
    by (simp add: pool_inv_def remove_connection_def Let_def cached_unique)
qed

lemma pool_entries_add:
  assumes "nodes_ok E P" "get_connection_node E g P = (n, P')" "cid \<notin> snd ` pool_entries E P"
  shows "nodes_ok E (P'\<lparr>cp_pool := (cp_pool P')(g \<mapsto> node_add_new_connection E cid c n)\<rparr>)"
    and "pool_entries E (P'\<lparr>cp_pool := (cp_pool P')(g \<mapsto> node_add_new_connection E cid c n)\<rparr>)
       = insert (g, cid) (pool_entries E P)"
proof -
  note node = get_connection_node_items [OF assms(1,2)]
  have ids: "fst ` set (node_items E n) = {i. (g, i) \<in> pool_entries E P}"
    using arg_cong [OF node(3), of set_mset] by (simp add: pool_entries_def)
  then have "cid \<notin> fst ` set (node_items E n)" using assms(3) by force
  from add_node [OF node(1) this, of c] have add: "node_ok E (node_add_new_connection E cid c n)"
      "mset (node_items E (node_add_new_connection E cid c n)) = add_mset (cid, c) (mset (node_items E n))"
    by simp_all
  show "nodes_ok E (P'\<lparr>cp_pool := (cp_pool P')(g \<mapsto> node_add_new_connection E cid c n)\<rparr>)"
    by (rule nodes_ok_node [OF node(2) add(1)])
  have "fst ` set (node_items E (node_add_new_connection E cid c n)) = insert cid (fst ` set (node_items E n))"
    using arg_cong [OF add(2), of set_mset] by simp
  then have "(g', i) \<in> pool_entries E (P'\<lparr>cp_pool := (cp_pool P')(g \<mapsto> node_add_new_connection E cid c n)\<rparr>)
      \<longleftrightarrow> (g', i) \<in> insert (g, cid) (pool_entries E P)" for g' i
    using ids node(4) by (simp add: pool_entries_node) (simp add: pool_entries_def)
  then show "pool_entries E (P'\<lparr>cp_pool := (cp_pool P')(g \<mapsto> node_add_new_connection E cid c n)\<rparr>)
       = insert (g, cid) (pool_entries E P)" by auto
qed

text \<open>A new connection enters the cache: the least recently used one leaves cache and pool when there is no room.\<close>

lemma pool_inv_evicts:
  assumes inv: "pool_inv E t P" and new: "md_id m \<notin> fst ` set (cached_entries E t P)"
    and lru: "lru_add_new_connection (pe_lru E) t (md_id m) m (cp_lru P) = ((closed, replaced), lr)"
    and P2: "P2 = (case replaced of Some old \<Rightarrow> remove_connection_from_pool E old (P\<lparr>cp_lru := lr\<rparr>) | None \<Rightarrow> P\<lparr>cp_lru := lr\<rparr>)"
  obtains es where "entries_of (pe_lru E) t lr = (md_id m, \<lparr>ln_notifier = closed, ln_metadata = m\<rparr>) # es"
    "set es \<subseteq> set (cached_entries E t P)" "distinct (map fst es)" "length es < cl_capacity lr" "cl_capacity lr = cl_capacity (cp_lru P)"
    "\<not> cl_drain lr" "nodes_ok E P2" "cp_lru P2 = lr" "entry_of ` set es = pool_entries E P2"
proof -
  let ?es = "cached_entries E t P" and ?e = "(md_id m, \<lparr>ln_notifier = closed, ln_metadata = m\<rparr>)"
  have laws: "lru_laws (pe_lru E)" and nodes: "nodes_ok E P"
    using inv by (simp_all add: pool_inv_def nodes_ok_def pool_env_laws_def)
  have I: "\<not> cl_drain (cp_lru P)" "0 < cl_capacity (cp_lru P)" "distinct (map fst ?es)"
      "length ?es \<le> cl_capacity (cp_lru P)" "\<forall>e \<in> set ?es. md_id (ln_metadata (snd e)) = fst e"
      "entry_of ` set ?es = pool_entries E P"
    using inv by (simp_all add: pool_inv_def)
  have cases: "cl_capacity lr = cl_capacity (cp_lru P)" "\<not> cl_drain lr"
      "if cl_capacity (cp_lru P) < length (?e # ?es)
       then entries_of (pe_lru E) t lr = butlast (?e # ?es) \<and> replaced = Some (ln_metadata (snd (last (?e # ?es))))
       else entries_of (pe_lru E) t lr = ?e # ?es \<and> replaced = None"
    using add_new_connection_cases [OF laws I(1) lru] without_key_absent [OF new] by (simp_all add: cached_entries_def)
  show ?thesis
  proof (cases "cl_capacity (cp_lru P) < length (?e # ?es)")
    case False
    then show ?thesis using that [of ?es] cases I nodes by (simp add: P2)
  next
    case True
    then have len: "length ?es = cl_capacity (cp_lru P)" using I(4) by simp
    then obtain x xs where es: "?es = xs @ [x]" using I(2) by (metis length_greater_0_conv rev_exhaust)
    with True cases(3) have rep: "replaced = Some (ln_metadata (snd x))" "entries_of (pe_lru E) t lr = ?e # xs"
      by (simp_all add: butlast_append)
    have "nodes_ok E (P\<lparr>cp_lru := lr\<rparr>)" using nodes by simp
    note rem = remove_from_pool_items [OF this, of "ln_metadata (snd x)"]
    have "md_id (ln_metadata (snd x)) = fst x" using I(5) es by simp
    then have "pool_entries E P2 = pool_entries E P - {entry_of x}" using rem(3) rep(1) by (simp add: P2 entry_of_def)
    also have "\<dots> = entry_of ` set xs"
      using I(3,6) es entry_of_inj [OF I(3)] by (auto simp: inj_on_def entry_of_def)
    finally show ?thesis using that [of xs] rem(1,2) rep es len I(3) cases(1,2) by (auto simp: P2)
  qed
qed

lemma pool_inv_add:
  assumes inv: "pool_inv E t P" and fresh: "md_id m \<notin> snd ` pool_entries E P"
  shows "pool_inv E t (snd (add_connection_to_pool E t m s P))"
proof -
  have I: "0 < cl_capacity (cp_lru P)" "\<forall>e \<in> set (cached_entries E t P). md_id (ln_metadata (snd e)) = fst e"
      "entry_of ` set (cached_entries E t P) = pool_entries E P"
    using inv by (simp_all add: pool_inv_def)
  have new: "md_id m \<notin> fst ` set (cached_entries E t P)" using fresh unfolding I(3) [symmetric] entry_ids .
  obtain closed replaced lr where lru: "lru_add_new_connection (pe_lru E) t (md_id m) m (cp_lru P) = ((closed, replaced), lr)"
    by (metis prod.collapse)
  define P2 where "P2 = (case replaced of Some old \<Rightarrow> remove_connection_from_pool E old (P\<lparr>cp_lru := lr\<rparr>)
      | None \<Rightarrow> P\<lparr>cp_lru := lr\<rparr>)"
  obtain es where es: "entries_of (pe_lru E) t lr = (md_id m, \<lparr>ln_notifier = closed, ln_metadata = m\<rparr>) # es"
    "set es \<subseteq> set (cached_entries E t P)" "distinct (map fst es)" "length es < cl_capacity lr" "cl_capacity lr = cl_capacity (cp_lru P)"
    "\<not> cl_drain lr" "nodes_ok E P2" "cp_lru P2 = lr" "entry_of ` set es = pool_entries E P2"
    by (rule pool_inv_evicts [OF inv new lru P2_def])
  have newid: "md_id m \<notin> fst ` set es" using new es(2) by blast
  have fresh2: "md_id m \<notin> snd ` pool_entries E P2" using newid unfolding es(9) [symmetric] entry_ids .
  obtain n P3 where node: "get_connection_node E (md_group m) P2 = (n, P3)" by fastforce
  let ?n = "node_add_new_connection E (md_id m) \<lparr>cnt_sender = cp_channels P3, cnt_connection = s\<rparr> n"
  let ?P = "P3\<lparr>cp_pool := (cp_pool P3)(md_group m \<mapsto> ?n)\<rparr>"
  have run: "snd (add_connection_to_pool E t m s P) = ?P\<lparr>cp_channels := Suc (cp_channels P3)\<rparr>"
    using lru node by (simp add: add_connection_to_pool_def Let_def P2_def split: option.splits)
  have lr: "cp_lru ?P = lr" using get_connection_node_items(5) [OF es(7) node] es(8) by simp
  have "pool_inv E t ?P"
    using pool_entries_add [OF es(7) node fresh2] es lr I(1,2) newid
    by (auto simp: pool_inv_def cached_entries_def entry_of_def)
  then show ?thesis unfolding run by (simp add: pool_inv_def cached_entries_def)
qed

section \<open>Reachable pools\<close>

text \<open>
  The pool of one worker thread, from its creation on. A connection is added with an identifier (the
  descriptor of its open socket) that no waiting connection has; it is closed with the metadata it was
  added with, or when it is no longer there.
\<close>

inductive pool_reach :: "('s, 'q, 'c) env \<Rightarrow> thread \<Rightarrow> nat \<Rightarrow> ('s, 'q, 'c) conn_pool \<Rightarrow> bool"
  for E t capacity where
  reach_new: "pool_reach E t capacity (pool_new capacity)"
| reach_add: "pool_reach E t capacity P \<Longrightarrow> md_id m \<notin> snd ` pool_entries E P \<Longrightarrow>
    pool_reach E t capacity (snd (add_connection_to_pool E t m s P))"
| reach_find: "pool_reach E t capacity P \<Longrightarrow> pool_reach E t capacity (snd (get_connection_from_pool E t g P))"
| reach_close: "pool_reach E t capacity P \<Longrightarrow>
    (md_id m \<in> snd ` pool_entries E P \<Longrightarrow> (md_group m, md_id m) \<in> pool_entries E P) \<Longrightarrow>
    pool_reach E t capacity (remove_connection E t m P)"

lemma remove_from_pool_lru: "cp_lru (remove_connection_from_pool E m P) = cp_lru P"
  by (auto simp: remove_connection_from_pool_def split: option.splits prod.splits)

lemma get_connection_node_lru: "cp_lru (snd (get_connection_node E g P)) = cp_lru P"
  by (auto simp: get_connection_node_def split: option.splits)

lemma pop_capacity: "cl_capacity (snd (pop_connection L t cid lr)) = cl_capacity lr"
  by (simp add: pop_connection_def case_prod_unfold)

lemma add_capacity:
  "lru_add_new_connection L t cid m lr = (r, lr') \<Longrightarrow> cl_capacity lr' = cl_capacity lr"
  by (auto simp: lru_add_new_connection_def lru_node_new_def insert_connection_def Let_def notify_removal_def
        set_thread_cache_def split: prod.splits option.splits if_splits)

lemma capacity_kept:
  shows "cl_capacity (cp_lru (snd (get_connection_from_pool E t g P))) = cl_capacity (cp_lru P)"
    and "cl_capacity (cp_lru (remove_connection E t m P)) = cl_capacity (cp_lru P)"
    and "cl_capacity (cp_lru (snd (add_connection_to_pool E t m s P))) = cl_capacity (cp_lru P)"
proof -
  show "cl_capacity (cp_lru (snd (get_connection_from_pool E t g P))) = cl_capacity (cp_lru P)"
    by (auto simp: get_connection_from_pool_def pick_up_connection_def pop_capacity split: option.splits prod.splits)
  show "cl_capacity (cp_lru (remove_connection E t m P)) = cl_capacity (cp_lru P)"
    by (simp add: remove_connection_def Let_def pop_capacity remove_from_pool_lru)
  obtain closed replaced lr where lru: "lru_add_new_connection (pe_lru E) t (md_id m) m (cp_lru P) = ((closed, replaced), lr)"
    by (metis prod.collapse)
  define P2 where "P2 = (case replaced of Some old \<Rightarrow> remove_connection_from_pool E old (P\<lparr>cp_lru := lr\<rparr>)
      | None \<Rightarrow> P\<lparr>cp_lru := lr\<rparr>)"
  have "cp_lru P2 = lr" by (simp add: P2_def remove_from_pool_lru split: option.split)
  moreover obtain n P3 where node: "get_connection_node E (md_group m) P2 = (n, P3)" by fastforce
  moreover have "cp_lru P3 = cp_lru P2" using get_connection_node_lru [of E "md_group m" P2] node by simp
  moreover have "cp_lru (snd (add_connection_to_pool E t m s P)) = cp_lru P3"
    using lru node by (simp add: add_connection_to_pool_def Let_def P2_def split: option.splits)
  ultimately show "cl_capacity (cp_lru (snd (add_connection_to_pool E t m s P))) = cl_capacity (cp_lru P)"
    using add_capacity [OF lru] by simp
qed

lemma reach_inv:
  assumes "pool_env_laws E" "0 < capacity" "pool_reach E t capacity P"
  shows "pool_inv E t P \<and> cl_capacity (cp_lru P) = capacity"
  using assms(3)
proof induction
  case reach_new
  then show ?case using pool_inv_new [OF assms(1,2)] by (simp add: pool_new_def lru_new_def)
qed (simp_all add: pool_inv_add pool_inv_find pool_inv_remove capacity_kept)

end
