(* ===== verification/PoolProperties.thy ===== *)
theory PoolProperties
  imports Pool
begin

text \<open>
  The connection pool's properties: its bound, the refinement of an abstract pool, what a removal does
  to the hot queue, alone and while other tasks use the node, and what becomes of a cache entry whose
  connection another thread takes.
\<close>

section \<open>One node, several tasks\<close>

text \<open>
  The operations of a node, step by step: a task is where its call stands. A step is one operation of the
  queue, which takes no lock, or what a call does to the connection list while it has the list's mutex.
  \<open>remove_connection\<close> keeps that mutex to its end, over the loop through the hot queue too: \<open>sh_holder\<close> is the
  task that has it there. \<open>hot_queue_remove_lock\<close> is released in the statement that takes it (\<open>let _ =\<close>), so it
  does not appear.
\<close>

datatype 'a node_task =
    Inserting conn_id 'a | Listing conn_id 'a
  | Taking | Choosing
  | Removing conn_id | Scanning conn_id nat | PuttingBack conn_id nat conn_id 'a | Relisting conn_id nat conn_id 'a
  | Returned "(conn_id \<times> 'a) option"

record ('a, 'q) shared_node =
  sh_node :: "('a, 'q) conn_node"
  sh_holder :: "nat option"
  sh_tasks :: "'a node_task list"

definition shared_start :: "('a, 'q) conn_node \<Rightarrow> 'a node_task list \<Rightarrow> ('a, 'q) shared_node" where
  "shared_start n tasks = \<lparr>sh_node = n, sh_holder = None, sh_tasks = tasks\<rparr>"

definition moved ::
  "nat \<Rightarrow> 'a node_task \<Rightarrow> nat option \<Rightarrow> ('a, 'q) conn_node \<Rightarrow> ('a, 'q) shared_node \<Rightarrow> ('a, 'q) shared_node" where
  "moved i task holder n s = s\<lparr>sh_node := n, sh_holder := holder, sh_tasks := (sh_tasks s)[i := task]\<rparr>"

definition choose_listed :: "('a, 'q, 'c) pool_env \<Rightarrow> ('a, 'q) conn_node \<Rightarrow> (conn_id \<times> 'a) option \<times> ('a, 'q) conn_node" where
  "choose_listed E n =
     (let l = cn_connections n; k = pe_pick E (map fst l)
      in if l = [] then (None, n)
         else case map_of l k of
                Some c \<Rightarrow> (Some (k, c), n\<lparr>cn_connections := AList.delete k l\<rparr>)
              | None \<Rightarrow> (None, n))"

inductive node_step ::
  "('a, 'q, 'c) pool_env \<Rightarrow> ('a, 'q) shared_node \<Rightarrow> ('a, 'q) shared_node \<Rightarrow> bool"
  for E s where
  insert_hot: "i < length (sh_tasks s) \<Longrightarrow> sh_tasks s ! i = Inserting cid c \<Longrightarrow>
    qc_push (pe_queue E) (cid, c) (cn_hot (sh_node s)) = Inr q \<Longrightarrow>
    node_step E s (moved i (Returned None) (sh_holder s) ((sh_node s)\<lparr>cn_hot := q\<rparr>) s)"
| insert_full: "i < length (sh_tasks s) \<Longrightarrow> sh_tasks s ! i = Inserting cid c \<Longrightarrow>
    qc_push (pe_queue E) (cid, c) (cn_hot (sh_node s)) = Inl (k, x) \<Longrightarrow>
    node_step E s (moved i (Listing k x) (sh_holder s) (sh_node s) s)"
| insert_list: "i < length (sh_tasks s) \<Longrightarrow> sh_tasks s ! i = Listing k x \<Longrightarrow> sh_holder s = None \<Longrightarrow>
    node_step E s (moved i (Returned None) None
      ((sh_node s)\<lparr>cn_connections := AList.update k x (cn_connections (sh_node s))\<rparr>) s)"
| take_hot: "i < length (sh_tasks s) \<Longrightarrow> sh_tasks s ! i = Taking \<Longrightarrow>
    qc_pop (pe_queue E) (cn_hot (sh_node s)) = (Some e, q) \<Longrightarrow>
    node_step E s (moved i (Returned (Some e)) (sh_holder s) ((sh_node s)\<lparr>cn_hot := q\<rparr>) s)"
| take_empty: "i < length (sh_tasks s) \<Longrightarrow> sh_tasks s ! i = Taking \<Longrightarrow>
    qc_pop (pe_queue E) (cn_hot (sh_node s)) = (None, q) \<Longrightarrow>
    node_step E s (moved i Choosing (sh_holder s) ((sh_node s)\<lparr>cn_hot := q\<rparr>) s)"
| take_list: "i < length (sh_tasks s) \<Longrightarrow> sh_tasks s ! i = Choosing \<Longrightarrow> sh_holder s = None \<Longrightarrow>
    choose_listed E (sh_node s) = (r, n') \<Longrightarrow> node_step E s (moved i (Returned r) None n' s)"
| remove_listed: "i < length (sh_tasks s) \<Longrightarrow> sh_tasks s ! i = Removing cid \<Longrightarrow> sh_holder s = None \<Longrightarrow>
    map_of (cn_connections (sh_node s)) cid = Some c \<Longrightarrow>
    node_step E s (moved i (Returned (Some (cid, c))) None
      ((sh_node s)\<lparr>cn_connections := AList.delete cid (cn_connections (sh_node s))\<rparr>) s)"
| remove_locks: "i < length (sh_tasks s) \<Longrightarrow> sh_tasks s ! i = Removing cid \<Longrightarrow> sh_holder s = None \<Longrightarrow>
    map_of (cn_connections (sh_node s)) cid = None \<Longrightarrow>
    node_step E s (moved i (Scanning cid (qc_len (pe_queue E) (cn_hot (sh_node s)))) (Some i) (sh_node s) s)"
| scan_end: "i < length (sh_tasks s) \<Longrightarrow> sh_tasks s ! i = Scanning cid 0 \<Longrightarrow>
    node_step E s (moved i (Returned None) None (sh_node s) s)"
| scan_empty: "i < length (sh_tasks s) \<Longrightarrow> sh_tasks s ! i = Scanning cid (Suc k) \<Longrightarrow>
    qc_pop (pe_queue E) (cn_hot (sh_node s)) = (None, q) \<Longrightarrow>
    node_step E s (moved i (Returned None) None ((sh_node s)\<lparr>cn_hot := q\<rparr>) s)"
| scan_found: "i < length (sh_tasks s) \<Longrightarrow> sh_tasks s ! i = Scanning cid (Suc k) \<Longrightarrow>
    qc_pop (pe_queue E) (cn_hot (sh_node s)) = (Some (cid, c), q) \<Longrightarrow>
    node_step E s (moved i (Returned (Some (cid, c))) None ((sh_node s)\<lparr>cn_hot := q\<rparr>) s)"
| scan_other: "i < length (sh_tasks s) \<Longrightarrow> sh_tasks s ! i = Scanning cid (Suc k) \<Longrightarrow>
    qc_pop (pe_queue E) (cn_hot (sh_node s)) = (Some (k', c), q) \<Longrightarrow> cid \<noteq> k' \<Longrightarrow>
    node_step E s (moved i (PuttingBack cid k k' c) (sh_holder s) ((sh_node s)\<lparr>cn_hot := q\<rparr>) s)"
| back_hot: "i < length (sh_tasks s) \<Longrightarrow> sh_tasks s ! i = PuttingBack cid k k' c \<Longrightarrow>
    qc_push (pe_queue E) (k', c) (cn_hot (sh_node s)) = Inr q \<Longrightarrow>
    node_step E s (moved i (Scanning cid k) (sh_holder s) ((sh_node s)\<lparr>cn_hot := q\<rparr>) s)"
| back_full: "i < length (sh_tasks s) \<Longrightarrow> sh_tasks s ! i = PuttingBack cid k k' c \<Longrightarrow>
    qc_push (pe_queue E) (k', c) (cn_hot (sh_node s)) = Inl (a, x) \<Longrightarrow>
    node_step E s (moved i (Relisting cid k a x) (sh_holder s) (sh_node s) s)"
| back_list: "i < length (sh_tasks s) \<Longrightarrow> sh_tasks s ! i = Relisting cid k a x \<Longrightarrow> sh_holder s = None \<Longrightarrow>
    node_step E s (moved i (Scanning cid k) None
      ((sh_node s)\<lparr>cn_connections := AList.update a x (cn_connections (sh_node s))\<rparr>) s)"

inductive_cases node_stepE: "node_step E s s'"

abbreviation node_run :: "('a, 'q, 'c) pool_env \<Rightarrow> ('a, 'q) shared_node \<Rightarrow> ('a, 'q) shared_node \<Rightarrow> bool" where
  "node_run E \<equiv> (node_step E)\<^sup>*\<^sup>*"

lemma moved_simps [simp]:
  "sh_node (moved i task holder n s) = n" "sh_holder (moved i task holder n s) = holder"
  "sh_tasks (moved i task holder n s) = (sh_tasks s)[i := task]"
  by (simp_all add: moved_def)

text \<open>Only the task that has the mutex is in the loop of a removal, so removals do not interleave.\<close>

fun in_loop :: "'a node_task \<Rightarrow> bool" where
  "in_loop (Scanning cid k) \<longleftrightarrow> True"
| "in_loop (PuttingBack cid k k' c) \<longleftrightarrow> True"
| "in_loop (Relisting cid k k' c) \<longleftrightarrow> True"
| "in_loop task \<longleftrightarrow> False"

fun wants_list :: "'a node_task \<Rightarrow> bool" where
  "wants_list (Listing k x) \<longleftrightarrow> True"
| "wants_list Choosing \<longleftrightarrow> True"
| "wants_list (Removing cid) \<longleftrightarrow> True"
| "wants_list (Relisting cid k k' c) \<longleftrightarrow> True"
| "wants_list task \<longleftrightarrow> False"

definition one_removal :: "('a, 'q) shared_node \<Rightarrow> bool" where
  "one_removal s \<longleftrightarrow> (\<forall>i < length (sh_tasks s). in_loop (sh_tasks s ! i) \<longrightarrow> sh_holder s = Some i)"

lemma one_removal_moved:
  assumes "one_removal s" "i < length (sh_tasks s)"
    and "in_loop task \<Longrightarrow> in_loop (sh_tasks s ! i) \<and> holder = sh_holder s \<or> holder = Some i"
    and "in_loop (sh_tasks s ! i) \<or> holder = sh_holder s \<or> sh_holder s = None"
  shows "one_removal (moved i task holder n s)"
  using assms unfolding one_removal_def by (auto simp: nth_list_update) (metis option.inject option.distinct(1))+

lemma one_removal_step:
  assumes "node_step E s s'" "one_removal s"
  shows "one_removal s'"
  using assms(1) by cases (auto intro!: one_removal_moved [OF assms(2)])

lemma one_removal_run: "node_run E s s' \<Longrightarrow> one_removal s \<Longrightarrow> one_removal s'"
  by (induction rule: rtranclp_induct) (auto intro: one_removal_step)

text \<open>A removal that waits for the list waits for itself, and nobody gets the list any more.\<close>

definition self_locked :: "nat \<Rightarrow> ('a, 'q) shared_node \<Rightarrow> bool" where
  "self_locked i s \<longleftrightarrow> i < length (sh_tasks s) \<and> sh_holder s = Some i \<and>
     (\<exists>cid k a x. sh_tasks s ! i = Relisting cid k a x)"

lemma self_locked_moves:
  assumes "node_step E s s'" "one_removal s" "self_locked i s"
  shows "\<exists>j task n. j \<noteq> i \<and> s' = moved j task (Some i) n s \<and> \<not> wants_list (sh_tasks s ! j) \<and>
    cn_connections n = cn_connections (sh_node s)"
proof -
  obtain cid k a x where i: "sh_tasks s ! i = Relisting cid k a x" "sh_holder s = Some i" "i < length (sh_tasks s)"
    using assms(3) by (auto simp: self_locked_def)
  have other: "\<not> in_loop (sh_tasks s ! j)" if "j < length (sh_tasks s)" "j \<noteq> i" for j
    using assms(2) i(2) that by (auto simp: one_removal_def)
  have alone: "sh_tasks s ! j \<noteq> Scanning cid' k'" "sh_tasks s ! j \<noteq> PuttingBack cid' k' c' x'"
    if "j < length (sh_tasks s)" for j cid' k' c' x'
    using other [OF that] i(1) by (cases "j = i"; auto)+
  have free: "\<exists>j' task' n'. j' \<noteq> i \<and> moved j task (sh_holder s) n s = moved j' task' (Some i) n' s \<and>
      \<not> wants_list (sh_tasks s ! j') \<and> cn_connections n' = cn_connections (sh_node s)"
    if "\<not> wants_list (sh_tasks s ! j)" "cn_connections n = cn_connections (sh_node s)" for j task n
    using that i by (intro exI [of _ j] exI [of _ task] exI [of _ n]) auto
  from assms(1) show ?thesis
  proof cases
    case (insert_hot j)
    show ?thesis unfolding insert_hot(1) by (rule free) (use insert_hot in simp_all)
  next
    case (insert_full j)
    show ?thesis unfolding insert_full(1) by (rule free) (use insert_full in simp_all)
  next
    case (take_hot j)
    show ?thesis unfolding take_hot(1) by (rule free) (use take_hot in simp_all)
  next
    case (take_empty j)
    show ?thesis unfolding take_empty(1) by (rule free) (use take_empty in simp_all)
  qed (use i(2) alone in simp_all)
qed

lemma self_locked_step:
  assumes "node_step E s s'" "one_removal s" "self_locked i s"
  shows "self_locked i s' \<and> cn_connections (sh_node s') = cn_connections (sh_node s) \<and>
    (\<forall>m. wants_list (sh_tasks s ! m) \<longrightarrow> sh_tasks s' ! m = sh_tasks s ! m)"
proof -
  obtain j task n where s': "j \<noteq> i" "s' = moved j task (Some i) n s" "\<not> wants_list (sh_tasks s ! j)"
      "cn_connections n = cn_connections (sh_node s)"
    using self_locked_moves [OF assms] by blast
  have "sh_tasks s' ! m = sh_tasks s ! m" if "wants_list (sh_tasks s ! m)" for m
    using that s' by (cases "m = j") auto
  then show ?thesis using s' assms(3) by (auto simp: self_locked_def)
qed

lemma self_locked_run:
  assumes "node_run E s s'" "one_removal s" "self_locked i s"
  shows "self_locked i s' \<and> cn_connections (sh_node s') = cn_connections (sh_node s) \<and>
     (\<forall>j. wants_list (sh_tasks s ! j) \<longrightarrow> sh_tasks s' ! j = sh_tasks s ! j)"
  using assms(1)
proof (induction rule: rtranclp_induct)
  case base
  then show ?case using assms(3) by simp
next
  case (step t u)
  have "one_removal t" by (rule one_removal_run [OF step(1) assms(2)])
  with step self_locked_step [OF step(2)] show ?case by metis
qed

text \<open>
  Without other tasks there is always room for what was popped, and the steps of a removal end with the
  result and the node of \<open>node_remove_connection\<close>.
\<close>

lemma scan_alone:
  assumes "queue_laws (pe_queue E)" "remove_hot E cid k n = (r, n')"
    and "length (qc_items (pe_queue E) (cn_hot n)) \<le> qc_capacity (pe_queue E) (cn_hot n)"
  shows "node_run E \<lparr>sh_node = n, sh_holder = Some 0, sh_tasks = [Scanning cid k]\<rparr>
    \<lparr>sh_node = n', sh_holder = None, sh_tasks = [Returned (map_option (Pair cid) r)]\<rparr>"
  using assms(2,3)
proof (induction k arbitrary: n)
  case 0
  then show ?case
    using scan_end [of 0 "\<lparr>sh_node = n, sh_holder = Some 0, sh_tasks = [Scanning cid 0]\<rparr>" cid E]
    by (auto simp: moved_def)
next
  case (Suc k)
  let ?s = "\<lparr>sh_node = n, sh_holder = Some 0, sh_tasks = [Scanning cid (Suc k)]\<rparr>"
  show ?case
  proof (cases "qc_items (pe_queue E) (cn_hot n)")
    case Nil
    then have pop: "qc_pop (pe_queue E) (cn_hot n) = (None, cn_hot n)" by (rule queue_lawsD(4) [OF assms(1)])
    then show ?thesis using scan_empty [of 0 ?s cid k E "cn_hot n"] Suc.prems(1) by (auto simp: moved_def)
  next
    case (Cons e es)
    obtain k' c where e: "e = (k', c)" by (cases e)
    obtain q n2 where rot: "qc_pop (pe_queue E) (cn_hot n) = (Some (k', c), q)" "qc_items (pe_queue E) q = es"
        "node_add_new_connection E k' c (n\<lparr>cn_hot := q\<rparr>) = n2" "qc_items (pe_queue E) (cn_hot n2) = es @ [(k', c)]"
        "qc_capacity (pe_queue E) (cn_hot n2) = qc_capacity (pe_queue E) (cn_hot n)"
        "qc_capacity (pe_queue E) q = qc_capacity (pe_queue E) (cn_hot n)"
      using Cons e Suc.prems(2) by (elim hot_rotates [OF assms(1), rotated]) auto
    show ?thesis
    proof (cases "cid = k'")
      case True
      then show ?thesis using scan_found [of 0 ?s cid k E c q] rot(1) Suc.prems(1) by (auto simp: moved_def)
    next
      case False
      let ?held = "\<lparr>sh_node = n\<lparr>cn_hot := q\<rparr>, sh_holder = Some 0, sh_tasks = [PuttingBack cid k k' c]\<rparr>"
      have "length (qc_items (pe_queue E) q) < qc_capacity (pe_queue E) q" using rot(2,6) Cons Suc.prems(2) by simp
      then obtain q2 where push: "qc_push (pe_queue E) (k', c) q = Inr q2" using queue_pushE [OF assms(1)] by metis
      then have n2: "n2 = n\<lparr>cn_hot := q2\<rparr>" using rot(3) by (simp add: node_add_new_connection_def)
      have 1: "node_step E ?s ?held"
        using scan_other [of 0 ?s cid k E k' c q] rot(1) False by (simp add: moved_def)
      have 2: "node_step E ?held \<lparr>sh_node = n2, sh_holder = Some 0, sh_tasks = [Scanning cid k]\<rparr>"
        using back_hot [of 0 ?held cid k k' c E q2] push n2 by (simp add: moved_def)
      have "remove_hot E cid k n2 = (r, n')" using Suc.prems(1) rot(1,3) False by simp
      with Suc.IH [of n2] rot(4,5) Cons Suc.prems(2) 1 2 show ?thesis
        by (simp add: converse_rtranclp_into_rtranclp)
    qed
  qed
qed

lemma removal_alone:
  assumes "node_ok E n" "node_remove_connection E cid n = (r, n')"
  shows "node_run E (shared_start n [Removing cid]) (shared_start n' [Returned (map_option (Pair cid) r)])"
proof (cases "map_of (cn_connections n) cid")
  case (Some c)
  with assms(2) have "r = Some c" "n' = n\<lparr>cn_connections := AList.delete cid (cn_connections n)\<rparr>"
    by (auto simp: node_remove_connection_def)
  with Some remove_listed [of 0 "shared_start n [Removing cid]" cid c E] show ?thesis
    by (auto simp: shared_start_def moved_def)
next
  case None
  have "node_step E (shared_start n [Removing cid])
      \<lparr>sh_node = n, sh_holder = Some 0, sh_tasks = [Scanning cid (qc_len (pe_queue E) (cn_hot n))]\<rparr>"
    using remove_locks [of 0 "shared_start n [Removing cid]" cid E] None by (simp add: shared_start_def moved_def)
  moreover have "remove_hot E cid (qc_len (pe_queue E) (cn_hot n)) n = (r, n')"
    using assms(2) None by (simp add: node_remove_connection_def)
  ultimately show ?thesis
    using scan_alone [OF node_okD(1) [OF assms(1)]] node_okD(7,8) [OF assms(1)]
    by (simp add: shared_start_def converse_rtranclp_into_rtranclp)
qed

section \<open>Properties\<close>

text \<open>
  C8 (invariant). The bound of the pool: with one worker thread, after any sequence of additions,
  pick-ups and closings, the pool holds at most as many connections as its capacity says, no
  identifier waits in two groups, the cache lists exactly the connections that wait, and no hot queue
  holds more than 16 of them.
\<close>

theorem pool_bounded:
  assumes "pool_env_laws E" "0 < capacity" "pool_reach E t capacity P"
  shows "finite (pool_entries E P) \<and> card (pool_entries E P) \<le> capacity \<and> inj_on snd (pool_entries E P) \<and>
     entry_of ` set (cached_entries E t P) = pool_entries E P \<and>
     (\<forall>g n. cp_pool P g = Some n \<longrightarrow> length (qc_items (pe_queue E) (cn_hot n)) \<le> 16)"
proof -
  have inv: "pool_inv E t P" "cl_capacity (cp_lru P) = capacity"
    using reach_inv [OF assms] by simp_all
  have "g = g'" if "(g, i) \<in> pool_entries E P" "(g', i) \<in> pool_entries E P" for g g' i
    using pool_inv_bound(3) [OF inv(1) that] .
  then have "inj_on snd (pool_entries E P)" by (force simp: inj_on_def)
  moreover have "nodes_ok E P" "entry_of ` set (cached_entries E t P) = pool_entries E P"
    using inv(1) by (simp_all add: pool_inv_def)
  moreover from this have "length (qc_items (pe_queue E) (cn_hot n)) \<le> 16" if "cp_pool P g = Some n" for g n
    using node_okD(8) [of E n] that by (simp add: nodes_ok_def hot_queue_size_def)
  ultimately show ?thesis using pool_inv_bound(1,2) [OF inv(1)] inv(2) by simp
qed

definition list_env :: "('a, nat \<times> (conn_id \<times> 'a) list, (conn_id \<times> conn_meta lru_node) list) pool_env" where
  "list_env = \<lparr>pe_queue = list_queue, pe_lru = list_lru, pe_pick = hd\<rparr>"

lemma list_env_laws: "pool_env_laws list_env"
  by (simp add: pool_env_laws_def list_env_def list_queue_laws list_lru_laws)

lemmas pool_eval =
  add_connection_to_pool_def get_connection_from_pool_def get_connection_node_def remove_connection_from_pool_def
  lru_add_new_connection_def lru_node_new_def insert_connection_def pop_connection_def thread_cache_def
  set_thread_cache_def notify_removal_def lru_new_def pool_new_def pick_up_connection_def
  node_new_def node_add_new_connection_def node_remove_connection_def get_available_connection_def hot_queue_size_def
  conn_meta_new_def list_env_def list_lru_def list_queue_def without_key_def
  pool_entries_def pool_items_def node_items_def cached_entries_def entries_of_def entry_of_def Let_def

lemma pool_bounded_witness:
  "card (pool_entries list_env
     (snd (add_connection_to_pool list_env 0 (conn_meta_new 1 8) ''b''
       (snd (add_connection_to_pool list_env 0 (conn_meta_new 1 7) ''a'' (pool_new 1)))))) \<le> 1"
proof -
  let ?P1 = "snd (add_connection_to_pool list_env 0 (conn_meta_new 1 7) ''a'' (pool_new 1))"
  let ?P2 = "snd (add_connection_to_pool list_env 0 (conn_meta_new 1 8) ''b'' ?P1)"
  have r1: "pool_reach list_env 0 1 ?P1"
    by (rule reach_add [OF reach_new]) (simp add: pool_eval)
  have "(g, i) \<in> pool_entries list_env ?P1 \<longleftrightarrow> g = 1 \<and> i = 7" for g i
    by (simp add: pool_eval)
  then have "8 \<notin> snd ` pool_entries list_env ?P1" by force
  then have "pool_reach list_env 0 1 ?P2"
    by (intro reach_add [OF r1]) (simp add: conn_meta_new_def)
  then show ?thesis using pool_bounded [OF list_env_laws, of 1 0 ?P2] by simp
qed

text \<open>The abstract pool: a multiset of waiting connections per group.\<close>

definition without_id :: "conn_id \<Rightarrow> (conn_id \<times> 'a) multiset \<Rightarrow> (conn_id \<times> 'a) multiset" where
  "without_id i M = filter_mset (\<lambda>e. fst e \<noteq> i) M"

definition abs_close ::
  "conn_meta \<Rightarrow> (group_id \<Rightarrow> (conn_id \<times> 'a) multiset) \<Rightarrow> group_id \<Rightarrow> (conn_id \<times> 'a) multiset" where
  "abs_close m A = A(md_group m := without_id (md_id m) (A (md_group m)))"

definition abs_add ::
  "conn_meta \<Rightarrow> 'a \<Rightarrow> (group_id \<Rightarrow> (conn_id \<times> 'a) multiset) \<Rightarrow> group_id \<Rightarrow> (conn_id \<times> 'a) multiset" where
  "abs_add m c A = A(md_group m := add_mset (md_id m, c) (A (md_group m)))"

lemma without_id_absent: "i \<notin> fst ` set_mset M \<Longrightarrow> without_id i M = M"
  unfolding without_id_def by (rule filter_mset_eq_conv [THEN iffD2]) auto

lemma node_remove_items:
  assumes ok: "node_ok E n"
  shows "\<exists>r n'. node_remove_connection E cid n = (r, n') \<and> node_ok E n' \<and>
     mset (node_items E n') = without_id cid (mset (node_items E n))"
proof (cases "cid \<in> fst ` set (node_items E n)")
  case True
  then obtain c where "(cid, c) \<in> set (node_items E n)" by auto
  from remove_node_present [OF ok this] obtain n' where rem: "node_remove_connection E cid n = (Some c, n')" "node_ok E n'"
      "mset (node_items E n) = add_mset (cid, c) (mset (node_items E n'))" by blast
  have "cid \<notin> fst ` set (node_items E n')" using node_ids_distinct [OF ok rem(3)] by simp
  then have "without_id cid (mset (node_items E n)) = mset (node_items E n')"
    unfolding rem(3) using without_id_absent [of cid "mset (node_items E n')"] by (simp add: without_id_def)
  with rem show ?thesis by auto
next
  case False
  with remove_node_absent [OF ok False] without_id_absent [of cid "mset (node_items E n)"] show ?thesis by auto
qed

lemma abs_remove_from_pool:
  assumes "nodes_ok E P"
  shows "pool_items E (remove_connection_from_pool E m P) = abs_close m (pool_items E P)"
proof (cases "cp_pool P (md_group m)")
  case None
  then have "pool_items E P (md_group m) = {#}" by (simp add: pool_items_def)
  with None show ?thesis
    by (simp add: remove_connection_from_pool_def abs_close_def without_id_def fun_upd_idem)
next
  case (Some n)
  then have "node_ok E n" using assms by (simp add: nodes_ok_def)
  from node_remove_items [OF this, of "md_id m"] obtain r n' where
    "node_remove_connection E (md_id m) n = (r, n')"
    "mset (node_items E n') = without_id (md_id m) (mset (node_items E n))" by blast
  with Some show ?thesis
    by (simp add: remove_connection_from_pool_def abs_close_def) (simp add: pool_items_def)
qed

lemma abs_find:
  assumes "nodes_ok E P"
  shows "case get_connection_from_pool E t g P of
       (None, P') \<Rightarrow> pool_items E P g = {#} \<and> pool_items E P' = pool_items E P
     | (Some c, P') \<Rightarrow> \<exists>i cn. cnt_connection cn = c \<and> (i, cn) \<in># pool_items E P g \<and>
         pool_items E P' = (pool_items E P)(g := pool_items E P g - {#(i, cn)#})"
proof (cases "cp_pool P g")
  case None
  then show ?thesis by (simp add: get_connection_from_pool_def pool_items_def)
next
  case (Some n)
  then have "node_ok E n" using assms by (simp add: nodes_ok_def)
  from take_node [OF this] obtain r n' where take: "get_available_connection E n = (r, n')"
      "case r of None \<Rightarrow> node_items E n = [] \<and> node_items E n' = []
        | Some e \<Rightarrow> mset (node_items E n) = add_mset e (mset (node_items E n'))" by blast
  have here: "pool_items E P g = mset (node_items E n)" using Some by (simp add: pool_items_def)
  show ?thesis
  proof (cases r)
    case None
    with take Some here show ?thesis by (simp add: get_connection_from_pool_def fun_upd_idem)
  next
    case (Some e)
    obtain i cn where e: "e = (i, cn)" by (cases e)
    let ?P = "P\<lparr>cp_pool := (cp_pool P)(g \<mapsto> n'), cp_lru := snd (pop_connection (pe_lru E) t i (cp_lru P))\<rparr>"
    have eq: "pool_items E P g = add_mset (i, cn) (mset (node_items E n'))" using take(2) Some e here by simp
    have "get_connection_from_pool E t g P = (Some (cnt_connection cn), ?P\<lparr>cp_signals := cp_signals P @ [(cnt_sender cn, True)]\<rparr>)"
      using take(1) Some e \<open>cp_pool P g = Some n\<close> by (simp add: get_connection_from_pool_def pick_up_connection_def)
    with eq show ?thesis by (auto intro!: exI [of _ i] exI [of _ cn])
  qed
qed

lemma abs_add_connection:
  assumes "nodes_ok E P" "lru_add_new_connection (pe_lru E) t (md_id m) m (cp_lru P) = ((closed, replaced), lr)"
    and "md_id m \<notin> fst ` set_mset (pool_items E P (md_group m))"
  shows "\<exists>h. add_connection_to_pool E t m s P = ((closed, h), snd (add_connection_to_pool E t m s P)) \<and>
     pool_items E (snd (add_connection_to_pool E t m s P)) =
       abs_add m \<lparr>cnt_sender = h, cnt_connection = s\<rparr>
         (case replaced of None \<Rightarrow> pool_items E P | Some old \<Rightarrow> abs_close old (pool_items E P))"
proof -
  define P2 where "P2 = (case replaced of Some old \<Rightarrow> remove_connection_from_pool E old (P\<lparr>cp_lru := lr\<rparr>)
      | None \<Rightarrow> P\<lparr>cp_lru := lr\<rparr>)"
  have nodes: "nodes_ok E P2"
    using remove_from_pool_items(1) [of E "P\<lparr>cp_lru := lr\<rparr>"] assms(1) by (simp add: P2_def split: option.split)
  have items: "pool_items E P2 = (case replaced of None \<Rightarrow> pool_items E P | Some old \<Rightarrow> abs_close old (pool_items E P))"
    using abs_remove_from_pool [of E "P\<lparr>cp_lru := lr\<rparr>"] assms(1) by (simp add: P2_def split: option.split)
  obtain n P3 where node: "get_connection_node E (md_group m) P2 = (n, P3)" by fastforce
  note got = get_connection_node_items [OF nodes node]
  have "set_mset (pool_items E P2 (md_group m)) \<subseteq> set_mset (pool_items E P (md_group m))"
    by (auto simp: items abs_close_def without_id_def split: option.splits)
  then have "md_id m \<notin> fst ` set (node_items E n)"
    using assms(3) arg_cong [OF got(3), of set_mset] by auto
  let ?cn = "\<lparr>cnt_sender = cp_channels P3, cnt_connection = s\<rparr>"
  let ?Q = "P3\<lparr>cp_pool := (cp_pool P3)(md_group m \<mapsto> node_add_new_connection E (md_id m) ?cn n)\<rparr>"
  from add_node [OF got(1) \<open>md_id m \<notin> fst ` set (node_items E n)\<close>, of ?cn] got(3,4)
  have added: "pool_items E ?Q = abs_add m ?cn (pool_items E P2)"
    by (simp add: abs_add_def)
  have run: "add_connection_to_pool E t m s P = ((closed, cp_channels P3), ?Q\<lparr>cp_channels := Suc (cp_channels P3)\<rparr>)"
    using assms(2) node by (simp add: add_connection_to_pool_def P2_def Let_def split: option.splits)
  have "pool_items E (?Q\<lparr>cp_channels := Suc (cp_channels P3)\<rparr>) = pool_items E ?Q"
    by (rule pool_items_frame(3))
  with added run show ?thesis unfolding items by (metis snd_conv)
qed

text \<open>
  C7 (refinement). The pool is a multiset of waiting connections per group. Picking up takes some
  connection of the group and fails only when the group has none; closing removes the connection with
  the given identifier and nothing else; adding first removes the connection the cache evicts, if any,
  then adds the new one under a fresh pick-up handle.
\<close>

theorem pool_refines:
  assumes "nodes_ok E P"
  shows "(case get_connection_from_pool E t g P of
       (None, P') \<Rightarrow> pool_items E P g = {#} \<and> pool_items E P' = pool_items E P
     | (Some c, P') \<Rightarrow> \<exists>i cn. cnt_connection cn = c \<and> (i, cn) \<in># pool_items E P g \<and>
         pool_items E P' = (pool_items E P)(g := pool_items E P g - {#(i, cn)#})) \<and>
     pool_items E (remove_connection E t m P) = abs_close m (pool_items E P) \<and>
     (md_id m \<notin> fst ` set_mset (pool_items E P (md_group m)) \<longrightarrow>
       (\<exists>closed replaced lr h. lru_add_new_connection (pe_lru E) t (md_id m) m (cp_lru P) = ((closed, replaced), lr) \<and>
          fst (add_connection_to_pool E t m s P) = (closed, h) \<and>
          pool_items E (snd (add_connection_to_pool E t m s P)) =
            abs_add m \<lparr>cnt_sender = h, cnt_connection = s\<rparr>
              (case replaced of None \<Rightarrow> pool_items E P | Some old \<Rightarrow> abs_close old (pool_items E P))))"
proof (intro conjI impI)
  show "pool_items E (remove_connection E t m P) = abs_close m (pool_items E P)"
    using abs_remove_from_pool [OF assms] by (simp add: remove_connection_def Let_def)
next
  assume fresh: "md_id m \<notin> fst ` set_mset (pool_items E P (md_group m))"
  obtain closed replaced lr where
    lru: "lru_add_new_connection (pe_lru E) t (md_id m) m (cp_lru P) = ((closed, replaced), lr)"
    by (metis prod.collapse)
  from abs_add_connection [OF assms lru fresh, of s] lru show "\<exists>closed replaced lr h.
      lru_add_new_connection (pe_lru E) t (md_id m) m (cp_lru P) = ((closed, replaced), lr) \<and>
      fst (add_connection_to_pool E t m s P) = (closed, h) \<and>
      pool_items E (snd (add_connection_to_pool E t m s P)) =
        abs_add m \<lparr>cnt_sender = h, cnt_connection = s\<rparr>
          (case replaced of None \<Rightarrow> pool_items E P | Some old \<Rightarrow> abs_close old (pool_items E P))"
    by (metis fst_conv)
qed (rule abs_find [OF assms])


lemma pool_refines_witness:
  "fst (get_connection_from_pool list_env 0 1
      (snd (add_connection_to_pool list_env 0 (conn_meta_new 1 7) ''a'' (pool_new 4)))) = Some ''a''"
proof -
  let ?E = "list_env :: (string conn_notifier, nat \<times> (conn_id \<times> string conn_notifier) list, (conn_id \<times> conn_meta lru_node) list) pool_env"
  let ?P0 = "pool_new 4 :: (string, nat \<times> (conn_id \<times> string conn_notifier) list, (conn_id \<times> conn_meta lru_node) list) conn_pool"
  let ?P1 = "snd (add_connection_to_pool ?E 0 (conn_meta_new 1 7) ''a'' ?P0)"
  have ok0: "nodes_ok ?E ?P0" by (simp add: nodes_ok_def list_env_laws pool_new_def)
  have none: "pool_items ?E ?P0 = (\<lambda>g. {#})" by (simp add: pool_items_def pool_new_def fun_eq_iff)
  have lru: "fst (lru_add_new_connection (pe_lru ?E) 0 (md_id (conn_meta_new 1 7)) (conn_meta_new 1 7) (cp_lru ?P0)) = (0, None)"
    by (simp add: pool_eval)
  have fresh: "md_id (conn_meta_new 1 7) \<notin> fst ` set_mset (pool_items ?E ?P0 (md_group (conn_meta_new 1 7)))"
    by (simp add: none)
  note spec = pool_refines [OF ok0, where t = 0 and m = "conn_meta_new 1 7" and s = "''a''", THEN conjunct2, THEN conjunct2]
  obtain closed replaced lr h where
    add: "lru_add_new_connection (pe_lru ?E) 0 (md_id (conn_meta_new 1 7)) (conn_meta_new 1 7) (cp_lru ?P0) = ((closed, replaced), lr)"
      "pool_items ?E ?P1 = abs_add (conn_meta_new 1 7) \<lparr>cnt_sender = h, cnt_connection = ''a''\<rparr>
         (case replaced of None \<Rightarrow> pool_items ?E ?P0 | Some old \<Rightarrow> abs_close old (pool_items ?E ?P0))"
    using mp [OF spec fresh] by blast
  then have items: "pool_items ?E ?P1 = abs_add (conn_meta_new 1 7) \<lparr>cnt_sender = h, cnt_connection = ''a''\<rparr> (\<lambda>g. {#})"
    using lru none by simp
  have inv: "pool_inv ?E 0 ?P1"
    by (rule pool_inv_add [OF pool_inv_new [OF list_env_laws]]) (simp_all add: pool_entries_def none)
  then have "nodes_ok ?E ?P1" by (simp add: pool_inv_def)
  from pool_refines [OF this, where t = 0 and g = 1, THEN conjunct1]
  have "case get_connection_from_pool ?E 0 1 ?P1 of
       (None, P') \<Rightarrow> pool_items ?E ?P1 1 = {#}
     | (Some c, P') \<Rightarrow> \<exists>i cn. cnt_connection cn = c \<and> (i, cn) \<in># pool_items ?E ?P1 1"
    by (auto split: prod.splits option.splits)
  moreover have "pool_items ?E ?P1 1 = {#(7, \<lparr>cnt_sender = h, cnt_connection = ''a''\<rparr>)#}"
    unfolding items by (simp add: abs_add_def conn_meta_new_def)
  ultimately show ?thesis by (auto split: prod.splits option.splits)
qed

text \<open>
  Removing a connection from a node that nobody else uses: a connection that is not
  there changes nothing, not even the order of the hot queue, since every other connection goes
  back to its end; one that is in the hot queue is handed out, and the rest is the same queue, rotated.
\<close>

theorem removal_rotates_hot_queue:
  assumes "node_ok E n" "cid \<notin> fst ` set (cn_connections n)"
  shows "(cid \<notin> fst ` set (qc_items (pe_queue E) (cn_hot n)) \<longrightarrow>
      (\<exists>n'. node_remove_connection E cid n = (None, n') \<and> cn_connections n' = cn_connections n \<and>
         qc_items (pe_queue E) (cn_hot n') = qc_items (pe_queue E) (cn_hot n))) \<and>
    (\<forall>us c vs. qc_items (pe_queue E) (cn_hot n) = us @ (cid, c) # vs \<longrightarrow>
      (\<exists>n'. node_remove_connection E cid n = (Some c, n') \<and> cn_connections n' = cn_connections n \<and>
         qc_items (pe_queue E) (cn_hot n') = vs @ us))"
proof (intro conjI impI allI)
  note laws = node_okD(1) [OF assms(1)]
  have skip: "map_of (cn_connections n) cid = None" using assms(2) by (simp add: map_of_eq_None_iff)
  then have loop: "node_remove_connection E cid n = remove_hot E cid (length (qc_items (pe_queue E) (cn_hot n))) n"
    by (simp add: node_remove_connection_def queue_lawsD(3) [OF laws])
  {
    assume "cid \<notin> fst ` set (qc_items (pe_queue E) (cn_hot n))"
    then show "\<exists>n'. node_remove_connection E cid n = (None, n') \<and> cn_connections n' = cn_connections n \<and>
         qc_items (pe_queue E) (cn_hot n') = qc_items (pe_queue E) (cn_hot n)"
      using remove_hot_absent [OF laws, of n "qc_items (pe_queue E) (cn_hot n)" "[]" cid] node_okD(7,8) [OF assms(1)]
      by (auto simp: loop)
  next
    fix us c vs
    assume split: "qc_items (pe_queue E) (cn_hot n) = us @ (cid, c) # vs"
    then have "cid \<notin> fst ` set us" using node_okD(4) [OF assms(1)] by auto
    then show "\<exists>n'. node_remove_connection E cid n = (Some c, n') \<and> cn_connections n' = cn_connections n \<and>
         qc_items (pe_queue E) (cn_hot n') = vs @ us"
      using remove_hot_present [OF laws split, of "length (us @ (cid, c) # vs)"] node_okD(7,8) [OF assms(1)] split
      by (auto simp: loop)
  }
qed

lemma removal_rotates_hot_queue_witness:
  "\<exists>n'. node_remove_connection list_env 2
      \<lparr>cn_connections = [], cn_hot = (16, [(1, ''a''), (2, ''b''), (3, ''c'')])\<rparr> = (Some ''b'', n') \<and>
     snd (cn_hot n') = [(3, ''c''), (1, ''a'')]"
proof -
  let ?n = "\<lparr>cn_connections = [], cn_hot = (16, [(1 :: conn_id, ''a''), (2, ''b''), (3, ''c'')])\<rparr>"
  have ok: "node_ok list_env ?n"
    by (simp add: node_ok_def list_env_laws node_items_def) (simp add: list_env_def list_queue_def hot_queue_size_def)
  have items: "qc_items (pe_queue list_env) (cn_hot ?n) = [(1, ''a'')] @ (2, ''b'') # [(3, ''c'')]"
    by (simp add: list_env_def list_queue_def)
  have "2 \<notin> fst ` set (cn_connections ?n)" by simp
  from removal_rotates_hot_queue [OF ok this] items show ?thesis
    by (fastforce simp: list_env_def list_queue_def)
qed

text \<open>
  C36 (liveness, code bug). A removal can lock itself out. It searches a full hot queue and has popped a
  connection that is not the one it looks for; before it puts it back, another task returns a
  connection and takes the free place. Putting back then means inserting into the connection list, whose
  mutex the removal itself holds: it waits for ever, the popped connection is in neither store, and
  every task that waits for the list waits for ever too.
\<close>

theorem removal_deadlocks:
  assumes "queue_laws (pe_queue E)" "qc_items (pe_queue E) (cn_hot n) = (b, x) # es" "cid \<noteq> b"
    and "length (qc_items (pe_queue E) (cn_hot n)) = qc_capacity (pe_queue E) (cn_hot n)"
    and "map_of (cn_connections n) cid = None" "\<forall>task\<in>set tasks. \<not> in_loop task"
    and "i < length tasks" "tasks ! i = Removing cid" "j < length tasks" "tasks ! j = Inserting a y"
  shows "\<exists>s. node_run E (shared_start n tasks) s \<and> qc_items (pe_queue E) (cn_hot (sh_node s)) = es @ [(a, y)] \<and>
    (\<forall>s'. node_run E s s' \<longrightarrow>
       sh_holder s' = Some i \<and> sh_tasks s' ! i = Relisting cid (length es) b x \<and>
       cn_connections (sh_node s') = cn_connections n \<and>
       (\<forall>m. wants_list (sh_tasks s ! m) \<longrightarrow> sh_tasks s' ! m = sh_tasks s ! m))"
proof -
  let ?s0 = "shared_start n tasks"
  have ij: "i \<noteq> j" using assms(8,10) by auto
  obtain q where pop: "qc_pop (pe_queue E) (cn_hot n) = (Some (b, x), q)" "qc_items (pe_queue E) q = es"
      "qc_capacity (pe_queue E) q = qc_capacity (pe_queue E) (cn_hot n)"
    by (rule queue_popE [OF assms(1,2)])
  have "length (qc_items (pe_queue E) q) < qc_capacity (pe_queue E) q" using pop assms(2,4) by simp
  then obtain q' where push: "qc_push (pe_queue E) (a, y) q = Inr q'" "qc_items (pe_queue E) q' = es @ [(a, y)]"
      "qc_capacity (pe_queue E) q' = qc_capacity (pe_queue E) q"
    using queue_pushE [OF assms(1)] pop(2) by metis
  have full: "qc_push (pe_queue E) (b, x) q' = Inl (b, x)"
    using queue_lawsD(5) [OF assms(1)] push(2,3) pop assms(2,4) by simp
  let ?s1 = "moved i (Scanning cid (Suc (length es))) (Some i) n ?s0"
  let ?s2 = "moved i (PuttingBack cid (length es) b x) (Some i) (n\<lparr>cn_hot := q\<rparr>) ?s1"
  let ?s3 = "moved j (Returned None) (Some i) (n\<lparr>cn_hot := q'\<rparr>) ?s2"
  let ?locked = "moved i (Relisting cid (length es) b x) (Some i) (n\<lparr>cn_hot := q'\<rparr>) ?s3"
  have start: "sh_node ?s0 = n" "sh_holder ?s0 = None" "sh_tasks ?s0 = tasks" by (simp_all add: shared_start_def)
  have "qc_len (pe_queue E) (cn_hot n) = Suc (length es)" using queue_lawsD(3) [OF assms(1)] assms(2) by simp
  then have 1: "node_step E ?s0 ?s1" using remove_locks [of i ?s0 cid E] start assms(5,7,8) by simp
  have 2: "node_step E ?s1 ?s2"
    using scan_other [of i ?s1 cid "length es" E b x q] pop(1) assms(3,7) start by simp
  have 3: "node_step E ?s2 ?s3"
    using insert_hot [of j ?s2 a y E q'] push(1) assms(9,10) ij start by simp
  have 4: "node_step E ?s3 ?locked"
    using back_full [of i ?s3 cid "length es" b x E b x] full assms(7) ij start by simp
  have run: "node_run E ?s0 ?locked" using 1 2 3 4 by (meson converse_rtranclp_into_rtranclp r_into_rtranclp)
  have one: "one_removal ?locked"
    by (rule one_removal_run [OF run]) (use assms(6) start in \<open>simp add: one_removal_def\<close>)
  have locked: "self_locked i ?locked" using assms(7) start by (simp add: self_locked_def)
  have "sh_tasks ?locked ! i = Relisting cid (length es) b x" using assms(7) start by simp
  then have "sh_holder s' = Some i \<and> sh_tasks s' ! i = Relisting cid (length es) b x \<and>
      cn_connections (sh_node s') = cn_connections n \<and>
      (\<forall>m. wants_list (sh_tasks ?locked ! m) \<longrightarrow> sh_tasks s' ! m = sh_tasks ?locked ! m)" if "node_run E ?locked s'" for s'
    using self_locked_run [OF that one locked] by (auto simp: self_locked_def)
  moreover have "qc_items (pe_queue E) (cn_hot (sh_node ?locked)) = es @ [(a, y)]" using push(2) by simp
  ultimately show ?thesis using run by blast
qed

lemma removal_deadlocks_witness:
  "\<exists>s. node_run list_env (shared_start \<lparr>cn_connections = [], cn_hot = (2, [(1, ''a''), (2, ''b'')])\<rparr> [Removing 2, Inserting 3 ''c'']) s \<and>
     sh_holder s = Some 0 \<and> sh_tasks s ! 0 = Relisting 2 1 1 ''a'' \<and> snd (cn_hot (sh_node s)) = [(2, ''b''), (3, ''c'')]"
proof -
  let ?n = "\<lparr>cn_connections = [], cn_hot = (2, [(1 :: conn_id, ''a''), (2, ''b'')])\<rparr>"
  let ?tasks = "[Removing 2, Inserting 3 ''c'']"
  have env: "queue_laws (pe_queue list_env)" "qc_items (pe_queue list_env) (cn_hot ?n) = (1, ''a'') # [(2, ''b'')]"
      "length (qc_items (pe_queue list_env) (cn_hot ?n)) = qc_capacity (pe_queue list_env) (cn_hot ?n)"
      "qc_items (pe_queue list_env) = snd"
    by (simp_all add: list_env_def list_queue_laws) (simp_all add: list_queue_def)
  have "(2 :: conn_id) \<noteq> 1" "map_of (cn_connections ?n) 2 = None" "\<forall>task\<in>set ?tasks. \<not> in_loop task"
      "0 < length ?tasks" "?tasks ! 0 = Removing 2" "1 < length ?tasks" "?tasks ! 1 = Inserting 3 ''c''"
    by simp_all
  from removal_deadlocks [OF env(1,2) this(1) env(3) this(2-)]
  obtain s where s: "node_run list_env (shared_start ?n ?tasks) s"
      "qc_items (pe_queue list_env) (cn_hot (sh_node s)) = [(2, ''b'')] @ [(3, ''c'')]"
    and locked: "\<forall>s'. node_run list_env s s' \<longrightarrow> sh_holder s' = Some 0 \<and>
      sh_tasks s' ! 0 = Relisting 2 (length [(2 :: conn_id, ''b'')]) 1 ''a''"
    by blast
  from locked [rule_format, of s] s show ?thesis by (intro exI [of _ s]) (simp add: env(4))
qed

text \<open>
  C37 (safety, code bug). The caches are per thread: when a connection is picked up on another
  thread than the one that returned it, its entry stays in the first thread's cache although the
  connection has left the pool. The pool is then no longer bounded by the entries, and when the
  entry is evicted it takes whatever waits under that identifier with it.
\<close>

theorem pick_up_leaves_stale_entry:
  assumes "pool_inv E t P" "t \<noteq> t'" "get_connection_from_pool E t' g P = (Some c, P')"
  shows "cached_entries E t P' = cached_entries E t P \<and>
     (\<exists>e \<in> set (cached_entries E t P'). entry_of e \<notin> pool_entries E P')"
proof -
  have laws: "lru_laws (pe_lru E)" and nodes: "nodes_ok E P" and es: "entry_of ` set (cached_entries E t P) = pool_entries E P"
    using assms(1) by (simp_all add: pool_inv_def nodes_ok_def pool_env_laws_def)
  obtain n where n: "cp_pool P g = Some n" "node_ok E n"
    using assms(3) nodes by (auto simp: get_connection_from_pool_def nodes_ok_def split: option.splits)
  obtain r n' where take: "get_available_connection E n = (r, n')"
      "case r of None \<Rightarrow> node_items E n = [] \<and> node_items E n' = []
        | Some e \<Rightarrow> mset (node_items E n) = add_mset e (mset (node_items E n'))"
    using take_node [OF n(2)] by blast
  obtain i cn where r: "r = Some (i, cn)"
    using assms(3) n(1) take(1) by (auto simp: get_connection_from_pool_def split: option.splits)
  let ?P = "P\<lparr>cp_pool := (cp_pool P)(g \<mapsto> n'), cp_lru := snd (pop_connection (pe_lru E) t' i (cp_lru P))\<rparr>"
  have P': "P' = ?P\<lparr>cp_signals := cp_signals P @ [(cnt_sender cn, True)]\<rparr>"
    using assms(3) n(1) take(1) r by (simp add: get_connection_from_pool_def pick_up_connection_def)
  have ids: "fst ` set (node_items E n') = fst ` set (node_items E n) - {i}"
    using node_ids_distinct [OF n(2), of i cn] take(2) r by simp
  have "mset (node_items E n) = add_mset (i, cn) (mset (node_items E n'))" using take(2) r by simp
  from arg_cong [OF this, of set_mset] have "i \<in> fst ` set (node_items E n)" by force
  then have "(g, i) \<in> pool_entries E P" using pool_entries_at [OF n(1)] by blast
  moreover have "pool_entries E P' = pool_entries E P - {(g, i)}"
    using pool_entries_remove_node [OF n(1) ids] by (simp add: P')
  moreover have "cached_entries E t P' = cached_entries E t P"
    using assms(2) by (simp add: P' cached_entries_def entries_of_def pop_connection_def case_prod_unfold)
  ultimately show ?thesis using es by (metis DiffD2 imageE insertI1)
qed

lemma pick_up_leaves_stale_entry_witness:
  "entry_of ` set (cached_entries list_env 0 (snd (get_connection_from_pool list_env 1 1
      (snd (add_connection_to_pool list_env 0 (conn_meta_new 1 7) ''a'' (pool_new 4)))))) = {(1, 7)}"
proof -
  let ?P1 = "snd (add_connection_to_pool list_env 0 (conn_meta_new 1 7) ''a'' (pool_new 4))"
  have inv: "pool_inv list_env 0 ?P1"
    by (rule pool_inv_add [OF pool_inv_new [OF list_env_laws]])
      (simp_all add: pool_entries_def pool_items_def pool_new_def)
  have "fst (get_connection_from_pool list_env 1 1 ?P1) = Some ''a''" by (simp add: pool_eval)
  then obtain P' where find: "get_connection_from_pool list_env 1 1 ?P1 = (Some ''a'', P')" by (metis prod.collapse)
  have "entry_of ` set (cached_entries list_env 0 ?P1) = {(1, 7)}" by (simp add: pool_eval)
  with pick_up_leaves_stale_entry [OF inv _ find] find show ?thesis by simp
qed

end
