(* ===== verification/Service.thy ===== *)
theory Service
  imports DuplexProperties PoolProperties
begin

text \<open>
  A service's connections: the peer (core/src/service/peer.rs), the stream manager over the pool
  (core/src/pool/stream.rs), socket addresses (core/src/listener/socket.rs), binding a listener
  (core/src/listener/listener.rs). The operating system is a record of operations on a state \<open>'w\<close>; the
  hash of a peer is a parameter.
\<close>

section \<open>Addresses and peers\<close>

text \<open>The standard library's addresses, IPv6 with its flow label and scope; a Unix address is its path, if any.\<close>

datatype std_addr = AddrV4 "32 word" "16 word" | AddrV6 "128 word" "16 word" "32 word" "32 word"

datatype socket_address = SockTcp std_addr | SockUnix "string option"

definition parse_tcp :: "(string \<Rightarrow> std_addr option) \<Rightarrow> string \<Rightarrow> socket_address outcome" where
  "parse_tcp from_str raw =
     (case from_str raw of Some a \<Rightarrow> Ok (SockTcp a) | None \<Rightarrow> Panic ''invalid tcp socket address'')"

definition parse_unix :: "(string \<Rightarrow> bool) \<Rightarrow> string \<Rightarrow> socket_address outcome" where
  "parse_unix is_path raw = (if is_path raw then Ok (SockUnix (Some raw)) else Panic ''invalid unix path'')"

definition as_tcp :: "socket_address \<Rightarrow> std_addr option" where
  "as_tcp a = (case a of SockTcp x \<Rightarrow> Some x | SockUnix p \<Rightarrow> None)"

definition as_unix :: "socket_address \<Rightarrow> string option option" where
  "as_unix a = (case a of SockUnix p \<Rightarrow> Some p | SockTcp x \<Rightarrow> None)"

fun std_set_port :: "16 word \<Rightarrow> std_addr \<Rightarrow> std_addr" where
  "std_set_port p (AddrV4 ip port) = AddrV4 ip p"
| "std_set_port p (AddrV6 ip port flow scope) = AddrV6 ip p flow scope"

definition set_port :: "16 word \<Rightarrow> socket_address \<Rightarrow> socket_address" where
  "set_port p a = (case a of SockTcp x \<Rightarrow> SockTcp (std_set_port p x) | SockUnix q \<Rightarrow> SockUnix q)"

text \<open>What an address feeds the hasher; unnamed Unix sockets are not supported.\<close>

definition hash_address :: "socket_address \<Rightarrow> (std_addr + string) outcome" where
  "hash_address a =
     (case a of
        SockTcp x \<Rightarrow> Ok (Inl x)
      | SockUnix (Some path) \<Rightarrow> Ok (Inr path)
      | SockUnix None \<Rightarrow> Panic ''Unnamed and abstract UDS types not yet supported for hashing'')"

record upstream_peer =
  up_name :: string
  up_service :: string
  up_address :: socket_address
  up_timeout :: "nat option"

definition upstream_peer_new :: "string \<Rightarrow> string \<Rightarrow> socket_address \<Rightarrow> nat option \<Rightarrow> upstream_peer" where
  "upstream_peer_new name service address timeout =
     \<lparr>up_name = name, up_service = service, up_address = address, up_timeout = timeout\<rparr>"

type_synonym peer_hash = "string \<times> string \<times> (std_addr + string) \<Rightarrow> group_id"

definition get_group_id :: "peer_hash \<Rightarrow> upstream_peer \<Rightarrow> group_id outcome" where
  "get_group_id ahash peer =
     bind_outcome (hash_address (up_address peer)) (\<lambda>a. Ok (ahash (up_name peer, up_service peer, a)))"

section \<open>The stream manager\<close>

record ('s, 'w) net_os =
  os_new_socket :: "bool \<Rightarrow> 'w \<Rightarrow> (io_error + unit) \<times> 'w"
  os_connect_tcp :: "std_addr \<Rightarrow> 'w \<Rightarrow> (io_error + 's) \<times> 'w"
  os_connect_unix :: "string \<Rightarrow> 'w \<Rightarrow> (io_error + 's) \<times> 'w"
  os_fd :: "'s \<Rightarrow> conn_id"

definition default_pool_size :: nat where
  "default_pool_size = 128"

definition stream_manager_new :: "nat option \<Rightarrow> ('s, 'q, 'c) conn_pool" where
  "stream_manager_new capacity = pool_new (unwrap_or default_pool_size capacity)"

fun is_ipv4 :: "std_addr \<Rightarrow> bool" where
  "is_ipv4 (AddrV4 ip port) \<longleftrightarrow> True"
| "is_ipv4 (AddrV6 ip port flow scope) \<longleftrightarrow> False"

text \<open>The socket options are set between the two steps; their results are ignored by the code.\<close>

definition new_stream_connection :: "('s, 'w) net_os \<Rightarrow> upstream_peer \<Rightarrow> 'w \<Rightarrow> 's outcome \<times> 'w" where
  "new_stream_connection os peer w =
     (case up_address peer of
        SockTcp a \<Rightarrow>
          (case os_new_socket os (is_ipv4 a) w of
             (Inl e, w1) \<Rightarrow> (Err e, w1)
           | (Inr u, w1) \<Rightarrow>
               (case os_connect_tcp os a w1 of
                  (Inl e, w2) \<Rightarrow> (Err e, w2)
                | (Inr s, w2) \<Rightarrow> (Ok s, w2)))
      | SockUnix None \<Rightarrow> (Panic ''none value in unix socket path'', w)
      | SockUnix (Some path) \<Rightarrow>
          (case os_connect_unix os path w of
             (Inl e, w1) \<Rightarrow> (Err e, w1)
           | (Inr s, w1) \<Rightarrow> (Ok s, w1)))"

text \<open>
  The pool holds the only reference to a waiting stream, so unwrapping its \<open>Arc\<close> always succeeds.
\<close>

definition find_connection_stream ::
  "peer_hash \<Rightarrow> ('s, 'q, 'c) env \<Rightarrow> thread \<Rightarrow> upstream_peer \<Rightarrow> ('s, 'q, 'c) conn_pool
   \<Rightarrow> ('s option \<times> ('s, 'q, 'c) conn_pool) outcome" where
  "find_connection_stream ahash E t peer P =
     bind_outcome (get_group_id ahash peer) (\<lambda>g. Ok (get_connection_from_pool E t g P))"

definition get_stream_connection ::
  "peer_hash \<Rightarrow> ('s, 'w) net_os \<Rightarrow> ('s, 'q, 'c) env \<Rightarrow> thread \<Rightarrow> upstream_peer \<Rightarrow> ('s, 'q, 'c) conn_pool \<Rightarrow> 'w
   \<Rightarrow> ('s \<times> bool) outcome \<times> ('s, 'q, 'c) conn_pool \<times> 'w" where
  "get_stream_connection ahash os E t peer P w =
     (case find_connection_stream ahash E t peer P of
        Panic p \<Rightarrow> (Panic p, P, w)
      | Err e \<Rightarrow> (Err e, P, w)
      | Ok (Some s, P') \<Rightarrow> (Ok (s, True), P', w)
      | Ok (None, P') \<Rightarrow>
          (case new_stream_connection os peer w of
             (Ok s, w') \<Rightarrow> (Ok (s, False), P', w')
           | (Err e, w') \<Rightarrow> (Err e, P', w')
           | (Panic p, w') \<Rightarrow> (Panic p, P', w')))"

text \<open>
  A returned connection: into the pool, with a task that watches it if the peer has an idle timeout
  (its metadata, the seconds, and the two handles it waits on).
\<close>

type_synonym idle_watch = "conn_meta \<times> nat \<times> (nat \<times> nat)"

definition return_stream_connection ::
  "peer_hash \<Rightarrow> ('s, 'w) net_os \<Rightarrow> ('s, 'q, 'c) env \<Rightarrow> thread \<Rightarrow> 's \<Rightarrow> upstream_peer \<Rightarrow> ('s, 'q, 'c) conn_pool
   \<Rightarrow> (idle_watch option \<times> ('s, 'q, 'c) conn_pool) outcome" where
  "return_stream_connection ahash os E t s peer P =
     bind_outcome (get_group_id ahash peer) (\<lambda>g.
       (let m = conn_meta_new g (os_fd os s)
        in case add_connection_to_pool E t m s P of
             (handles, P') \<Rightarrow> Ok (map_option (\<lambda>secs. (m, secs, handles)) (up_timeout peer), P')))"

section \<open>Binding a listener\<close>

datatype listener_address = ListenTcp string | ListenUnix string

text \<open>The addresses one service listens on, in the order they were added.\<close>

definition new_tcp_address :: "string \<Rightarrow> listener_address list \<Rightarrow> listener_address list" where
  "new_tcp_address a stack = stack @ [ListenTcp a]"

definition new_unix_path :: "string \<Rightarrow> listener_address list \<Rightarrow> listener_address list" where
  "new_unix_path p stack = stack @ [ListenUnix p]"

definition listener_backlog :: nat where
  "listener_backlog = 65535"

text \<open>
  The system calls of \<open>bind_to_listener\<close>, each with its error: resolving, creating and binding sockets,
  and removing the file of a Unix socket.
\<close>

record ('l, 'w) bind_os =
  bo_resolve :: "string \<Rightarrow> string + std_addr list"
  bo_tcp_socket :: "bool \<Rightarrow> 'w \<Rightarrow> (string + unit) \<times> 'w"
  bo_reuse_addr :: "'w \<Rightarrow> (string + unit) \<times> 'w"
  bo_bind_tcp :: "std_addr \<Rightarrow> 'w \<Rightarrow> (string + unit) \<times> 'w"
  bo_listen_tcp :: "nat \<Rightarrow> 'w \<Rightarrow> (string + 'l) \<times> 'w"
  bo_remove_file :: "string \<Rightarrow> 'w \<Rightarrow> (string + unit) \<times> 'w"
  bo_bind_unix :: "string \<Rightarrow> 'w \<Rightarrow> (string + unit) \<times> 'w"
  bo_into_std :: "'w \<Rightarrow> (string + unit) \<times> 'w"
  bo_listen_unix :: "nat \<Rightarrow> 'w \<Rightarrow> (string + unit) \<times> 'w"
  bo_from_std :: "'w \<Rightarrow> (string + 'l) \<times> 'w"

definition or_panic :: "(string + 'a) \<times> 'w \<Rightarrow> ('a \<Rightarrow> 'w \<Rightarrow> 'b outcome \<times> 'w) \<Rightarrow> 'b outcome \<times> 'w" where
  "or_panic r k = (case r of (Inl e, w) \<Rightarrow> (Panic e, w) | (Inr x, w) \<Rightarrow> k x w)"

definition bind_to_listener :: "('l, 'w) bind_os \<Rightarrow> listener_address \<Rightarrow> 'w \<Rightarrow> 'l outcome \<times> 'w" where
  "bind_to_listener B addr w =
     (case addr of
        ListenTcp address \<Rightarrow>
          (case bo_resolve B address of
             Inl e \<Rightarrow> (Panic e, w)
           | Inr [] \<Rightarrow> (Panic ''could not resolve address'', w)
           | Inr (a # as) \<Rightarrow>
               or_panic (bo_tcp_socket B (is_ipv4 a) w) (\<lambda>u w.
               or_panic (bo_reuse_addr B w) (\<lambda>u w.
               or_panic (bo_bind_tcp B a w) (\<lambda>u w.
               or_panic (bo_listen_tcp B listener_backlog w) (\<lambda>l w. (Ok l, w))))))
      | ListenUnix path \<Rightarrow>
          or_panic (bo_remove_file B path w) (\<lambda>u w.
          or_panic (bo_bind_unix B path w) (\<lambda>u w.
          or_panic (bo_into_std B w) (\<lambda>u w.
          or_panic (bo_listen_unix B listener_backlog w) (\<lambda>u w.
          or_panic (bo_from_std B w) (\<lambda>l w. (Ok l, w)))))))"

section \<open>Properties\<close>

text \<open>
  C25 (functional). A connection is opened only when the pool has none: if a connection of the peer's
  group waits, the manager hands one out, takes exactly it from the pool and does not touch the
  network; otherwise it opens one and leaves the pool's contents alone.
\<close>

theorem reuse_before_connect:
  assumes "nodes_ok E P" "get_group_id ahash peer = Ok g"
  shows "if pool_items E P g = {#}
     then \<exists>P'. pool_items E P' = pool_items E P \<and>
       get_stream_connection ahash os E t peer P w =
         (case new_stream_connection os peer w of
            (Ok s, w') \<Rightarrow> (Ok (s, False), P', w')
          | (Err e, w') \<Rightarrow> (Err e, P', w')
          | (Panic p, w') \<Rightarrow> (Panic p, P', w'))
     else \<exists>i cn P'. get_stream_connection ahash os E t peer P w = (Ok (cnt_connection cn, True), P', w) \<and>
       (i, cn) \<in># pool_items E P g \<and>
       pool_items E P' = (pool_items E P)(g := pool_items E P g - {#(i, cn)#})"
proof -
  obtain r P' where find: "get_connection_from_pool E t g P = (r, P')" by fastforce
  note spec = abs_find [OF assms(1), where t = t and g = g, unfolded find]
  show ?thesis
  proof (cases r)
    case None
    with spec have "pool_items E P g = {#}" "pool_items E P' = pool_items E P" by simp_all
    then show ?thesis
      using find None assms(2)
      by (auto simp: get_stream_connection_def find_connection_stream_def intro!: exI [of _ P'])
  next
    case (Some c)
    with spec obtain i cn where "cnt_connection cn = c" "(i, cn) \<in># pool_items E P g"
        "pool_items E P' = (pool_items E P)(g := pool_items E P g - {#(i, cn)#})" by auto
    moreover from this have "pool_items E P g \<noteq> {#}" by auto
    ultimately show ?thesis
      using find Some assms(2)
      by (auto simp: get_stream_connection_def find_connection_stream_def intro!: exI [of _ i] exI [of _ cn])
  qed
qed


lemma reuse_before_connect_witness:
  "\<exists>P'. get_stream_connection (\<lambda>x. 1) \<lparr>os_new_socket = \<lambda>v4 w. (Inr (), w), os_connect_tcp = \<lambda>a w. (Inr ''new'', Suc w),
      os_connect_unix = \<lambda>p w. (Inr ''new'', Suc w), os_fd = \<lambda>s. 7\<rparr> list_env 0
      (upstream_peer_new ''node'' ''svc'' (SockTcp (AddrV4 2130706433 8000)) None)
      (snd (add_connection_to_pool list_env 0 (conn_meta_new 1 7) ''old'' (pool_new 4))) (0 :: nat)
    = (Ok (''old'', True), P', 0)"
proof -
  let ?os = "\<lparr>os_new_socket = \<lambda>v4 w. (Inr (), w), os_connect_tcp = \<lambda>a w. (Inr ''new'', Suc w),
      os_connect_unix = \<lambda>p w. (Inr ''new'', Suc w), os_fd = \<lambda>s. 7\<rparr>"
  let ?peer = "upstream_peer_new ''node'' ''svc'' (SockTcp (AddrV4 2130706433 8000)) None"
  let ?P = "snd (add_connection_to_pool list_env 0 (conn_meta_new 1 7) ''old'' (pool_new 4))"
  have "pool_inv list_env 0 ?P"
    by (rule pool_inv_add [OF pool_inv_new [OF list_env_laws]])
      (simp_all add: pool_entries_def pool_items_def pool_new_def)
  then have ok: "nodes_ok list_env ?P" by (simp add: pool_inv_def)
  have g: "get_group_id (\<lambda>x. 1) ?peer = Ok 1"
    by (simp add: get_group_id_def hash_address_def upstream_peer_new_def)
  have items: "pool_items list_env ?P 1 = {#(7, \<lparr>cnt_sender = 0, cnt_connection = ''old''\<rparr>)#}"
    by (simp add: pool_eval)
  show ?thesis
    using reuse_before_connect [OF ok g, where t = 0 and w = "0 :: nat" and os = ?os] items by auto
qed

text \<open>
  Binding a Unix listener needs its socket file to exist already: the old file is removed
  first, and when there is none (a first start, or after a clean shutdown) the error of the removal ends
  the process, before anything is bound.
\<close>

theorem unix_bind_needs_old_file:
  assumes "bo_remove_file B path w = (Inl e, w')"
  shows "bind_to_listener B (ListenUnix path) w = (Panic e, w')"
  using assms by (simp add: bind_to_listener_def or_panic_def)

lemma unix_bind_needs_old_file_witness:
  "let B = \<lparr>bo_resolve = \<lambda>a. Inr [], bo_tcp_socket = \<lambda>v4 w. (Inr (), w), bo_reuse_addr = \<lambda>w. (Inr (), w),
      bo_bind_tcp = \<lambda>a w. (Inr (), w), bo_listen_tcp = \<lambda>b w. (Inr ''tcp'', w),
      bo_remove_file = \<lambda>p w. if p \<in> set w then (Inr (), removeAll p w) else (Inl ''No such file or directory'', w),
      bo_bind_unix = \<lambda>p w. (Inr (), p # w), bo_into_std = \<lambda>w. (Inr (), w), bo_listen_unix = \<lambda>b w. (Inr (), w),
      bo_from_std = \<lambda>w. (Inr ''unix'', w)\<rparr>
   in bind_to_listener B (ListenUnix ''/run/a.sock'') [] = (Panic ''No such file or directory'', []) \<and>
      bind_to_listener B (ListenUnix ''/run/a.sock'') [''/run/a.sock''] = (Ok ''unix'', [''/run/a.sock''])"
proof -
  let ?B = "\<lparr>bo_resolve = \<lambda>a. Inr [], bo_tcp_socket = \<lambda>v4 w. (Inr (), w), bo_reuse_addr = \<lambda>w. (Inr (), w),
      bo_bind_tcp = \<lambda>a w. (Inr (), w), bo_listen_tcp = \<lambda>b w. (Inr ''tcp'', w),
      bo_remove_file = \<lambda>p w. if p \<in> set w then (Inr (), removeAll p w) else (Inl ''No such file or directory'', w),
      bo_bind_unix = \<lambda>p w. (Inr (), p # w), bo_into_std = \<lambda>w. (Inr (), w), bo_listen_unix = \<lambda>b w. (Inr (), w),
      bo_from_std = \<lambda>w. (Inr ''unix'', w)\<rparr> :: (string, string list) bind_os"
  have "bind_to_listener ?B (ListenUnix ''/run/a.sock'') [] = (Panic ''No such file or directory'', [])"
    by (rule unix_bind_needs_old_file) simp
  then show ?thesis by (simp add: bind_to_listener_def or_panic_def)
qed

end
