(* ===== verification/Streams.thy ===== *)
theory Streams
  imports Prelude "HOL-Library.Word"
begin

text \<open>
  The connection stream (core/src/stream/types.rs, raw.rs) and the clock of its waiting times
  (core/src/stream/duration.rs). A stream wraps tokio's \<open>BufStream\<close> over a TCP or Unix socket, both code
  outside the repository: they are a record of poll operations. The file descriptor of the socket is the
  connection's identity.
\<close>

section \<open>Waiting times\<close>

datatype 'a poll = Pending | Ready "io_error + 'a"

text \<open>Instants and durations in the clock's ticks; \<open>now\<close> is the instant of the call.\<close>

record accumulated_duration =
  ad_total :: nat
  ad_last_start :: "nat option"

definition ad_new :: accumulated_duration where
  "ad_new = \<lparr>ad_total = 0, ad_last_start = None\<rparr>"

definition ad_start :: "nat \<Rightarrow> accumulated_duration \<Rightarrow> accumulated_duration" where
  "ad_start now d = (if ad_last_start d = None then d\<lparr>ad_last_start := Some now\<rparr> else d)"

definition ad_stop :: "nat \<Rightarrow> accumulated_duration \<Rightarrow> accumulated_duration" where
  "ad_stop now d =
     (case ad_last_start d of
        Some start \<Rightarrow> d\<lparr>ad_total := ad_total d + (now - start), ad_last_start := None\<rparr>
      | None \<Rightarrow> d)"

definition poll_write_time :: "nat \<Rightarrow> nat poll \<Rightarrow> nat \<Rightarrow> accumulated_duration \<Rightarrow> accumulated_duration" where
  "poll_write_time now result buf_size d =
     (case result of
        Ready (Inr n) \<Rightarrow> if n = buf_size then ad_stop now d else ad_start now d
      | Ready (Inl e) \<Rightarrow> ad_stop now d
      | Pending \<Rightarrow> ad_start now d)"

definition poll_time :: "nat \<Rightarrow> 'a poll \<Rightarrow> accumulated_duration \<Rightarrow> accumulated_duration" where
  "poll_time now result d = (case result of Ready r \<Rightarrow> ad_stop now d | Pending \<Rightarrow> ad_start now d)"

section \<open>The stream\<close>

datatype 't raw_stream = RawTcp 't | RawUnix 't

fun raw_inner :: "'t raw_stream \<Rightarrow> 't" where
  "raw_inner (RawTcp s) = s"
| "raw_inner (RawUnix s) = s"

text \<open>
  A socket, and a buffered stream over one: reads of at most \<open>k\<close> bytes, writes, flush and shutdown. The socket
  inside the buffered stream is reached directly by \<open>get_mut\<close>.
\<close>

record ('t, 'b) buf_ops =
  sk_fd :: "'t \<Rightarrow> 32 word"
  sk_poll_read :: "nat \<Rightarrow> 't \<Rightarrow> bytes poll \<times> 't"
  sk_poll_write :: "bytes \<Rightarrow> 't \<Rightarrow> nat poll \<times> 't"
  sk_poll_write_vectored :: "bytes list \<Rightarrow> 't \<Rightarrow> nat poll \<times> 't"
  sk_poll_flush :: "'t \<Rightarrow> unit poll \<times> 't"
  sk_poll_shutdown :: "'t \<Rightarrow> unit poll \<times> 't"
  sk_is_write_vectored :: "'t \<Rightarrow> bool"
  bf_new :: "nat \<Rightarrow> nat \<Rightarrow> 't raw_stream \<Rightarrow> 'b"
  bf_get :: "'b \<Rightarrow> 't raw_stream"
  bf_set :: "'t raw_stream \<Rightarrow> 'b \<Rightarrow> 'b"
  bf_poll_read :: "nat \<Rightarrow> 'b \<Rightarrow> bytes poll \<times> 'b"
  bf_poll_write :: "bytes \<Rightarrow> 'b \<Rightarrow> nat poll \<times> 'b"
  bf_poll_write_vectored :: "bytes list \<Rightarrow> 'b \<Rightarrow> nat poll \<times> 'b"
  bf_poll_flush :: "'b \<Rightarrow> unit poll \<times> 'b"
  bf_poll_shutdown :: "'b \<Rightarrow> unit poll \<times> 'b"
  bf_is_write_vectored :: "'b \<Rightarrow> bool"

text \<open>The dispatch of \<open>RawStream\<close> to the socket it holds.\<close>

definition raw_map :: "('t \<Rightarrow> 'r \<times> 't) \<Rightarrow> 't raw_stream \<Rightarrow> 'r \<times> 't raw_stream" where
  "raw_map f s =
     (case s of
        RawTcp t \<Rightarrow> (let (r, t') = f t in (r, RawTcp t'))
      | RawUnix t \<Rightarrow> (let (r, t') = f t in (r, RawUnix t')))"

definition raw_poll_read :: "('t, 'b) buf_ops \<Rightarrow> nat \<Rightarrow> 't raw_stream \<Rightarrow> bytes poll \<times> 't raw_stream" where
  "raw_poll_read B k = raw_map (sk_poll_read B k)"

definition raw_poll_flush :: "('t, 'b) buf_ops \<Rightarrow> 't raw_stream \<Rightarrow> unit poll \<times> 't raw_stream" where
  "raw_poll_flush B = raw_map (sk_poll_flush B)"

definition raw_poll_shutdown :: "('t, 'b) buf_ops \<Rightarrow> 't raw_stream \<Rightarrow> unit poll \<times> 't raw_stream" where
  "raw_poll_shutdown B = raw_map (sk_poll_shutdown B)"

definition raw_poll_write :: "('t, 'b) buf_ops \<Rightarrow> bytes \<Rightarrow> 't raw_stream \<Rightarrow> nat poll \<times> 't raw_stream" where
  "raw_poll_write B buf = raw_map (sk_poll_write B buf)"

definition raw_poll_write_vectored :: "('t, 'b) buf_ops \<Rightarrow> bytes list \<Rightarrow> 't raw_stream \<Rightarrow> nat poll \<times> 't raw_stream" where
  "raw_poll_write_vectored B bufs = raw_map (sk_poll_write_vectored B bufs)"

definition raw_is_write_vectored :: "('t, 'b) buf_ops \<Rightarrow> 't raw_stream \<Rightarrow> bool" where
  "raw_is_write_vectored B s = sk_is_write_vectored B (raw_inner s)"

definition raw_fd :: "('t, 'b) buf_ops \<Rightarrow> 't raw_stream \<Rightarrow> 32 word" where
  "raw_fd B s = sk_fd B (raw_inner s)"

definition buf_read_size :: nat where
  "buf_read_size = 65536"

definition buf_write_size :: nat where
  "buf_write_size = 1460"

record 'b stream_type =
  st_stream :: 'b
  st_rewind :: bytes
  st_buffer_write :: bool
  st_read_pending :: accumulated_duration
  st_write_pending :: accumulated_duration

definition stream_from :: "('t, 'b) buf_ops \<Rightarrow> 't raw_stream \<Rightarrow> 'b stream_type" where
  "stream_from B raw =
     \<lparr>st_stream = bf_new B buf_read_size buf_write_size raw, st_rewind = [], st_buffer_write = True,
      st_read_pending = ad_new, st_write_pending = ad_new\<rparr>"

definition from_tcp :: "('t, 'b) buf_ops \<Rightarrow> 't \<Rightarrow> 'b stream_type" where
  "from_tcp B t = stream_from B (RawTcp t)"

definition from_unix :: "('t, 'b) buf_ops \<Rightarrow> 't \<Rightarrow> 'b stream_type" where
  "from_unix B t = stream_from B (RawUnix t)"

definition set_buf_write :: "bool \<Rightarrow> 'b stream_type \<Rightarrow> 'b stream_type" where
  "set_buf_write flag s = s\<lparr>st_buffer_write := flag\<rparr>"

definition get_unique_id :: "('t, 'b) buf_ops \<Rightarrow> 'b stream_type \<Rightarrow> 32 word" where
  "get_unique_id B s = raw_fd B (bf_get B (st_stream s))"

text \<open>Bytes put back are read first; a slice is always ready.\<close>

definition stream_poll_read :: "('t, 'b) buf_ops \<Rightarrow> nat \<Rightarrow> nat \<Rightarrow> 'b stream_type \<Rightarrow> bytes poll \<times> 'b stream_type" where
  "stream_poll_read B now k s =
     (let (result, s1) =
        (if st_rewind s \<noteq> []
         then (Ready (Inr (take k (st_rewind s))), s\<lparr>st_rewind := drop k (st_rewind s)\<rparr>)
         else (let (r, b) = bf_poll_read B k (st_stream s) in (r, s\<lparr>st_stream := b\<rparr>)))
      in (result, s1\<lparr>st_read_pending := poll_time now result (st_read_pending s1)\<rparr>))"

definition stream_poll_write :: "('t, 'b) buf_ops \<Rightarrow> nat \<Rightarrow> bytes \<Rightarrow> 'b stream_type \<Rightarrow> nat poll \<times> 'b stream_type" where
  "stream_poll_write B now buf s =
     (let (result, b) =
        (if st_buffer_write s then bf_poll_write B buf (st_stream s)
         else (let (r, raw) = raw_poll_write B buf (bf_get B (st_stream s)) in (r, bf_set B raw (st_stream s))))
      in (result, s\<lparr>st_stream := b, st_write_pending := poll_write_time now result (length buf) (st_write_pending s)\<rparr>))"

definition stream_poll_write_vectored ::
  "('t, 'b) buf_ops \<Rightarrow> nat \<Rightarrow> bytes list \<Rightarrow> 'b stream_type \<Rightarrow> nat poll \<times> 'b stream_type" where
  "stream_poll_write_vectored B now bufs s =
     (let total = fold (\<lambda>b acc. acc + length b) bufs 0;
          (result, b) =
        (if st_buffer_write s then bf_poll_write_vectored B bufs (st_stream s)
         else (let (r, raw) = raw_poll_write_vectored B bufs (bf_get B (st_stream s)) in (r, bf_set B raw (st_stream s))))
      in (result, s\<lparr>st_stream := b, st_write_pending := poll_write_time now result total (st_write_pending s)\<rparr>))"

definition stream_poll_flush :: "('t, 'b) buf_ops \<Rightarrow> nat \<Rightarrow> 'b stream_type \<Rightarrow> unit poll \<times> 'b stream_type" where
  "stream_poll_flush B now s =
     (let (result, b) = bf_poll_flush B (st_stream s)
      in (result, s\<lparr>st_stream := b, st_write_pending := poll_time now result (st_write_pending s)\<rparr>))"

definition stream_poll_shutdown :: "('t, 'b) buf_ops \<Rightarrow> 'b stream_type \<Rightarrow> unit poll \<times> 'b stream_type" where
  "stream_poll_shutdown B s = (let (result, b) = bf_poll_shutdown B (st_stream s) in (result, s\<lparr>st_stream := b\<rparr>))"

definition stream_is_write_vectored :: "('t, 'b) buf_ops \<Rightarrow> 'b stream_type \<Rightarrow> bool" where
  "stream_is_write_vectored B s =
     (if st_buffer_write s then bf_is_write_vectored B (st_stream s)
      else raw_is_write_vectored B (bf_get B (st_stream s)))"

section \<open>Reading and writing in order\<close>

text \<open>
  What is known of the buffered stream, relative to the bytes \<open>unread b\<close> still to come from the peer and
  \<open>queued b\<close>, \<open>out b\<close>: those waiting in the write buffer, and those handed to the socket. A direct
  write to the socket inside passes the buffer by.
\<close>

definition buf_laws :: "('t, 'b) buf_ops \<Rightarrow> ('b \<Rightarrow> bytes) \<Rightarrow> ('b \<Rightarrow> bytes) \<Rightarrow> ('b \<Rightarrow> bytes) \<Rightarrow> bool" where
  "buf_laws B unread queued out \<longleftrightarrow>
     (\<forall>k b bs b'. bf_poll_read B k b = (Ready (Inr bs), b') \<longrightarrow> length bs \<le> k \<and> unread b = bs @ unread b') \<and>
     (\<forall>k b b'. bf_poll_read B k b = (Pending, b') \<longrightarrow> unread b' = unread b) \<and>
     (\<forall>buf b n b'. bf_poll_write B buf b = (Ready (Inr n), b') \<longrightarrow>
        n \<le> length buf \<and> out b' @ queued b' = out b @ queued b @ take n buf) \<and>
     (\<forall>buf b b'. bf_poll_write B buf b = (Pending, b') \<longrightarrow> out b' @ queued b' = out b @ queued b) \<and>
     (\<forall>b b'. bf_poll_flush B b = (Ready (Inr ()), b') \<longrightarrow> queued b' = [] \<and> out b' = out b @ queued b) \<and>
     (\<forall>buf b n raw'. raw_poll_write B buf (bf_get B b) = (Ready (Inr n), raw') \<longrightarrow>
        n \<le> length buf \<and> queued (bf_set B raw' b) = queued b \<and> out (bf_set B raw' b) = out b @ take n buf)"

lemma buf_lawsD:
  assumes "buf_laws B unread queued out"
  shows "bf_poll_read B k b = (Ready (Inr bs), b') \<Longrightarrow> length bs \<le> k \<and> unread b = bs @ unread b'"
    and "bf_poll_read B k b = (Pending, b') \<Longrightarrow> unread b' = unread b"
    and "bf_poll_write B buf b = (Ready (Inr n), b') \<Longrightarrow> n \<le> length buf \<and> out b' @ queued b' = out b @ queued b @ take n buf"
    and "bf_poll_flush B b = (Ready (Inr ()), b') \<Longrightarrow> queued b' = [] \<and> out b' = out b @ queued b"
    and "raw_poll_write B buf (bf_get B b) = (Ready (Inr n), raw') \<Longrightarrow>
        n \<le> length buf \<and> queued (bf_set B raw' b) = queued b \<and> out (bf_set B raw' b) = out b @ take n buf"
  using assms by (simp_all add: buf_laws_def)

lemma total_size: "fold (\<lambda>b acc. acc + length b) bufs n = n + length (concat bufs)"
  by (induction bufs arbitrary: n) auto

text \<open>The reads of a connection, one poll after another: what they returned, and the stream after them.\<close>

fun poll_reads :: "('t, 'b) buf_ops \<Rightarrow> (nat \<times> nat) list \<Rightarrow> 'b stream_type \<Rightarrow> bytes poll list \<times> 'b stream_type" where
  "poll_reads B [] s = ([], s)"
| "poll_reads B ((now, k) # ps) s =
     (let (r, s') = stream_poll_read B now k s; (rs, s'') = poll_reads B ps s' in (r # rs, s''))"

fun poll_bytes :: "bytes poll \<Rightarrow> bytes" where
  "poll_bytes (Ready (Inr bs)) = bs"
| "poll_bytes r = []"

definition read_ok :: "bytes poll \<Rightarrow> bool" where
  "read_ok r \<longleftrightarrow> (\<forall>e. r \<noteq> Ready (Inl e))"

lemma poll_read_in_order:
  assumes "buf_laws B unread queued out" "stream_poll_read B now k s = (r, s')" "read_ok r"
  shows "st_rewind s @ unread (st_stream s) = poll_bytes r @ st_rewind s' @ unread (st_stream s')"
proof (cases "st_rewind s = []")
  case True
  then obtain b where b: "bf_poll_read B k (st_stream s) = (r, b)" "st_stream s' = b" "st_rewind s' = []"
    using assms(2) by (auto simp: stream_poll_read_def split: prod.splits)
  show ?thesis
  proof (cases r)
    case Pending
    then show ?thesis using b True buf_lawsD(2) [OF assms(1)] by simp
  next
    case (Ready x)
    then obtain bs where "r = Ready (Inr bs)" using assms(3) by (cases x) (auto simp: read_ok_def)
    then show ?thesis using b True buf_lawsD(1) [OF assms(1)] by simp
  qed
next
  case False
  then show ?thesis using assms(2) by (auto simp: stream_poll_read_def)
qed

section \<open>A stream for the witnesses\<close>

text \<open>Two bytes are buffered before they are written through; the peer's bytes and the socket are lists.\<close>

record demo_buf =
  db_in :: bytes
  db_queued :: bytes
  db_out :: bytes

definition demo_ops :: "(bytes, demo_buf) buf_ops" where
  "demo_ops = \<lparr>sk_fd = \<lambda>t. 7, sk_poll_read = \<lambda>k t. (Pending, t), sk_poll_write = \<lambda>buf t. (Ready (Inr (length buf)), t @ buf),
     sk_poll_write_vectored = \<lambda>bufs t. (Ready (Inr (length (concat bufs))), t @ concat bufs),
     sk_poll_flush = \<lambda>t. (Ready (Inr ()), t), sk_poll_shutdown = \<lambda>t. (Ready (Inr ()), t), sk_is_write_vectored = \<lambda>t. True,
     bf_new = \<lambda>r w raw. \<lparr>db_in = [], db_queued = [], db_out = raw_inner raw\<rparr>, bf_get = \<lambda>b. RawTcp (db_out b),
     bf_set = \<lambda>raw b. b\<lparr>db_out := raw_inner raw\<rparr>,
     bf_poll_read = \<lambda>k b. (Ready (Inr (take k (db_in b))), b\<lparr>db_in := drop k (db_in b)\<rparr>),
     bf_poll_write = \<lambda>buf b. (Ready (Inr (length buf)), b\<lparr>db_queued := db_queued b @ buf\<rparr>),
     bf_poll_write_vectored = \<lambda>bufs b. (Ready (Inr (length (concat bufs))), b\<lparr>db_queued := db_queued b @ concat bufs\<rparr>),
     bf_poll_flush = \<lambda>b. (Ready (Inr ()), b\<lparr>db_out := db_out b @ db_queued b, db_queued := []\<rparr>),
     bf_poll_shutdown = \<lambda>b. (Ready (Inr ()), b\<lparr>db_out := db_out b @ db_queued b, db_queued := []\<rparr>),
     bf_is_write_vectored = \<lambda>b. True\<rparr>"

lemma demo_ops_laws: "buf_laws demo_ops db_in db_queued db_out"
  by (auto simp: buf_laws_def demo_ops_def raw_poll_write_def raw_map_def)

section \<open>Properties\<close>

text \<open>
  C27 (functional). A connection is read in order and without loss: whatever sequence of polls, with any
  sizes, as long as none fails, the bytes they returned followed by what was put back and what is still to
  come are what was put back and to come before them.
\<close>

theorem stream_reads_in_order:
  assumes "buf_laws B unread queued out" "poll_reads B ps s = (rs, s')" "list_all read_ok rs"
  shows "st_rewind s @ unread (st_stream s) = concat (map poll_bytes rs) @ st_rewind s' @ unread (st_stream s')"
  using assms(2,3)
proof (induction ps arbitrary: s rs)
  case (Cons p ps)
  obtain now k where p: "p = (now, k)" by (cases p)
  obtain r s1 where r: "stream_poll_read B now k s = (r, s1)" by fastforce
  obtain rs1 s2 where rs1: "poll_reads B ps s1 = (rs1, s2)" by fastforce
  have eq: "rs = r # rs1" "s2 = s'" using Cons.prems(1) r rs1 p by auto
  have "st_rewind s @ unread (st_stream s) = poll_bytes r @ st_rewind s1 @ unread (st_stream s1)"
    using poll_read_in_order [OF assms(1) r] Cons.prems(2) eq by simp
  moreover have "st_rewind s1 @ unread (st_stream s1) = concat (map poll_bytes rs1) @ st_rewind s' @ unread (st_stream s')"
    using Cons.IH [of s1 rs1] rs1 eq Cons.prems(2) by simp
  ultimately show ?case by (simp add: eq)
qed simp

lemma stream_reads_in_order_witness:
  "concat (map poll_bytes (fst (poll_reads demo_ops [(1, 2), (2, 2), (5, 9)]
      ((from_tcp demo_ops [])\<lparr>st_rewind := ''abc'', st_stream := \<lparr>db_in = ''def'', db_queued = [], db_out = []\<rparr>\<rparr>)))) = ''abcdef''"
proof -
  let ?s = "(from_tcp demo_ops [])\<lparr>st_rewind := ''abc'', st_stream := \<lparr>db_in = ''def'', db_queued = [], db_out = []\<rparr>\<rparr>"
  obtain t where run: "poll_reads demo_ops [(1, 2), (2, 2), (5, 9)] ?s =
      ([Ready (Inr ''ab''), Ready (Inr ''c''), Ready (Inr ''def'')], t)" and t: "st_rewind t = []" "db_in (st_stream t) = []"
    by (simp add: stream_poll_read_def demo_ops_def)
  have "list_all read_ok [Ready (Inr ''ab''), Ready (Inr ''c''), Ready (Inr ''def'')]" by (simp add: read_ok_def)
  from stream_reads_in_order [OF demo_ops_laws run this] show ?thesis unfolding run by (simp add: t)
qed

text \<open>
  The waiting time of a direction, as a specification: the sum, over the periods in which polls were
  unfinished, of the time from the first unfinished poll to the next finished one.
\<close>

fun waited :: "nat option \<Rightarrow> (nat \<times> bool) list \<Rightarrow> nat" where
  "waited since [] = 0"
| "waited since ((now, finished) # es) =
     (if finished then (case since of Some t \<Rightarrow> now - t | None \<Rightarrow> 0) + waited None es
      else waited (case since of Some t \<Rightarrow> Some t | None \<Rightarrow> Some now) es)"

definition poll_finished :: "'a poll \<Rightarrow> bool" where
  "poll_finished r \<longleftrightarrow> r \<noteq> Pending"

lemma poll_time_simps [simp]:
  "poll_time now Pending d = ad_start now d" "poll_time now (Ready r) d = ad_stop now d"
  "\<not> poll_finished Pending" "poll_finished (Ready r)"
  by (simp_all add: poll_time_def poll_finished_def)

lemma poll_time_accumulates:
  "ad_total (fold (\<lambda>(now, r). poll_time now r) ps d) =
     ad_total d + waited (ad_last_start d) (map (\<lambda>(now, r). (now, poll_finished r)) ps)"
proof (induction ps arbitrary: d)
  case (Cons p ps)
  show ?case
    by (cases p; cases "snd p"; cases "ad_last_start d")
      (simp_all add: Cons.IH ad_start_def ad_stop_def)
qed simp

text \<open>
  Turning write buffering off does not empty the buffer: the next write goes straight to the socket and
  overtakes the bytes that still wait, unless the stream was flushed.
\<close>

lemma unbuffered_write_overtakes:
  assumes "buf_laws B unread queued out" "st_buffer_write s"
    and "stream_poll_write B now buf1 s = (Ready (Inr (length buf1)), s1)" "out (st_stream s1) = out (st_stream s)"
    and "stream_poll_write B now buf2 (set_buf_write False s1) = (Ready (Inr (length buf2)), s2)"
    and "stream_poll_flush B now s2 = (Ready (Inr ()), s3)"
  shows "out (st_stream s3) = out (st_stream s) @ buf2 @ queued (st_stream s) @ buf1"
proof -
  have "bf_poll_write B buf1 (st_stream s) = (Ready (Inr (length buf1)), st_stream s1)"
    using assms(2,3) by (auto simp: stream_poll_write_def split: prod.splits)
  from buf_lawsD(3) [OF assms(1) this] have q1: "queued (st_stream s1) = queued (st_stream s) @ buf1"
    using assms(4) by simp
  obtain raw where raw: "raw_poll_write B buf2 (bf_get B (st_stream s1)) = (Ready (Inr (length buf2)), raw)"
      "st_stream s2 = bf_set B raw (st_stream s1)"
    using assms(5) by (auto simp: stream_poll_write_def set_buf_write_def split: prod.splits)
  have "bf_poll_flush B (st_stream s2) = (Ready (Inr ()), st_stream s3)"
    using assms(6) by (auto simp: stream_poll_flush_def split: prod.splits)
  from buf_lawsD(4) [OF assms(1) this] buf_lawsD(5) [OF assms(1) raw(1)] show ?thesis
    using raw(2) q1 assms(4) by simp
qed

end
