(* ===== verification/Sockets.thy ===== *)
theory Sockets
  imports Service Streams
begin

text \<open>
  Socket options (core/src/listener/sys.rs), the addresses read from a descriptor
  (core/src/listener/socket.rs) and the options set on a connection stream (core/src/stream/types.rs). The
  system calls are parameters; every option of the code is four bytes wide, a C \<open>int\<close>.
\<close>

unbundle bit_operations_syntax

section \<open>Options\<close>

datatype so_level = SOL_SOCKET | IPPROTO_IP | IPPROTO_TCP | IPPROTO_IPV6

datatype so_name =
  SO_KEEPALIVE | SO_REUSEPORT | SO_RCVBUF | SO_PRIORITY
| TCP_KEEPIDLE | TCP_KEEPINTVL | TCP_KEEPCNT | TCP_FASTOPEN | TCP_FASTOPEN_CONNECT | TCP_NODELAY | TCP_QUICKACK
| TCP_DEFER_ACCEPT | TCP_WINDOW_CLAMP
| IP_BIND_ADDRESS_NO_PORT | IP_LOCAL_PORT_RANGE | IP_TOS | IPV6_TCLASS

text \<open>An error of the system by its number, or one the code makes itself.\<close>

datatype sys_error = Errno nat | InvalidInput string

type_synonym c_int = "32 word"
type_synonym 'w sys_result = "(sys_error + unit) \<times> 'w"

text \<open>\<open>setsockopt\<close>: \<open>None\<close> for success, the error number otherwise.\<close>

type_synonym 'w setsockopt = "conn_id \<Rightarrow> so_level \<Rightarrow> so_name \<Rightarrow> c_int \<Rightarrow> 'w \<Rightarrow> nat option \<times> 'w"

definition set_socket_option :: "'w setsockopt \<Rightarrow> conn_id \<Rightarrow> so_level \<Rightarrow> so_name \<Rightarrow> c_int \<Rightarrow> 'w \<Rightarrow> 'w sys_result" where
  "set_socket_option sys fd level name v w =
     (case sys fd level name v w of (Some e, w') \<Rightarrow> (Inl (Errno e), w') | (None, w') \<Rightarrow> (Inr (), w'))"

definition and_also :: "'w sys_result \<Rightarrow> ('w \<Rightarrow> 'w sys_result) \<Rightarrow> 'w sys_result" where
  "and_also r f = (case r of (Inl e, w) \<Rightarrow> (Inl e, w) | (Inr u, w) \<Rightarrow> f w)"

definition c_bool :: "bool \<Rightarrow> c_int" where
  "c_bool b = (if b then 1 else 0)"

text \<open>Durations of whole seconds, as \<open>Duration::from_secs\<close> makes them; the casts to \<open>c_int\<close> cut them to 32 bits.\<close>

record keepalive_config =
  ka_idle :: "64 word"
  ka_interval :: "64 word"
  ka_count :: "64 word"

definition keepalive_new :: "64 word \<Rightarrow> 64 word \<Rightarrow> 64 word \<Rightarrow> keepalive_config" where
  "keepalive_new idle_secs interval_secs probes = \<lparr>ka_idle = idle_secs, ka_interval = interval_secs, ka_count = probes\<rparr>"

definition keepalive_default :: keepalive_config where
  "keepalive_default = \<lparr>ka_idle = 5, ka_interval = 5, ka_count = 5\<rparr>"

definition set_keepalive_flag :: "'w setsockopt \<Rightarrow> conn_id \<Rightarrow> bool \<Rightarrow> 'w \<Rightarrow> 'w sys_result" where
  "set_keepalive_flag sys fd v = set_socket_option sys fd SOL_SOCKET SO_KEEPALIVE (c_bool v)"

definition set_keepalive_idle :: "'w setsockopt \<Rightarrow> conn_id \<Rightarrow> 64 word \<Rightarrow> 'w \<Rightarrow> 'w sys_result" where
  "set_keepalive_idle sys fd secs = set_socket_option sys fd IPPROTO_TCP TCP_KEEPIDLE (ucast secs)"

definition set_keepalive_interval :: "'w setsockopt \<Rightarrow> conn_id \<Rightarrow> 64 word \<Rightarrow> 'w \<Rightarrow> 'w sys_result" where
  "set_keepalive_interval sys fd secs = set_socket_option sys fd IPPROTO_TCP TCP_KEEPINTVL (ucast secs)"

definition set_keepalive_count :: "'w setsockopt \<Rightarrow> conn_id \<Rightarrow> 64 word \<Rightarrow> 'w \<Rightarrow> 'w sys_result" where
  "set_keepalive_count sys fd probes = set_socket_option sys fd IPPROTO_TCP TCP_KEEPCNT (ucast probes)"

definition set_tcp_keepalive :: "'w setsockopt \<Rightarrow> conn_id \<Rightarrow> keepalive_config \<Rightarrow> 'w \<Rightarrow> 'w sys_result" where
  "set_tcp_keepalive sys fd config w =
     and_also (set_keepalive_flag sys fd True w) (\<lambda>w.
     and_also (set_keepalive_idle sys fd (ka_idle config) w) (\<lambda>w.
     and_also (set_keepalive_interval sys fd (ka_interval config) w) (\<lambda>w.
       set_keepalive_count sys fd (ka_count config) w)))"

definition set_tcp_fastopen :: "'w setsockopt \<Rightarrow> conn_id \<Rightarrow> c_int \<Rightarrow> 'w \<Rightarrow> 'w sys_result" where
  "set_tcp_fastopen sys fd qlen = set_socket_option sys fd IPPROTO_TCP TCP_FASTOPEN qlen"

definition set_tcp_fastopen_connect :: "'w setsockopt \<Rightarrow> conn_id \<Rightarrow> 'w \<Rightarrow> 'w sys_result" where
  "set_tcp_fastopen_connect sys fd = set_socket_option sys fd IPPROTO_TCP TCP_FASTOPEN_CONNECT 1"

definition set_tcp_fastopen_backlog :: "'w setsockopt \<Rightarrow> conn_id \<Rightarrow> 64 word \<Rightarrow> 'w \<Rightarrow> 'w sys_result" where
  "set_tcp_fastopen_backlog sys fd backlog = set_socket_option sys fd IPPROTO_TCP TCP_FASTOPEN (ucast backlog)"

definition set_tcp_nodelay :: "'w setsockopt \<Rightarrow> conn_id \<Rightarrow> bool \<Rightarrow> 'w \<Rightarrow> 'w sys_result" where
  "set_tcp_nodelay sys fd enable = set_socket_option sys fd IPPROTO_TCP TCP_NODELAY (c_bool enable)"

definition set_tcp_quickack :: "'w setsockopt \<Rightarrow> conn_id \<Rightarrow> bool \<Rightarrow> 'w \<Rightarrow> 'w sys_result" where
  "set_tcp_quickack sys fd enable = set_socket_option sys fd IPPROTO_TCP TCP_QUICKACK (c_bool enable)"

definition set_reuse_port :: "'w setsockopt \<Rightarrow> conn_id \<Rightarrow> 'w \<Rightarrow> 'w sys_result" where
  "set_reuse_port sys fd = set_socket_option sys fd SOL_SOCKET SO_REUSEPORT 1"

definition set_recv_buf :: "'w setsockopt \<Rightarrow> conn_id \<Rightarrow> 64 word \<Rightarrow> 'w \<Rightarrow> 'w sys_result" where
  "set_recv_buf sys fd bytes = set_socket_option sys fd SOL_SOCKET SO_RCVBUF (ucast bytes)"

definition set_defer_accept :: "'w setsockopt \<Rightarrow> conn_id \<Rightarrow> c_int \<Rightarrow> 'w \<Rightarrow> 'w sys_result" where
  "set_defer_accept sys fd timeout = set_socket_option sys fd IPPROTO_TCP TCP_DEFER_ACCEPT timeout"

definition set_window_clamp :: "'w setsockopt \<Rightarrow> conn_id \<Rightarrow> c_int \<Rightarrow> 'w \<Rightarrow> 'w sys_result" where
  "set_window_clamp sys fd bytes = set_socket_option sys fd IPPROTO_TCP TCP_WINDOW_CLAMP bytes"

definition set_priority :: "'w setsockopt \<Rightarrow> conn_id \<Rightarrow> c_int \<Rightarrow> 'w \<Rightarrow> 'w sys_result" where
  "set_priority sys fd priority = set_socket_option sys fd SOL_SOCKET SO_PRIORITY priority"

definition set_bind_address_no_port :: "'w setsockopt \<Rightarrow> conn_id \<Rightarrow> bool \<Rightarrow> 'w \<Rightarrow> 'w sys_result" where
  "set_bind_address_no_port sys fd enable = set_socket_option sys fd IPPROTO_IP IP_BIND_ADDRESS_NO_PORT (c_bool enable)"

text \<open>\<open>ENOPROTOOPT\<close> of Linux: a kernel without the option is not an error.\<close>

definition enoprotoopt :: nat where
  "enoprotoopt = 92"

definition port_range :: "16 word \<Rightarrow> 16 word \<Rightarrow> c_int" where
  "port_range low high = ucast low OR push_bit 16 (ucast high)"

definition ip_local_port_range :: "'w setsockopt \<Rightarrow> conn_id \<Rightarrow> 16 word \<Rightarrow> 16 word \<Rightarrow> 'w \<Rightarrow> 'w sys_result" where
  "ip_local_port_range sys fd low high w =
     (case set_socket_option sys fd IPPROTO_IP IP_LOCAL_PORT_RANGE (port_range low high) w of
        (Inl e, w') \<Rightarrow> (if e \<noteq> Errno enoprotoopt then (Inl e, w') else (Inr (), w'))
      | (Inr u, w') \<Rightarrow> (Inr (), w'))"

section \<open>Addresses of a descriptor\<close>

text \<open>What the system reports: IPv4, IPv6, a Unix address with its path if it has one, or another family.\<close>

datatype sock_storage =
  StIn "32 word" "16 word"
| StIn6 "128 word" "16 word" "32 word" "32 word"
| StUnix "string option"
| StOther

definition from_storage :: "(string \<Rightarrow> bool) \<Rightarrow> sock_storage \<Rightarrow> socket_address option" where
  "from_storage is_path sock =
     (case sock of
        StIn ip port \<Rightarrow> Some (SockTcp (AddrV4 ip port))
      | StIn6 ip port flow scope \<Rightarrow> Some (SockTcp (AddrV6 ip port flow scope))
      | StUnix (Some path) \<Rightarrow> (if is_path path then Some (SockUnix (Some path)) else None)
      | StUnix None \<Rightarrow> None
      | StOther \<Rightarrow> None)"

type_synonym sock_names = "bool \<Rightarrow> conn_id \<Rightarrow> sock_storage option"

text \<open>\<open>names True\<close> is \<open>getpeername\<close>, \<open>names False\<close> is \<open>getsockname\<close>.\<close>

definition from_raw_fd :: "(string \<Rightarrow> bool) \<Rightarrow> sock_names \<Rightarrow> conn_id \<Rightarrow> bool \<Rightarrow> socket_address option" where
  "from_raw_fd is_path names fd peer_address =
     (case names peer_address fd of Some sock \<Rightarrow> from_storage is_path sock | None \<Rightarrow> None)"

definition set_dscp :: "(string \<Rightarrow> bool) \<Rightarrow> sock_names \<Rightarrow> 'w setsockopt \<Rightarrow> conn_id \<Rightarrow> 8 word \<Rightarrow> 'w \<Rightarrow> 'w sys_result" where
  "set_dscp is_path names sys fd v w =
     (case Option.bind (from_raw_fd is_path names fd False) as_tcp of
        None \<Rightarrow> (Inl (InvalidInput ''failed to set dscp, invalid IP socket''), w)
      | Some a \<Rightarrow>
          if is_ipv4 a then set_socket_option sys fd IPPROTO_IP IP_TOS (ucast v) w
          else set_socket_option sys fd IPPROTO_IPV6 IPV6_TCLASS (ucast v) w)"

section \<open>Options of a connection stream\<close>

text \<open>Only a TCP stream has options, and failing to set one ends the task.\<close>

definition or_die :: "'w sys_result \<Rightarrow> unit outcome \<times> 'w" where
  "or_die r = (case r of (Inl e, w) \<Rightarrow> (Panic ''socket option'', w) | (Inr u, w) \<Rightarrow> (Ok (), w))"

definition set_no_delay :: "('t, 'b) buf_ops \<Rightarrow> 'w setsockopt \<Rightarrow> 'b stream_type \<Rightarrow> 'w \<Rightarrow> unit outcome \<times> 'w" where
  "set_no_delay B sys s w =
     (case bf_get B (st_stream s) of
        RawTcp t \<Rightarrow> or_die (set_socket_option sys (sk_fd B t) IPPROTO_TCP TCP_NODELAY 1 w)
      | RawUnix t \<Rightarrow> (Ok (), w))"

definition stream_set_keepalive ::
  "('t, 'b) buf_ops \<Rightarrow> 'w setsockopt \<Rightarrow> keepalive_config \<Rightarrow> 'b stream_type \<Rightarrow> 'w \<Rightarrow> unit outcome \<times> 'w" where
  "stream_set_keepalive B sys config s w =
     (case bf_get B (st_stream s) of
        RawTcp t \<Rightarrow> or_die (set_tcp_keepalive sys (sk_fd B t) config w)
      | RawUnix t \<Rightarrow> (Ok (), w))"

section \<open>Facts\<close>

text \<open>The two ports of a range are read back from the packed word.\<close>

lemma port_range_low: "ucast (port_range low high) = low"
  by (rule bit_word_eqI) (auto simp: port_range_def bit_simps)

lemma port_range_high: "ucast (drop_bit 16 (port_range low high)) = high"
  by (rule bit_word_eqI) (auto simp: port_range_def bit_simps dest: bit_imp_le_length)

lemma port_range_inj: "port_range low high = port_range low' high' \<longleftrightarrow> low = low' \<and> high = high'"
  by (metis port_range_high port_range_low)

text \<open>Setting options one after the other: on success all were set, in order; the first failure ends it.\<close>

definition sets :: "'w setsockopt \<Rightarrow> conn_id \<Rightarrow> (so_level \<times> so_name \<times> c_int) list \<Rightarrow> 'w \<Rightarrow> 'w sys_result" where
  "sets sys fd opts w = foldl (\<lambda>r (l, n, v). and_also r (set_socket_option sys fd l n v)) (Inr (), w) opts"

lemma and_also_simps [simp]: "and_also (Inl e, w) f = (Inl e, w)" "and_also (Inr u, w) f = f w"
  by (simp_all add: and_also_def)

definition keepalive_options :: "keepalive_config \<Rightarrow> (so_level \<times> so_name \<times> c_int) list" where
  "keepalive_options config =
     [(SOL_SOCKET, SO_KEEPALIVE, 1), (IPPROTO_TCP, TCP_KEEPIDLE, ucast (ka_idle config)),
      (IPPROTO_TCP, TCP_KEEPINTVL, ucast (ka_interval config)), (IPPROTO_TCP, TCP_KEEPCNT, ucast (ka_count config))]"

lemma and_also_assoc: "and_also (and_also r f) g = and_also r (\<lambda>w. and_also (f w) g)"
  by (cases r; cases "fst r") simp_all

lemma set_tcp_keepalive_options: "set_tcp_keepalive sys fd config w = sets sys fd (keepalive_options config) w"
  by (simp add: set_tcp_keepalive_def sets_def keepalive_options_def set_keepalive_flag_def set_keepalive_idle_def
      set_keepalive_interval_def set_keepalive_count_def c_bool_def and_also_assoc)

text \<open>
  The table of options of a system that accepts every value: after \<open>sets\<close> each option has its last value.
\<close>

definition table_sys :: "(conn_id \<times> so_level \<times> so_name \<Rightarrow> c_int) setsockopt" where
  "table_sys fd l n v w = (None, w((fd, l, n) := v))"

lemma keepalive_table:
  "set_tcp_keepalive table_sys fd config w =
    (Inr (), w((fd, SOL_SOCKET, SO_KEEPALIVE) := 1, (fd, IPPROTO_TCP, TCP_KEEPIDLE) := ucast (ka_idle config),
       (fd, IPPROTO_TCP, TCP_KEEPINTVL) := ucast (ka_interval config), (fd, IPPROTO_TCP, TCP_KEEPCNT) := ucast (ka_count config)))"
  by (simp add: set_tcp_keepalive_options sets_def keepalive_options_def set_socket_option_def table_sys_def)

text \<open>
  A time below 2^31 seconds is passed on as it is; from there on the kernel is given another number: half a
  2^32 is negative, and 2^32 seconds are zero.
\<close>

lemma cast_secs: "uint (ucast secs :: c_int) = uint (secs :: 64 word) mod 2 ^ 32"
  by (simp add: unsigned_ucast_eq take_bit_eq_mod)

lemma cast_secs_exact: "uint (secs :: 64 word) < 2 ^ 31 \<Longrightarrow> sint (ucast secs :: c_int) = uint secs"
  using cast_secs [of secs] order_trans [OF _ unsigned_greater_eq, of "- (2 ^ 31) :: int" secs]
  by (simp add: sint_uint signed_take_bit_int_eq_self)

lemma cast_secs_wraps: "sint (ucast (2 ^ 31 :: 64 word) :: c_int) = - (2 ^ 31)" "ucast (2 ^ 32 :: 64 word) = (0 :: c_int)"
  by simp_all

text \<open>The address of a descriptor names a family the code can bind or connect to.\<close>

lemma from_raw_fd_tcp:
  "Option.bind (from_raw_fd is_path names fd False) as_tcp = Some a \<longleftrightarrow>
    (\<exists>ip port. a = AddrV4 ip port \<and> names False fd = Some (StIn ip port)) \<or>
    (\<exists>ip port flow scope. a = AddrV6 ip port flow scope \<and> names False fd = Some (StIn6 ip port flow scope))"
  by (auto simp: from_raw_fd_def from_storage_def as_tcp_def bind_eq_Some_conv split: option.splits sock_storage.splits if_splits)

lemma set_dscp_target:
  "set_dscp is_path names sys fd v w =
    (case names False fd of
       Some (StIn ip port) \<Rightarrow> set_socket_option sys fd IPPROTO_IP IP_TOS (ucast v) w
     | Some (StIn6 ip port flow scope) \<Rightarrow> set_socket_option sys fd IPPROTO_IPV6 IPV6_TCLASS (ucast v) w
     | _ \<Rightarrow> (Inl (InvalidInput ''failed to set dscp, invalid IP socket''), w))"
  by (auto simp: set_dscp_def from_raw_fd_def from_storage_def as_tcp_def split: option.splits sock_storage.splits)

end
