(* ===== verification/Connections.thy ===== *)
theory Connections
  imports Service
begin

text \<open>
  The connections of a service together (\<open>handle_connection\<close>, core/src/service/service.rs, over
  core/src/pool/stream.rs): each accepted connection is a task of its own, and the tasks of a worker
  interleave wherever they wait. A state has the pool, the system, the tasks and the watches of idle
  streams; \<open>conns_step\<close> moves one of them by what its code does up to its next wait.
\<close>

section \<open>The tasks\<close>

text \<open>
  \<open>Arrived\<close> is about to look into the pool for its peer, \<open>Connecting\<close> found nothing and opens a stream,
  \<open>Exchanging\<close> runs \<open>handle_process\<close> on the stream it holds.
\<close>

datatype 's conn_task =
    Arrived upstream_peer | Connecting upstream_peer | Exchanging upstream_peer 's | Finished | Panicked string

record ('s, 'q, 'c, 'w) conns =
  cs_pool :: "('s, 'q, 'c) conn_pool"
  cs_world :: 'w
  cs_tasks :: "'s conn_task list"
  cs_watches :: "idle_watch list"

definition conns_start :: "'w \<Rightarrow> ('s, 'q, 'c, 'w) conns" where
  "conns_start w = \<lparr>cs_pool = stream_manager_new None, cs_world = w, cs_tasks = [], cs_watches = []\<rparr>"

definition task_moves ::
  "nat \<Rightarrow> 's conn_task \<Rightarrow> ('s, 'q, 'c) conn_pool \<Rightarrow> ('s, 'q, 'c, 'w) conns \<Rightarrow> ('s, 'q, 'c, 'w) conns" where
  "task_moves i task P s = s\<lparr>cs_pool := P, cs_tasks := (cs_tasks s)[i := task]\<rparr>"

text \<open>The descriptors that are open: of the streams that wait and of the streams in use.\<close>

definition holds :: "('s, 'w) net_os \<Rightarrow> 's conn_task list \<Rightarrow> nat \<Rightarrow> conn_id \<Rightarrow> bool" where
  "holds os tasks i fd \<longleftrightarrow> i < length tasks \<and> (\<exists>peer srv. tasks ! i = Exchanging peer srv \<and> os_fd os srv = fd)"

definition fd_open :: "('s, 'w) net_os \<Rightarrow> ('s, 'q, 'c) env \<Rightarrow> ('s, 'q, 'c, 'w) conns \<Rightarrow> conn_id \<Rightarrow> bool" where
  "fd_open os E s fd \<longleftrightarrow> (\<exists>g. (g, fd) \<in> pool_entries E (cs_pool s)) \<or> (\<exists>i. holds os (cs_tasks s) i fd)"

text \<open>
  \<open>proc srv r\<close> stands for a run of \<open>handle_process\<close> on the accepted client and the server stream \<open>srv\<close> with
  result \<open>r\<close>: the same stream again, so with the same descriptor, an error or a panic. The system gives a
  new stream a descriptor that is not open. Whatever else moves the system does so at any time.
\<close>

inductive conns_step ::
  "peer_hash \<Rightarrow> ('s, 'w) net_os \<Rightarrow> ('s, 'q, 'c) env \<Rightarrow> thread \<Rightarrow> ('s \<Rightarrow> 's outcome \<Rightarrow> bool)
   \<Rightarrow> ('s, 'q, 'c, 'w) conns \<Rightarrow> ('s, 'q, 'c, 'w) conns \<Rightarrow> bool"
  for ahash os E t proc s where
  conn_accepted: "conns_step ahash os E t proc s (s\<lparr>cs_tasks := cs_tasks s @ [Arrived peer]\<rparr>)"
| conn_reuses: "i < length (cs_tasks s) \<Longrightarrow> cs_tasks s ! i = Arrived peer \<Longrightarrow>
    find_connection_stream ahash E t peer (cs_pool s) = Ok (Some srv, P) \<Longrightarrow>
    conns_step ahash os E t proc s (task_moves i (Exchanging peer srv) P s)"
| conn_misses: "i < length (cs_tasks s) \<Longrightarrow> cs_tasks s ! i = Arrived peer \<Longrightarrow>
    find_connection_stream ahash E t peer (cs_pool s) = Ok (None, P) \<Longrightarrow>
    conns_step ahash os E t proc s (task_moves i (Connecting peer) P s)"
| conn_unhashed: "i < length (cs_tasks s) \<Longrightarrow> cs_tasks s ! i = Arrived peer \<Longrightarrow>
    find_connection_stream ahash E t peer (cs_pool s) = Panic p \<Longrightarrow>
    conns_step ahash os E t proc s (task_moves i (Panicked p) (cs_pool s) s)"
| conn_opens: "i < length (cs_tasks s) \<Longrightarrow> cs_tasks s ! i = Connecting peer \<Longrightarrow>
    new_stream_connection os peer (cs_world s) = (Ok srv, w) \<Longrightarrow> \<not> fd_open os E s (os_fd os srv) \<Longrightarrow>
    conns_step ahash os E t proc s ((task_moves i (Exchanging peer srv) (cs_pool s) s)\<lparr>cs_world := w\<rparr>)"
| conn_no_stream: "i < length (cs_tasks s) \<Longrightarrow> cs_tasks s ! i = Connecting peer \<Longrightarrow>
    new_stream_connection os peer (cs_world s) = (r, w) \<Longrightarrow> (\<forall>x. r \<noteq> Ok x) \<Longrightarrow>
    conns_step ahash os E t proc s ((task_moves i
      (Panicked (case r of Panic p \<Rightarrow> p | _ \<Rightarrow> ''error getting stream from pool'')) (cs_pool s) s)\<lparr>cs_world := w\<rparr>)"
| conn_served: "i < length (cs_tasks s) \<Longrightarrow> cs_tasks s ! i = Exchanging peer srv \<Longrightarrow>
    proc srv (Ok srv') \<Longrightarrow> os_fd os srv' = os_fd os srv \<Longrightarrow>
    return_stream_connection ahash os E t srv' peer (cs_pool s) = Ok (watch, P) \<Longrightarrow>
    conns_step ahash os E t proc s ((task_moves i Finished P s)
      \<lparr>cs_watches := cs_watches s @ (case watch of None \<Rightarrow> [] | Some x \<Rightarrow> [x])\<rparr>)"
| conn_failed: "i < length (cs_tasks s) \<Longrightarrow> cs_tasks s ! i = Exchanging peer srv \<Longrightarrow> proc srv (Err e) \<Longrightarrow>
    conns_step ahash os E t proc s (task_moves i (Panicked ''error during io copy'') (cs_pool s) s)"
| conn_panicked: "i < length (cs_tasks s) \<Longrightarrow> cs_tasks s ! i = Exchanging peer srv \<Longrightarrow> proc srv (Panic p) \<Longrightarrow>
    conns_step ahash os E t proc s (task_moves i (Panicked p) (cs_pool s) s)"
| idle_ends: "(m, secs, handles) \<in> set (cs_watches s) \<Longrightarrow>
    connection_idle_timeout E t m elapsed handles (cs_pool s) = (Some ev, P) \<Longrightarrow>
    conns_step ahash os E t proc s (s\<lparr>cs_pool := P, cs_watches := remove1 (m, secs, handles) (cs_watches s)\<rparr>)"
| world_moves: "conns_step ahash os E t proc s (s\<lparr>cs_world := w\<rparr>)"

abbreviation conns_run ::
  "peer_hash \<Rightarrow> ('s, 'w) net_os \<Rightarrow> ('s, 'q, 'c) env \<Rightarrow> thread \<Rightarrow> ('s \<Rightarrow> 's outcome \<Rightarrow> bool)
   \<Rightarrow> ('s, 'q, 'c, 'w) conns \<Rightarrow> ('s, 'q, 'c, 'w) conns \<Rightarrow> bool" where
  "conns_run ahash os E t proc \<equiv> (conns_step ahash os E t proc)\<^sup>*\<^sup>*"

lemma task_moves_simps [simp]:
  "cs_pool (task_moves i task P s) = P" "cs_world (task_moves i task P s) = cs_world s"
  "cs_tasks (task_moves i task P s) = (cs_tasks s)[i := task]" "cs_watches (task_moves i task P s) = cs_watches s"
  by (simp_all add: task_moves_def)

text \<open>
  A task that is not disturbed gets what \<open>get_stream_connection\<close> yields, in one step when a stream waits and
  in two when one is opened.
\<close>

lemma stream_in_steps:
  assumes "i < length (cs_tasks s)" "cs_tasks s ! i = Arrived peer"
    and "get_stream_connection ahash os E t peer (cs_pool s) (cs_world s) = (Ok (srv, reused), P, w)"
    and "\<not> reused \<Longrightarrow> \<not> fd_open os E (task_moves i (Connecting peer) P s) (os_fd os srv)"
  shows "conns_run ahash os E t proc s ((task_moves i (Exchanging peer srv) P s)\<lparr>cs_world := w\<rparr>)"
proof (cases reused)
  case True
  then have "find_connection_stream ahash E t peer (cs_pool s) = Ok (Some srv, P)" "w = cs_world s"
    using assms(3) by (auto simp: get_stream_connection_def split: outcome.splits option.splits prod.splits)
  with conn_reuses [OF assms(1,2)] show ?thesis by (auto simp: task_moves_def)
next
  case False
  then have miss: "find_connection_stream ahash E t peer (cs_pool s) = Ok (None, P)"
      "new_stream_connection os peer (cs_world s) = (Ok srv, w)"
    using assms(3) by (auto simp: get_stream_connection_def split: outcome.splits option.splits prod.splits)
  let ?t = "task_moves i (Connecting peer) P s"
  have "conns_step ahash os E t proc s ?t" by (rule conn_misses [OF assms(1,2) miss(1)])
  moreover have "conns_step ahash os E t proc ?t ((task_moves i (Exchanging peer srv) (cs_pool ?t) ?t)\<lparr>cs_world := w\<rparr>)"
    by (rule conn_opens) (use assms(1,4) False miss(2) in simp_all)
  moreover have "(task_moves i (Exchanging peer srv) (cs_pool ?t) ?t)\<lparr>cs_world := w\<rparr>
      = (task_moves i (Exchanging peer srv) P s)\<lparr>cs_world := w\<rparr>"
    by (simp add: task_moves_def)
  ultimately show ?thesis by (metis converse_rtranclp_into_rtranclp r_into_rtranclp)
qed

section \<open>What becomes of a waiting connection\<close>

text \<open>
  Every operation of the pool keeps a waiting connection or tells its watch: \<open>pool_keeps\<close> relates the pool before
  to the pool after, but for the connections in \<open>new\<close>.
\<close>

definition told :: "('s, 'q, 'c) conn_pool \<Rightarrow> nat \<Rightarrow> bool" where
  "told P h \<longleftrightarrow> h \<in> fst ` set (cp_signals P)"

definition pool_keeps ::
  "('s, 'q, 'c) env \<Rightarrow> (group_id \<times> conn_id \<times> 's conn_notifier) set \<Rightarrow> ('s, 'q, 'c) conn_pool \<Rightarrow> ('s, 'q, 'c) conn_pool \<Rightarrow> bool" where
  "pool_keeps E new P P' \<longleftrightarrow> (\<forall>h. told P h \<longrightarrow> told P' h) \<and>
     (\<forall>g i cn. (i, cn) \<in># pool_items E P g \<longrightarrow> (i, cn) \<in># pool_items E P' g \<or> told P' (cnt_sender cn)) \<and>
     (\<forall>g i cn. (i, cn) \<in># pool_items E P' g \<longrightarrow> (i, cn) \<in># pool_items E P g \<or> (g, i, cn) \<in> new)"

lemma keeps_find:
  assumes "nodes_ok E P" "get_connection_from_pool E t g P = (r, P')"
  shows "pool_keeps E {} P P'"
proof (cases "cp_pool P g")
  case None
  then show ?thesis using assms(2) by (simp add: get_connection_from_pool_def pool_keeps_def)
next
  case (Some n)
  then have "node_ok E n" using assms(1) by (simp add: nodes_ok_def)
  from take_node [OF this] obtain e n' where take: "get_available_connection E n = (e, n')"
      "case e of None \<Rightarrow> node_items E n = [] \<and> node_items E n' = []
        | Some e \<Rightarrow> mset (node_items E n) = add_mset e (mset (node_items E n'))" by blast
  have here: "pool_items E P g = mset (node_items E n)" using Some by (simp add: pool_items_def)
  show ?thesis
  proof (cases e)
    case None
    with take here Some assms(2) show ?thesis by (auto simp: get_connection_from_pool_def pool_keeps_def told_def split: if_splits)
  next
    case (Some x)
    obtain i cn where "x = (i, cn)" by (cases x)
    with take here Some \<open>cp_pool P g = Some n\<close> assms(2) show ?thesis
      by (auto simp: get_connection_from_pool_def pick_up_connection_def pool_keeps_def told_def split: if_splits)
  qed
qed

lemma keeps_remove:
  assumes "nodes_ok E P"
  shows "pool_keeps E {} P (remove_connection_from_pool E m P)"
proof (cases "cp_pool P (md_group m)")
  case None
  then show ?thesis by (simp add: remove_connection_from_pool_def pool_keeps_def)
next
  case (Some n)
  then have ok: "node_ok E n" using assms by (simp add: nodes_ok_def)
  have here: "pool_items E P (md_group m) = mset (node_items E n)" using Some by (simp add: pool_items_def)
  show ?thesis
  proof (cases "md_id m \<in> fst ` set (node_items E n)")
    case True
    then obtain cn where "(md_id m, cn) \<in> set (node_items E n)" by auto
    from remove_node_present [OF ok this] obtain n' where "node_remove_connection E (md_id m) n = (Some cn, n')"
        "mset (node_items E n) = add_mset (md_id m, cn) (mset (node_items E n'))" by blast
    with here Some show ?thesis by (auto simp: remove_connection_from_pool_def pool_keeps_def told_def)
  next
    case False
    with remove_node_absent [OF ok False] here Some show ?thesis
      by (auto simp: remove_connection_from_pool_def pool_keeps_def told_def split: if_splits)
  qed
qed

lemma keeps_frame [simp]:
  "pool_keeps E new P (P'\<lparr>cp_lru := lr\<rparr>) = pool_keeps E new P P'" "pool_keeps E new (P\<lparr>cp_lru := lr\<rparr>) P' = pool_keeps E new P P'"
  "pool_keeps E new P (P'\<lparr>cp_channels := k\<rparr>) = pool_keeps E new P P'"
  by (simp_all add: pool_keeps_def told_def)

lemma keeps_add:
  assumes "nodes_ok E P" "md_id m \<notin> fst ` set_mset (pool_items E P (md_group m))"
    and "add_connection_to_pool E t m s P = ((closed, h), P')"
  shows "pool_keeps E {(md_group m, md_id m, \<lparr>cnt_sender = h, cnt_connection = s\<rparr>)} P P'"
    and "(md_id m, \<lparr>cnt_sender = h, cnt_connection = s\<rparr>) \<in># pool_items E P' (md_group m)"
proof -
  obtain replaced lr where lru: "lru_add_new_connection (pe_lru E) t (md_id m) m (cp_lru P) = ((closed, replaced), lr)"
    using assms(3) by (auto simp: add_connection_to_pool_def Let_def split: prod.splits)
  define P2 where "P2 = (case replaced of Some old \<Rightarrow> remove_connection_from_pool E old (P\<lparr>cp_lru := lr\<rparr>)
      | None \<Rightarrow> P\<lparr>cp_lru := lr\<rparr>)"
  have keeps: "pool_keeps E {} P P2"
    using keeps_remove [of E "P\<lparr>cp_lru := lr\<rparr>"] assms(1) by (simp add: P2_def pool_keeps_def told_def split: option.split)
  have nodes: "nodes_ok E P2"
    using remove_from_pool_items(1) [of E "P\<lparr>cp_lru := lr\<rparr>"] assms(1) by (simp add: P2_def split: option.split)
  obtain n P3 where node: "get_connection_node E (md_group m) P2 = (n, P3)" by fastforce
  note got = get_connection_node_items [OF nodes node]
  have sub: "set_mset (pool_items E P2 (md_group m)) \<subseteq> set_mset (pool_items E P (md_group m))"
    using keeps by (auto simp: pool_keeps_def)
  then have new: "md_id m \<notin> fst ` set (node_items E n)"
    using assms(2) arg_cong [OF got(3), of set_mset] by auto
  let ?cn = "\<lparr>cnt_sender = cp_channels P3, cnt_connection = s\<rparr>"
  let ?n = "node_add_new_connection E (md_id m) ?cn n"
  have added: "mset (node_items E ?n) = add_mset (md_id m, ?cn) (pool_items E P2 (md_group m))"
    using add_node [OF got(1) new, of ?cn] got(3) by simp
  have run: "h = cp_channels P3" "P' = P3\<lparr>cp_channels := Suc h, cp_pool := (cp_pool P3)(md_group m \<mapsto> ?n)\<rparr>"
    using assms(3) lru node by (simp_all add: add_connection_to_pool_def P2_def Let_def split: option.splits)
  have items: "pool_items E P' = (pool_items E P2)(md_group m := add_mset (md_id m, ?cn) (pool_items E P2 (md_group m)))"
    using added got(4) run by (simp add: pool_items_def fun_eq_iff)
  have signals: "cp_signals P' = cp_signals P2" using run got(6) by simp
  show "(md_id m, \<lparr>cnt_sender = h, cnt_connection = s\<rparr>) \<in># pool_items E P' (md_group m)" using items run by simp
  show "pool_keeps E {(md_group m, md_id m, \<lparr>cnt_sender = h, cnt_connection = s\<rparr>)} P P'"
    using keeps items signals run(1) by (auto simp: pool_keeps_def told_def split: if_splits)
qed

lemma keeps_entries:
  assumes "pool_keeps E new P P'" "(g, i) \<in> pool_entries E P'"
  shows "(g, i) \<in> pool_entries E P \<or> (\<exists>cn. (g, i, cn) \<in> new)"
proof -
  obtain cn where "(i, cn) \<in># pool_items E P' g" using assms(2) by (auto simp: pool_entries_def)
  with assms(1) show ?thesis by (force simp: pool_keeps_def pool_entries_def)
qed

lemma found_gone:
  assumes "pool_inv E t P" "get_connection_from_pool E t g P = (Some c, P')"
  shows "\<exists>i cn. cnt_connection cn = c \<and> (i, cn) \<in># pool_items E P g \<and> (\<forall>g'. (g', i) \<notin> pool_entries E P')"
proof -
  have nodes: "nodes_ok E P" using assms(1) by (simp add: pool_inv_def)
  obtain i cn where found: "cnt_connection cn = c" "(i, cn) \<in># pool_items E P g"
      "pool_items E P' = (pool_items E P)(g := pool_items E P g - {#(i, cn)#})"
    using abs_find [OF nodes, where t = t and g = g] assms(2) by auto
  obtain n where n: "pool_items E P g = mset (node_items E n)" "node_ok E n"
    using found(2) nodes by (auto simp: pool_items_def nodes_ok_def split: option.splits)
  obtain ys where ys: "pool_items E P g - {#(i, cn)#} = mset ys" using ex_mset by metis
  have "mset (node_items E n) = add_mset (i, cn) (mset ys)" using found(2) n(1) ys by (metis insert_DiffM)
  then have here: "i \<notin> fst ` set ys" using node_ids_distinct [OF n(2)] by auto
  have "g' = g" if "(g', i) \<in> pool_entries E P" for g'
    using pool_inv_bound(3) [OF assms(1) that] found(2) by (force simp: pool_entries_def)
  then have "(g', i) \<notin> pool_entries E P'" for g'
    using here ys found(3) by (auto simp: pool_entries_def split: if_splits)
  then show ?thesis using found(1,2) by blast
qed

section \<open>The invariant\<close>

text \<open>
  The pool and its cache agree; what waits is filed under its own descriptor; no descriptor is both waiting
  and in use or in use twice; and a watch that was not told anything has its stream waiting.
\<close>

definition watched :: "('s, 'q, 'c) env \<Rightarrow> ('s, 'q, 'c) conn_pool \<Rightarrow> idle_watch \<Rightarrow> bool" where
  "watched E P = (\<lambda>(m, secs, closed, h). told P h \<or>
     (\<exists>cn. (md_id m, cn) \<in># pool_items E P (md_group m) \<and> cnt_sender cn = h))"

definition filed :: "('s, 'w) net_os \<Rightarrow> ('s, 'q, 'c) env \<Rightarrow> ('s, 'q, 'c) conn_pool \<Rightarrow> bool" where
  "filed os E P \<longleftrightarrow> (\<forall>g i cn. (i, cn) \<in># pool_items E P g \<longrightarrow> os_fd os (cnt_connection cn) = i)"

definition apart :: "('s, 'w) net_os \<Rightarrow> ('s, 'q, 'c) env \<Rightarrow> ('s, 'q, 'c) conn_pool \<Rightarrow> 's conn_task list \<Rightarrow> bool" where
  "apart os E P tasks \<longleftrightarrow> (\<forall>i fd. holds os tasks i fd \<longrightarrow>
     (\<forall>g. (g, fd) \<notin> pool_entries E P) \<and> (\<forall>j. holds os tasks j fd \<longrightarrow> i = j))"

definition conns_inv :: "('s, 'w) net_os \<Rightarrow> ('s, 'q, 'c) env \<Rightarrow> thread \<Rightarrow> ('s, 'q, 'c, 'w) conns \<Rightarrow> bool" where
  "conns_inv os E t s \<longleftrightarrow>
     pool_inv E t (cs_pool s) \<and> cl_capacity (cp_lru (cs_pool s)) = default_pool_size \<and>
     filed os E (cs_pool s) \<and> apart os E (cs_pool s) (cs_tasks s) \<and> (\<forall>x\<in>set (cs_watches s). watched E (cs_pool s) x)"

lemma conns_inv_start: "pool_env_laws E \<Longrightarrow> conns_inv os E t (conns_start w)"
  using pool_inv_new [of E default_pool_size t]
  by (simp add: conns_inv_def conns_start_def stream_manager_new_def unwrap_or_def default_pool_size_def filed_def apart_def
      holds_def)
     (simp add: pool_new_def lru_new_def pool_items_def)

lemma holds_update:
  "i < length tasks \<Longrightarrow> holds os (tasks[i := task]) k fd \<longleftrightarrow>
     (if k = i then \<exists>peer srv. task = Exchanging peer srv \<and> os_fd os srv = fd else holds os tasks k fd)"
  by (auto simp: holds_def)

lemma watched_keeps: "pool_keeps E new P P' \<Longrightarrow> watched E P x \<Longrightarrow> watched E P' x"
  by (cases x) (simp add: watched_def pool_keeps_def, metis)

lemma conns_inv_moves:
  assumes "conns_inv os E t s" "pool_inv E t (cs_pool s')"
    and "cl_capacity (cp_lru (cs_pool s')) = cl_capacity (cp_lru (cs_pool s))"
    and "pool_keeps E new (cs_pool s) (cs_pool s')" "\<forall>(g, i, cn)\<in>new. os_fd os (cnt_connection cn) = i"
    and "apart os E (cs_pool s') (cs_tasks s')"
    and "\<forall>x\<in>set (cs_watches s'). x \<in> set (cs_watches s) \<or> watched E (cs_pool s') x"
  shows "conns_inv os E t s'"
  using assms watched_keeps [OF assms(4)]
  by (auto simp: conns_inv_def filed_def) (fastforce simp: pool_keeps_def)

lemma conns_inv_same_pool:
  assumes "conns_inv os E t s" "cs_pool s' = cs_pool s" "cs_watches s' = cs_watches s" "apart os E (cs_pool s) (cs_tasks s')"
  shows "conns_inv os E t s'"
  using assms by (simp add: conns_inv_def)

text \<open>A task that does not take a stream over leaves less in use.\<close>

lemma apart_less:
  assumes "apart os E P tasks" "pool_entries E P' \<subseteq> pool_entries E P" "i < length tasks" "\<And>peer srv. task \<noteq> Exchanging peer srv"
  shows "apart os E P' (tasks[i := task])"
  using assms by (auto simp: apart_def holds_update)

lemma apart_takes:
  assumes "apart os E P tasks" "pool_entries E P' \<subseteq> pool_entries E P" "i < length tasks"
    and "\<And>k. \<not> holds os tasks k (os_fd os srv)" "\<And>g. (g, os_fd os srv) \<notin> pool_entries E P'"
  shows "apart os E P' (tasks[i := Exchanging peer srv])"
  using assms by (auto simp: apart_def holds_update)

lemma apart_gives:
  assumes "apart os E P tasks" "holds os tasks i fd"
    and "\<And>g k. (g, k) \<in> pool_entries E P' \<Longrightarrow> (g, k) \<in> pool_entries E P \<or> k = fd"
  shows "apart os E P' (tasks[i := Finished])"
proof -
  have "i < length tasks" using assms(2) by (simp add: holds_def)
  moreover have "fd' \<noteq> fd \<and> (g, fd') \<notin> pool_entries E P'" if "holds os tasks k fd'" "k \<noteq> i" for k fd' g
    using that assms by (metis apart_def)
  ultimately show ?thesis
    using assms(1) by (auto simp: apart_def holds_update split: if_splits)
qed

lemma keeps_none: "pool_keeps E {} P P' \<Longrightarrow> pool_entries E P' \<subseteq> pool_entries E P"
  using keeps_entries [of E "{}" P P'] by auto

lemma keeps_same [simp]: "pool_keeps E {} P P"
  by (simp add: pool_keeps_def)

text \<open>Looking into the pool, for any peer.\<close>

lemma inv_find:
  assumes "conns_inv os E t s" "find_connection_stream ahash E t peer (cs_pool s) = Ok (r, P)"
  shows "pool_inv E t P" "cl_capacity (cp_lru P) = cl_capacity (cp_lru (cs_pool s))" "pool_keeps E {} (cs_pool s) P"
    "r = Some srv \<Longrightarrow> (\<forall>k. \<not> holds os (cs_tasks s) k (os_fd os srv)) \<and> (\<forall>g. (g, os_fd os srv) \<notin> pool_entries E P)"
proof -
  have inv: "pool_inv E t (cs_pool s)" "filed os E (cs_pool s)" "apart os E (cs_pool s) (cs_tasks s)"
    using assms(1) by (simp_all add: conns_inv_def)
  obtain g where get: "get_connection_from_pool E t g (cs_pool s) = (r, P)"
    using assms(2) by (cases "get_group_id ahash peer") (auto simp: find_connection_stream_def)
  show "pool_inv E t P" using pool_inv_find [OF inv(1), of g] get by simp
  show "cl_capacity (cp_lru P) = cl_capacity (cp_lru (cs_pool s))" using capacity_kept(1) [of E t g "cs_pool s"] get by simp
  show "pool_keeps E {} (cs_pool s) P" using keeps_find [OF _ get] inv(1) by (simp add: pool_inv_def)
  assume "r = Some srv"
  with found_gone [OF inv(1)] get obtain i cn where found: "cnt_connection cn = srv" "(i, cn) \<in># pool_items E (cs_pool s) g"
      "\<forall>g'. (g', i) \<notin> pool_entries E P" by blast
  then have i: "os_fd os srv = i" using inv(2) by (auto simp: filed_def)
  have "(g, i) \<in> pool_entries E (cs_pool s)" using found(2) by (force simp: pool_entries_def)
  then have "\<not> holds os (cs_tasks s) k i" for k using inv(3) by (auto simp: apart_def)
  then show "(\<forall>k. \<not> holds os (cs_tasks s) k (os_fd os srv)) \<and> (\<forall>g. (g, os_fd os srv) \<notin> pool_entries E P)"
    using i found(3) by simp
qed

text \<open>Returning a stream that a task holds.\<close>

lemma inv_return:
  assumes "conns_inv os E t s" "holds os (cs_tasks s) i (os_fd os srv)"
    and "return_stream_connection ahash os E t srv peer (cs_pool s) = Ok (watch, P)"
  shows "\<exists>g cn. pool_inv E t P \<and> cl_capacity (cp_lru P) = cl_capacity (cp_lru (cs_pool s)) \<and>
    get_group_id ahash peer = Ok g \<and> (os_fd os srv, cn) \<in># pool_items E P g \<and>
    pool_keeps E {(g, os_fd os srv, cn)} (cs_pool s) P \<and> cnt_connection cn = srv \<and>
    (case watch of None \<Rightarrow> True | Some x \<Rightarrow> watched E P x)"
proof -
  have inv: "pool_inv E t (cs_pool s)" "apart os E (cs_pool s) (cs_tasks s)" using assms(1) by (simp_all add: conns_inv_def)
  obtain g where g: "get_group_id ahash peer = Ok g"
    using assms(3) by (cases "get_group_id ahash peer") (auto simp: return_stream_connection_def)
  let ?m = "conn_meta_new g (os_fd os srv)"
  obtain closed h where add: "add_connection_to_pool E t ?m srv (cs_pool s) = ((closed, h), P)"
    and watch: "watch = map_option (\<lambda>secs. (?m, secs, closed, h)) (up_timeout peer)"
    using assms(3) g by (auto simp: return_stream_connection_def Let_def split: prod.splits)
  have id: "md_id ?m = os_fd os srv" by (simp add: conn_meta_new_def)
  have free: "(g', os_fd os srv) \<notin> pool_entries E (cs_pool s)" for g' using inv(2) assms(2) by (auto simp: apart_def)
  then have "md_id ?m \<notin> fst ` set_mset (pool_items E (cs_pool s) (md_group ?m))"
    unfolding id by (force simp: pool_entries_def)
  note keeps = keeps_add [OF _ this add]
  have "nodes_ok E (cs_pool s)" using inv(1) by (simp add: pool_inv_def)
  note keeps = keeps [OF this]
  have "pool_inv E t (snd (add_connection_to_pool E t ?m srv (cs_pool s)))"
    by (rule pool_inv_add [OF inv(1)]) (use free id in force)
  moreover have "cl_capacity (cp_lru P) = cl_capacity (cp_lru (cs_pool s))"
    using capacity_kept(3) [of E t ?m srv "cs_pool s"] add by simp
  moreover have "case watch of None \<Rightarrow> True | Some x \<Rightarrow> watched E P x"
    using keeps(2) watch by (auto simp: watched_def split: option.split)
  ultimately show ?thesis
    using add keeps g id by (intro exI [of _ g] exI [of _ "\<lparr>cnt_sender = h, cnt_connection = srv\<rparr>"])
      (simp add: conn_meta_new_def)
qed

text \<open>A watch that closes its stream was told nothing, so its stream waits under its own group.\<close>

lemma inv_idle:
  assumes "conns_inv os E t s" "(m, secs, handles) \<in> set (cs_watches s)"
    and "connection_idle_timeout E t m elapsed handles (cs_pool s) = (r, P)"
  shows "pool_inv E t P \<and> cl_capacity (cp_lru P) = cl_capacity (cp_lru (cs_pool s)) \<and> pool_keeps E {} (cs_pool s) P"
proof -
  have inv: "pool_inv E t (cs_pool s)" "watched E (cs_pool s) (m, secs, handles)"
    using assms(1,2) by (simp_all add: conns_inv_def)
  consider "P = cs_pool s" | "\<not> told (cs_pool s) (snd handles)" "P = remove_connection E t m (cs_pool s)"
    using assms(3) by (auto simp: connection_idle_timeout_def told_def split: if_splits)
  then show ?thesis
  proof cases
    case 2
    then have "(md_group m, md_id m) \<in> pool_entries E (cs_pool s)"
      using inv(2) by (cases handles) (force simp: watched_def pool_entries_def)
    then have "pool_inv E t P" using 2 pool_inv_remove [OF inv(1)] by simp
    moreover have "pool_keeps E {} (cs_pool s) P"
      using keeps_remove [of E "cs_pool s" m] inv(1) 2(2) by (simp add: remove_connection_def Let_def pool_inv_def)
    ultimately show ?thesis using 2 capacity_kept(2) by metis
  qed (use inv in simp)
qed

text \<open>The steps that do not change the pool, and those that do.\<close>

lemma inv_same_pool_step:
  assumes inv: "conns_inv os E t s" and step: "conns_step ahash os E t proc s s'"
    and same: "cs_pool s' = cs_pool s" "cs_watches s' = cs_watches s"
    and keep: "\<And>i peer peer' srv. i < length (cs_tasks s) \<Longrightarrow> cs_tasks s ! i = Arrived peer \<Longrightarrow>
      cs_tasks s' ! i \<noteq> Exchanging peer' srv"
  shows "conns_inv os E t s'"
proof (rule conns_inv_same_pool [OF inv same])
  have I: "apart os E (cs_pool s) (cs_tasks s)" using inv by (simp add: conns_inv_def)
  note less = apart_less [OF I subset_refl]
  from step show "apart os E (cs_pool s) (cs_tasks s')"
  proof cases
    case (conn_accepted peer)
    then show ?thesis using I by (auto simp: apart_def holds_def nth_append split: if_splits)
  next
    case (conn_opens i peer srv w)
    show ?thesis unfolding conn_opens(1)
      by (simp, rule apart_takes [OF I subset_refl conn_opens(2)]) (use conn_opens(5) in \<open>auto simp: fd_open_def\<close>)
  next
    case (conn_reuses i peer srv P)
    then show ?thesis using keep [of i peer peer srv] by simp
  qed (use I less in simp_all)
qed

lemma conns_inv_step:
  assumes inv: "conns_inv os E t s" and step: "conns_step ahash os E t proc s s'"
  shows "conns_inv os E t s'"
proof -
  have I: "apart os E (cs_pool s) (cs_tasks s)" using inv by (simp add: conns_inv_def)
  note moves = conns_inv_moves [OF inv]
  from step show ?thesis
  proof cases
    case (conn_reuses i peer srv P)
    note found = inv_find [OF inv conn_reuses(4)]
    have "apart os E P ((cs_tasks s)[i := Exchanging peer srv])"
      by (rule apart_takes [OF I keeps_none [OF found(3)] conn_reuses(2)]) (use found(4) in simp_all)
    then show ?thesis using found conn_reuses(1) by (intro moves [where new = "{}"]) simp_all
  next
    case (conn_misses i peer P)
    note found = inv_find [OF inv conn_misses(4)]
    have "apart os E P ((cs_tasks s)[i := Connecting peer])"
      by (rule apart_less [OF I keeps_none [OF found(3)] conn_misses(2)]) simp
    then show ?thesis using found conn_misses(1) by (intro moves [where new = "{}"]) simp_all
  next
    case (conn_served i peer srv srv' watch P)
    have held: "holds os (cs_tasks s) i (os_fd os srv')" using conn_served(2,3,5) by (simp add: holds_def)
    obtain g cn where ret: "pool_inv E t P" "cl_capacity (cp_lru P) = cl_capacity (cp_lru (cs_pool s))"
        "pool_keeps E {(g, os_fd os srv', cn)} (cs_pool s) P" "cnt_connection cn = srv'"
        "case watch of None \<Rightarrow> True | Some x \<Rightarrow> watched E P x"
      using inv_return [OF inv held conn_served(6)] by blast
    have "apart os E P ((cs_tasks s)[i := Finished])"
      by (rule apart_gives [OF I held]) (use keeps_entries [OF ret(3)] in auto)
    then show ?thesis using ret conn_served(1)
      by (intro moves [where new = "{(g, os_fd os srv', cn)}"]) (auto split: option.splits)
  next
    case (idle_ends m secs handles elapsed ev P)
    note idle = inv_idle [OF inv idle_ends(2,3)]
    then have "apart os E P (cs_tasks s)" using I keeps_none [of E "cs_pool s" P] by (auto simp: apart_def)
    then show ?thesis using idle idle_ends(1)
      by (intro moves [where new = "{}"]) (auto dest!: subsetD [OF set_remove1_subset])
  qed (rule inv_same_pool_step [OF inv step]; auto simp: nth_list_update nth_append split: if_splits)+
qed

lemma conns_inv_run: "conns_run ahash os E t proc s s' \<Longrightarrow> conns_inv os E t s \<Longrightarrow> conns_inv os E t s'"
  by (induction rule: rtranclp_induct) (auto intro: conns_inv_step)

lemma conns_reach_inv:
  "pool_env_laws E \<Longrightarrow> conns_run ahash os E t proc (conns_start w) s \<Longrightarrow> conns_inv os E t s"
  by (rule conns_inv_run [OF _ conns_inv_start])

section \<open>A service for the witnesses\<close>

text \<open>
  A system whose streams are numbered from 0, the number being the descriptor; one peer; an exchange that
  leaves bytes of the response unread.
\<close>

definition demo_os :: "(nat \<times> string, nat) net_os" where
  "demo_os = \<lparr>os_new_socket = \<lambda>v4 w. (Inr (), w), os_connect_tcp = \<lambda>a w. (Inr (w, ''fresh''), Suc w),
     os_connect_unix = \<lambda>p w. (Inr (w, ''fresh''), Suc w), os_fd = \<lambda>s. word_of_nat (fst s)\<rparr>"

definition demo_peer :: upstream_peer where
  "demo_peer = upstream_peer_new ''node 1'' ''svc'' (SockTcp (AddrV4 2130706433 8000)) None"

definition demo_proc :: "nat \<times> string \<Rightarrow> (nat \<times> string) outcome \<Rightarrow> bool" where
  "demo_proc srv r \<longleftrightarrow> r = Ok (fst srv, ''unread bytes'')"

type_synonym demo_pool =
  "(nat \<times> string, nat \<times> (conn_id \<times> (nat \<times> string) conn_notifier) list, (conn_id \<times> conn_meta lru_node) list) conn_pool"

definition demo_pool1 :: demo_pool where
  "demo_pool1 = snd (add_connection_to_pool list_env 0 (conn_meta_new 1 0) (0, ''unread bytes'') (stream_manager_new None))"

definition demo_state :: "demo_pool \<Rightarrow> nat \<Rightarrow> (nat \<times> string) conn_task list \<Rightarrow> _" where
  "demo_state P w tasks = \<lparr>cs_pool = P, cs_world = w, cs_tasks = tasks, cs_watches = []\<rparr>"

abbreviation (input) demo_step where
  "demo_step \<equiv> conns_step (\<lambda>x. 1) demo_os list_env 0 demo_proc"

abbreviation (input) demo_run where
  "demo_run \<equiv> conns_run (\<lambda>x. 1) demo_os list_env 0 demo_proc"

lemma demo_group: "get_group_id (\<lambda>x. 1) demo_peer = Ok 1"
  by (simp add: get_group_id_def hash_address_def demo_peer_def upstream_peer_new_def)

lemma demo_accepts: "demo_step (demo_state P w tasks) (demo_state P w (tasks @ [Arrived demo_peer]))"
  using conn_accepted [of "\<lambda>x. 1" demo_os list_env 0 demo_proc "demo_state P w tasks" demo_peer] by (simp add: demo_state_def)

lemma demo_misses:
  assumes "i < length tasks" "tasks ! i = Arrived demo_peer"
  shows "demo_step (demo_state (stream_manager_new None) w tasks) (demo_state (stream_manager_new None) w (tasks[i := Connecting demo_peer]))"
proof -
  have "get_connection_from_pool list_env 0 1 (stream_manager_new None) = (None, stream_manager_new None :: demo_pool)"
    by (simp add: get_connection_from_pool_def stream_manager_new_def pool_new_def)
  with conn_misses [of i "demo_state (stream_manager_new None) w tasks" demo_peer "\<lambda>x. 1" list_env 0 "stream_manager_new None" demo_os demo_proc]
  show ?thesis using assms by (simp add: demo_state_def task_moves_def find_connection_stream_def demo_group)
qed

lemma demo_opens:
  assumes "i < length tasks" "tasks ! i = Connecting demo_peer" "\<And>k. \<not> holds demo_os tasks k (word_of_nat w)"
  shows "demo_step (demo_state (stream_manager_new None) w tasks)
    (demo_state (stream_manager_new None) (Suc w) (tasks[i := Exchanging demo_peer (w, ''fresh'')]))"
proof -
  let ?s = "demo_state (stream_manager_new None) w tasks"
  have "new_stream_connection demo_os demo_peer w = (Ok (w, ''fresh''), Suc w)"
    by (simp add: new_stream_connection_def demo_os_def demo_peer_def upstream_peer_new_def)
  moreover have "\<not> fd_open demo_os list_env ?s (os_fd demo_os (w, ''fresh''))"
    using assms(3) by (simp add: fd_open_def demo_state_def demo_os_def pool_entries_def pool_items_def stream_manager_new_def pool_new_def)
  ultimately show ?thesis
    using conn_opens [of i ?s demo_peer demo_os "(w, ''fresh'')" "Suc w" list_env "\<lambda>x. 1" 0 demo_proc] assms(1,2)
    by (simp add: demo_state_def task_moves_def)
qed

lemma demo_returns:
  assumes "i < length tasks" "tasks ! i = Exchanging demo_peer (0, ''fresh'')"
  shows "demo_step (demo_state (stream_manager_new None) w tasks) (demo_state demo_pool1 w (tasks[i := Finished]))"
proof -
  let ?s = "demo_state (stream_manager_new None) w tasks"
  have "return_stream_connection (\<lambda>x. 1) demo_os list_env 0 (0, ''unread bytes'') demo_peer (stream_manager_new None) = Ok (None, demo_pool1)"
    by (simp add: return_stream_connection_def demo_group case_prod_unfold Let_def demo_pool1_def)
       (simp add: demo_peer_def upstream_peer_new_def demo_os_def)
  then show ?thesis
    using conn_served [of i ?s demo_peer "(0, ''fresh'')" demo_proc "(0, ''unread bytes'')" demo_os "\<lambda>x. 1" list_env 0 None demo_pool1] assms
    by (simp add: demo_state_def task_moves_def demo_proc_def demo_os_def)
qed

lemma demo_two:
  "demo_run (conns_start 0) (demo_state (stream_manager_new None) 1 [Exchanging demo_peer (0, ''fresh''), Arrived demo_peer])"
proof -
  have "demo_run (demo_state (stream_manager_new None) 0 []) (demo_state (stream_manager_new None) 0 [Arrived demo_peer, Arrived demo_peer])"
    using demo_accepts [of "stream_manager_new None" 0 "[]"] demo_accepts [of "stream_manager_new None" 0 "[Arrived demo_peer]"] by simp
  moreover have "demo_step (demo_state (stream_manager_new None) 0 [Arrived demo_peer, Arrived demo_peer])
      (demo_state (stream_manager_new None) 0 [Connecting demo_peer, Arrived demo_peer])"
    using demo_misses [of 0 "[Arrived demo_peer, Arrived demo_peer]" 0] by simp
  moreover have "demo_step (demo_state (stream_manager_new None) 0 [Connecting demo_peer, Arrived demo_peer])
      (demo_state (stream_manager_new None) 1 [Exchanging demo_peer (0, ''fresh''), Arrived demo_peer])"
    using demo_opens [of 0 "[Connecting demo_peer, Arrived demo_peer]" 0] by (simp add: holds_def nth_Cons split: nat.splits)
  ultimately show ?thesis
    by (simp add: conns_start_def demo_state_def rtranclp.rtrancl_into_rtrancl)
qed

section \<open>Properties\<close>

text \<open>
  C26 (invariant). However the connections of a service interleave on a worker, served or failed, to any
  peers, with idle streams closed in between: at most 128 server streams wait, each once and under its own
  descriptor, in one group; every waiting stream is in the cache that bounds the pool; and no stream that a
  connection still uses waits in the pool or is used by another one. This rests on the system giving a new
  stream a descriptor that is not open.
\<close>

theorem service_pool_bounded:
  assumes "pool_env_laws E" "conns_run ahash os E t proc (conns_start w) s"
  shows "finite (pool_entries E (cs_pool s)) \<and> card (pool_entries E (cs_pool s)) \<le> 128 \<and>
    inj_on snd (pool_entries E (cs_pool s)) \<and>
    (\<forall>g i. count (image_mset fst (pool_items E (cs_pool s) g)) i \<le> 1) \<and>
    (\<forall>g i cn. (i, cn) \<in># pool_items E (cs_pool s) g \<longrightarrow> os_fd os (cnt_connection cn) = i) \<and>
    entry_of ` set (cached_entries E t (cs_pool s)) = pool_entries E (cs_pool s) \<and>
    (\<forall>k fd. holds os (cs_tasks s) k fd \<longrightarrow>
       (\<forall>g. (g, fd) \<notin> pool_entries E (cs_pool s)) \<and> (\<forall>l. holds os (cs_tasks s) l fd \<longrightarrow> k = l))"
proof -
  have all: "conns_inv os E t s" by (rule conns_reach_inv [OF assms])
  then have inv: "pool_inv E t (cs_pool s)" "cl_capacity (cp_lru (cs_pool s)) = 128"
    by (simp_all add: conns_inv_def default_pool_size_def)
  have "count (image_mset fst (pool_items E (cs_pool s) g)) i \<le> 1" for g i
  proof (cases "cp_pool (cs_pool s) g")
    case (Some n)
    then have "distinct (map fst (node_items E n))" using inv(1) by (simp add: pool_inv_def nodes_ok_def node_ok_def)
    then have "count (mset (map fst (node_items E n))) i \<le> 1" by (simp add: distinct_count_atmost_1)
    with Some show ?thesis by (simp add: pool_items_def)
  qed (simp add: pool_items_def)
  moreover have "inj_on snd (pool_entries E (cs_pool s))"
    using pool_inv_bound(3) [OF inv(1)] by (force simp: inj_on_def)
  moreover have "entry_of ` set (cached_entries E t (cs_pool s)) = pool_entries E (cs_pool s)"
    using inv(1) by (simp add: pool_inv_def)
  ultimately show ?thesis
    using pool_inv_bound(1,2) [OF inv(1)] inv(2) all by (simp add: conns_inv_def filed_def apart_def)
qed

lemma service_pool_bounded_witness:
  "\<exists>s. cs_tasks s = [Finished, Exchanging demo_peer (1, ''fresh'')] \<and> demo_run (conns_start 0) s \<and> card (pool_entries list_env (cs_pool s)) \<le> 128 \<and>
     (\<forall>g. (g, 1) \<notin> pool_entries list_env (cs_pool s))"
proof -
  let ?busy = "Exchanging demo_peer (0, ''fresh'')"
  have 1: "demo_step (demo_state (stream_manager_new None) 1 [?busy, Arrived demo_peer]) (demo_state (stream_manager_new None) 1 [?busy, Connecting demo_peer])"
    using demo_misses [of 1 "[?busy, Arrived demo_peer]" 1] by simp
  have "\<not> holds demo_os [?busy, Connecting demo_peer] k (word_of_nat 1)" for k
    by (cases k) (auto simp: holds_def demo_os_def)
  then have 2: "demo_step (demo_state (stream_manager_new None) 1 [?busy, Connecting demo_peer])
      (demo_state (stream_manager_new None) 2 [?busy, Exchanging demo_peer (1, ''fresh'')])"
    using demo_opens [of 1 "[?busy, Connecting demo_peer]" 1] by (simp add: numeral_2_eq_2)
  have 3: "demo_step (demo_state (stream_manager_new None) 2 [?busy, Exchanging demo_peer (1, ''fresh'')])
      (demo_state demo_pool1 2 [Finished, Exchanging demo_peer (1, ''fresh'')])"
    using demo_returns [of 0 "[?busy, Exchanging demo_peer (1, ''fresh'')]" 2] by simp
  let ?s = "demo_state demo_pool1 2 [Finished, Exchanging demo_peer (1, ''fresh'')]"
  have run: "demo_run (conns_start 0) ?s"
    using demo_two 1 2 3 by (meson rtranclp.rtrancl_into_rtrancl)
  note spec = service_pool_bounded [OF list_env_laws run]
  have "holds demo_os (cs_tasks ?s) 1 1" by (simp add: holds_def demo_state_def demo_os_def)
  then have "\<forall>g. (g, 1) \<notin> pool_entries list_env (cs_pool ?s)" using spec by blast
  moreover have "card (pool_entries list_env (cs_pool ?s)) \<le> 128" using spec by blast
  moreover have "cs_tasks ?s = [Finished, Exchanging demo_peer (1, ''fresh'')]" by (simp add: demo_state_def)
  ultimately show ?thesis using run by blast
qed

text \<open>
  C29 (safety, code bug). A server stream goes back to the pool whatever the exchange left on it: the
  response's Connection header, the session's keep-alive status and a response that was not read to its
  end are not looked at. If no other stream of its group waits then, a connection to the same group that
  is the next to look into the pool is given exactly this stream and does not touch the network.
\<close>

theorem served_stream_reused:
  assumes "pool_env_laws E" "conns_run ahash os E t proc (conns_start w) s"
    and "i < length (cs_tasks s)" "cs_tasks s ! i = Exchanging peer srv"
    and "get_group_id ahash peer = Ok g" "pool_items E (cs_pool s) g = {#}"
    and "conns_step ahash os E t proc s s1" "cs_tasks s1 ! i = Finished"
    and "j < length (cs_tasks s)" "cs_tasks s ! j = Arrived peer'" "get_group_id ahash peer' = Ok g"
  shows "\<exists>srv' P. proc srv (Ok srv') \<and> conns_step ahash os E t proc s1 (task_moves j (Exchanging peer' srv') P s1) \<and>
    (\<forall>s2. conns_step ahash os E t proc s1 s2 \<longrightarrow> cs_tasks s2 ! j \<noteq> cs_tasks s1 ! j \<longrightarrow>
       cs_tasks s2 ! j = Exchanging peer' srv' \<and> cs_world s2 = cs_world s1)"
proof -
  obtain srv' watch P where served: "s1 = (task_moves i Finished P s)
        \<lparr>cs_watches := cs_watches s @ (case watch of None \<Rightarrow> [] | Some x \<Rightarrow> [x])\<rparr>"
      "proc srv (Ok srv')" "os_fd os srv' = os_fd os srv"
      "return_stream_connection ahash os E t srv' peer (cs_pool s) = Ok (watch, P)"
    using assms(7) by cases (use assms(3,4,8) in \<open>auto simp: nth_list_update nth_append split: if_splits\<close>)
  have inv: "conns_inv os E t s" by (rule conns_reach_inv [OF assms(1,2)])
  have "holds os (cs_tasks s) i (os_fd os srv')" using assms(3,4) served(3) by (simp add: holds_def)
  from inv_return [OF inv this served(4)] assms(5) obtain cn where P: "pool_inv E t P" "cnt_connection cn = srv'"
      "(os_fd os srv', cn) \<in># pool_items E P g" "pool_keeps E {(g, os_fd os srv', cn)} (cs_pool s) P" by auto
  have only: "cnt_connection cn' = srv'" if "(k, cn') \<in># pool_items E P g" for k cn'
    using that P(2,4) assms(6) unfolding pool_keeps_def by (metis empty_iff insert_iff prod.inject set_mset_empty)
  obtain r P2 where get: "get_connection_from_pool E t g P = (r, P2)" by fastforce
  have "nodes_ok E P" using P(1) by (simp add: pool_inv_def)
  from abs_find [OF this, where t = t and g = g] get P(3) only have "r = Some srv'"
    by (auto split: option.splits)
  with get assms(11) have find: "find_connection_stream ahash E t peer' P = Ok (Some srv', P2)"
    by (simp add: find_connection_stream_def)
  have "i \<noteq> j" using assms(4,10) by auto
  then have s1: "j < length (cs_tasks s1)" "cs_tasks s1 ! j = Arrived peer'" "cs_pool s1 = P"
    using served(1) assms(9,10) by simp_all
  have "conns_step ahash os E t proc s1 (task_moves j (Exchanging peer' srv') P2 s1)"
    by (rule conn_reuses [OF s1(1,2)]) (simp add: s1(3) find)
  moreover have "cs_tasks s2 ! j = Exchanging peer' srv' \<and> cs_world s2 = cs_world s1"
    if "conns_step ahash os E t proc s1 s2" "cs_tasks s2 ! j \<noteq> cs_tasks s1 ! j" for s2
    using that(1) by cases (use that(2) s1 find in \<open>auto simp: nth_list_update nth_append split: if_splits\<close>)
  ultimately show ?thesis using served(2) by blast
qed

lemma served_stream_reused_witness:
  "\<exists>s s2. demo_run (conns_start 0) s \<and> cs_tasks s = [Finished, Arrived demo_peer] \<and> demo_step s s2 \<and>
     cs_tasks s2 = [Finished, Exchanging demo_peer (0, ''unread bytes'')]"
proof -
  let ?s = "demo_state (stream_manager_new None) 1 [Exchanging demo_peer (0, ''fresh''), Arrived demo_peer]"
  let ?served = "demo_state demo_pool1 1 [Finished, Arrived demo_peer]"
  have step: "demo_step ?s ?served"
    using demo_returns [of 0 "[Exchanging demo_peer (0, ''fresh''), Arrived demo_peer]" 1] by simp
  have run: "demo_run (conns_start 0) ?served"
    using demo_two step by (rule rtranclp.rtrancl_into_rtrancl)
  have "0 < length (cs_tasks ?s)" "cs_tasks ?s ! 0 = Exchanging demo_peer (0, ''fresh'')"
      "pool_items list_env (cs_pool ?s) 1 = {#}" "cs_tasks ?served ! 0 = Finished"
      "1 < length (cs_tasks ?s)" "cs_tasks ?s ! 1 = Arrived demo_peer"
    by (simp_all add: demo_state_def pool_items_def stream_manager_new_def pool_new_def)
  from served_stream_reused [OF list_env_laws demo_two this(1,2) demo_group this(3) step this(4-6) demo_group]
  obtain P where "demo_step ?served (task_moves 1 (Exchanging demo_peer (0, ''unread bytes'')) P ?served)"
    by (auto simp: demo_proc_def)
  with run show ?thesis by (intro exI [of _ ?served] exI [of _ "task_moves 1 (Exchanging demo_peer (0, ''unread bytes'')) P ?served"])
    (simp add: demo_state_def)
qed

end
