(* ===== verification/Server.thy ===== *)
theory Server
  imports Sockets Connections
begin

text \<open>
  Running services: accepting connections (core/src/listener/listener.rs), the service with its listeners
  (core/src/service/service.rs), the server over its services (core/src/server/server.rs) and the program
  (bin/src/main.rs). Connections.thy has what becomes of an accepted connection.
\<close>

section \<open>Accepting\<close>

datatype ('tl, 'ul) listener = TcpListening 'tl | UnixListening 'ul

text \<open>\<open>r\<close> is what the system's \<open>accept\<close> returned: an error, or a socket and the address of its peer.\<close>

definition accept_stream ::
  "('t, 'b) buf_ops \<Rightarrow> ('tl, 'ul) listener \<Rightarrow> io_error + 't \<times> 'addr \<Rightarrow> unit + 'b stream_type \<times> 'addr" where
  "accept_stream B l r =
     (case l of
        TcpListening x \<Rightarrow> (case r of Inr (t, a) \<Rightarrow> Inr (from_tcp B t, a) | Inl e \<Rightarrow> Inl ())
      | UnixListening x \<Rightarrow> (case r of Inr (t, a) \<Rightarrow> Inr (from_unix B t, a) | Inl e \<Rightarrow> Inl ()))"

section \<open>A service\<close>

record ('a, 's, 'q, 'c) service =
  sv_name :: string
  sv_service :: 'a
  sv_network :: "listener_address list"
  sv_session :: "('s, 'q, 'c) conn_pool"

definition service_new :: "string \<Rightarrow> 'a \<Rightarrow> ('a, 's, 'q, 'c) service" where
  "service_new name t = \<lparr>sv_name = name, sv_service = t, sv_network = [], sv_session = stream_manager_new None\<rparr>"

definition add_tcp_network :: "string \<Rightarrow> ('a, 's, 'q, 'c) service \<Rightarrow> ('a, 's, 'q, 'c) service" where
  "add_tcp_network a v = v\<lparr>sv_network := new_tcp_address a (sv_network v)\<rparr>"

definition add_unix_socket :: "string \<Rightarrow> ('a, 's, 'q, 'c) service \<Rightarrow> ('a, 's, 'q, 'c) service" where
  "add_unix_socket p v = v\<lparr>sv_network := new_unix_path p (sv_network v)\<rparr>"

definition get_address_stack :: "('a, 's, 'q, 'c) service \<Rightarrow> listener_address list" where
  "get_address_stack v = sv_network v"

text \<open>The peer every connection of a service is proxied to.\<close>

definition service_peer :: "(string \<Rightarrow> std_addr option) \<Rightarrow> string \<Rightarrow> upstream_peer outcome" where
  "service_peer from_str name =
     bind_outcome (parse_tcp from_str ''127.0.0.1:8000'') (\<lambda>a. Ok (upstream_peer_new ''node 1'' name a None))"

text \<open>
  A started service: one task for each address, which binds its listener and then accepts for ever; a
  panic ends only the task it happens in. Each accepted connection becomes a task of its own.
\<close>

datatype 'l listen_task = Binding listener_address | Accepting 'l | Stopped string

record ('l, 'w, 'c) running =
  rn_tasks :: "'l listen_task list"
  rn_world :: 'w
  rn_connections :: "'c list"

definition start_service :: "listener_address list \<Rightarrow> 'w \<Rightarrow> ('l, 'w, 'c) running" where
  "start_service addresses w = \<lparr>rn_tasks = map Binding addresses, rn_world = w, rn_connections = []\<rparr>"

inductive service_step ::
  "('t, 'b) buf_ops \<Rightarrow> (('tl, 'ul) listener, 'w) bind_os
   \<Rightarrow> (('tl, 'ul) listener, 'w, 'b stream_type \<times> 'addr) running \<Rightarrow> (('tl, 'ul) listener, 'w, 'b stream_type \<times> 'addr) running \<Rightarrow> bool"
  for B Bos where
  task_binds: "i < length (rn_tasks s) \<Longrightarrow> rn_tasks s ! i = Binding a \<Longrightarrow> bind_to_listener Bos a (rn_world s) = (Ok l, w) \<Longrightarrow>
    service_step B Bos s (s\<lparr>rn_tasks := (rn_tasks s)[i := Accepting l], rn_world := w\<rparr>)"
| task_stops: "i < length (rn_tasks s) \<Longrightarrow> rn_tasks s ! i = Binding a \<Longrightarrow> bind_to_listener Bos a (rn_world s) = (Panic p, w) \<Longrightarrow>
    service_step B Bos s (s\<lparr>rn_tasks := (rn_tasks s)[i := Stopped p], rn_world := w\<rparr>)"
| task_accepts: "i < length (rn_tasks s) \<Longrightarrow> rn_tasks s ! i = Accepting l \<Longrightarrow> accept_stream B l r = Inr c \<Longrightarrow>
    service_step B Bos s (s\<lparr>rn_connections := rn_connections s @ [c]\<rparr>)"
| task_accept_fails: "i < length (rn_tasks s) \<Longrightarrow> rn_tasks s ! i = Accepting l \<Longrightarrow> accept_stream B l (r :: io_error + 't \<times> 'addr) = Inl () \<Longrightarrow>
    service_step B Bos s s"

inductive_cases service_stepE: "service_step B Bos s s'"

abbreviation service_run ::
  "('t, 'b) buf_ops \<Rightarrow> (('tl, 'ul) listener, 'w) bind_os
   \<Rightarrow> (('tl, 'ul) listener, 'w, 'b stream_type \<times> 'addr) running \<Rightarrow> (('tl, 'ul) listener, 'w, 'b stream_type \<times> 'addr) running \<Rightarrow> bool" where
  "service_run B Bos \<equiv> (service_step B Bos)\<^sup>*\<^sup>*"

section \<open>The server\<close>

definition server_new :: "'s list" where
  "server_new = []"

definition add_service :: "'s \<Rightarrow> 's list \<Rightarrow> 's list" where
  "add_service v services = services @ [v]"

definition alloc_threads :: nat where
  "alloc_threads = 10"

datatype unix_signal = SigQuit | SigTerm | SigInt | SigOther

datatype shutdown_type = Graceful | Fast

text \<open>The main task waits for the first signal it listens to; \<open>None\<close> while there was none.\<close>

fun run_server :: "unix_signal list \<Rightarrow> shutdown_type option" where
  "run_server [] = None"
| "run_server (SigQuit # sigs) = Some Graceful"
| "run_server (SigTerm # sigs) = Some Graceful"
| "run_server (SigInt # sigs) = Some Fast"
| "run_server (SigOther # sigs) = run_server sigs"

definition bin_main :: "'a \<Rightarrow> ('a, 's, 'q, 'c) service list" where
  "bin_main athaya =
     add_service (add_tcp_network ''127.0.0.1:8600'' (add_tcp_network ''127.0.0.1:8500'' (service_new ''service-1'' athaya)))
       server_new"

section \<open>Facts\<close>

definition task_of :: "listener_address \<Rightarrow> 'l listen_task \<Rightarrow> bool" where
  "task_of a t \<longleftrightarrow> (case t of Binding b \<Rightarrow> b = a | _ \<Rightarrow> True)"

lemma service_step_tasks:
  assumes "service_step B Bos s s'"
  shows "length (rn_tasks s') = length (rn_tasks s)"
    and "i < length (rn_tasks s) \<Longrightarrow> rn_tasks s ! i = Accepting l \<Longrightarrow> rn_tasks s' ! i = Accepting l"
    and "i < length (rn_tasks s) \<Longrightarrow> rn_tasks s ! i = Stopped p \<Longrightarrow> rn_tasks s' ! i = Stopped p"
    and "list_all2 task_of as (rn_tasks s) \<Longrightarrow> list_all2 task_of as (rn_tasks s')"
    and "\<exists>cs. rn_connections s' = rn_connections s @ cs"
  using assms by (auto elim!: service_stepE simp: nth_list_update list_all2_conv_all_nth task_of_def)

lemma service_run_tasks:
  assumes "service_run B Bos s s'"
  shows "length (rn_tasks s') = length (rn_tasks s)"
    and "i < length (rn_tasks s) \<Longrightarrow> rn_tasks s ! i = Accepting l \<Longrightarrow> rn_tasks s' ! i = Accepting l"
    and "list_all2 task_of as (rn_tasks s) \<Longrightarrow> list_all2 task_of as (rn_tasks s')"
    and "\<exists>cs. rn_connections s' = rn_connections s @ cs"
  using assms
  by (induction rule: rtranclp_induct) (auto dest: service_step_tasks)

text \<open>A connection accepted in a state is one of the connections from then on.\<close>

lemma accept_possible:
  assumes "i < length (rn_tasks s)" "rn_tasks s ! i = Accepting l"
  shows "service_step B Bos (s :: (('tl, 'ul) listener, 'w, 'b stream_type \<times> 'addr) running)
    (s\<lparr>rn_connections := rn_connections s @ (case accept_stream B l r of Inr c \<Rightarrow> [c] | Inl u \<Rightarrow> [])\<rparr>)"
proof (cases "accept_stream B l r")
  case (Inl u)
  then show ?thesis using task_accept_fails [OF assms] by simp
next
  case (Inr c)
  then show ?thesis using task_accepts [OF assms Inr] by simp
qed

section \<open>Properties\<close>

text \<open>
  The listeners of a service do not depend on each other: whatever happens, a task binds only
  its own address, stops only when its own binding panics, and once it accepts it goes on accepting with
  the same listener; no failed accept and no other task's end takes that away, and no accepted connection
  is lost.
\<close>

theorem listeners_independent:
  assumes "service_run B Bos (start_service addresses w) s" "service_run B Bos s s'"
  shows "length (rn_tasks s') = length addresses \<and>
    (\<forall>i<length addresses. \<forall>l. rn_tasks s ! i = Accepting l \<longrightarrow>
       rn_tasks s' ! i = Accepting l \<and>
       (\<forall>r. \<exists>s''. service_step B Bos s' s'' \<and> rn_tasks s'' = rn_tasks s' \<and>
          rn_connections s'' = rn_connections s' @ (case accept_stream B l r of Inr c \<Rightarrow> [c] | Inl u \<Rightarrow> []))) \<and>
    (\<forall>i<length addresses. \<forall>a. rn_tasks s' ! i = Binding a \<longrightarrow> a = addresses ! i) \<and>
    (\<exists>cs. rn_connections s' = rn_connections s @ cs)"
proof (intro conjI allI impI)
  let ?s0 = "start_service addresses w"
  have init: "length (rn_tasks ?s0) = length addresses" "list_all2 task_of addresses (rn_tasks ?s0)"
    by (simp_all add: start_service_def list_all2_map2 list_all2_refl task_of_def)
  have len: "length (rn_tasks s) = length addresses" "length (rn_tasks s') = length addresses"
    using service_run_tasks(1) [OF assms(1)] service_run_tasks(1) [OF assms(2)] init by simp_all
  then show "length (rn_tasks s') = length addresses" by simp
  show "\<exists>cs. rn_connections s' = rn_connections s @ cs" by (rule service_run_tasks(4) [OF assms(2)])
  fix i
  assume i: "i < length addresses"
  have "list_all2 task_of addresses (rn_tasks s')"
    using init(2) service_run_tasks(3) [OF assms(1)] service_run_tasks(3) [OF assms(2)] by blast
  then show "a = addresses ! i" if "rn_tasks s' ! i = Binding a" for a
    using i that by (auto simp: list_all2_conv_all_nth task_of_def)
  show "rn_tasks s' ! i = Accepting l" if "rn_tasks s ! i = Accepting l" for l
    using service_run_tasks(2) [OF assms(2)] i len that by simp
  then show "\<exists>s''. service_step B Bos s' s'' \<and> rn_tasks s'' = rn_tasks s' \<and>
      rn_connections s'' = rn_connections s' @ (case accept_stream B l r of Inr c \<Rightarrow> [c] | Inl u \<Rightarrow> [])"
    if "rn_tasks s ! i = Accepting l" for l r
    using accept_possible [of i s' l B Bos r] i len that by fastforce
qed

text \<open>One address cannot be resolved, the other is bound.\<close>

definition demo_bind :: "((nat, nat) listener, unit) bind_os" where
  "demo_bind = \<lparr>bo_resolve = \<lambda>a. Inl ''no such host'', bo_tcp_socket = \<lambda>v4 w. (Inr (), w), bo_reuse_addr = \<lambda>w. (Inr (), w),
     bo_bind_tcp = \<lambda>a w. (Inr (), w), bo_listen_tcp = \<lambda>b w. (Inr (TcpListening 4), w), bo_remove_file = \<lambda>p w. (Inr (), w),
     bo_bind_unix = \<lambda>p w. (Inr (), w), bo_into_std = \<lambda>w. (Inr (), w), bo_listen_unix = \<lambda>b w. (Inr (), w),
     bo_from_std = \<lambda>w. (Inr (UnixListening 3), w)\<rparr>"

lemma listeners_independent_witness:
  "\<exists>s s''. rn_tasks s = [Stopped ''no such host'', Accepting (UnixListening 3)] \<and> service_step demo_ops demo_bind s s'' \<and>
     rn_connections s'' = [(from_unix demo_ops ''peer'', ())]"
proof -
  let ?s0 = "start_service [ListenTcp ''nowhere'', ListenUnix ''/run/a''] ()"
  let ?s1 = "?s0\<lparr>rn_tasks := [Binding (ListenTcp ''nowhere''), Accepting (UnixListening 3)]\<rparr>"
  let ?s2 = "?s1\<lparr>rn_tasks := [Stopped ''no such host'', Accepting (UnixListening 3)]\<rparr>"
  have 1: "service_step demo_ops demo_bind ?s0 ?s1"
    using task_binds [of 1 ?s0 "ListenUnix ''/run/a''" demo_bind "UnixListening 3" "()" demo_ops]
    by (simp add: start_service_def bind_to_listener_def or_panic_def demo_bind_def)
  have 2: "service_step demo_ops demo_bind ?s1 ?s2"
    using task_stops [of 0 ?s1 "ListenTcp ''nowhere''" demo_bind "''no such host''" "()" demo_ops]
    by (simp add: start_service_def bind_to_listener_def demo_bind_def)
  have "service_run demo_ops demo_bind ?s0 ?s1" "service_run demo_ops demo_bind ?s1 ?s2"
    using r_into_rtranclp [where r = "service_step demo_ops demo_bind"] 1 2 by blast+
  note independent = listeners_independent [OF this]
  have "1 < length [ListenTcp ''nowhere'', ListenUnix ''/run/a'']" "rn_tasks ?s1 ! 1 = Accepting (UnixListening 3)"
    by simp_all
  from independent [THEN conjunct2, THEN conjunct1, rule_format, OF this, THEN conjunct2, THEN spec [of _ "Inr (''peer'', ())"]]
  obtain s'' where "service_step demo_ops demo_bind ?s2 s''" "rn_connections s'' = [(from_unix demo_ops ''peer'', ())]"
    by (auto simp: accept_stream_def start_service_def)
  then show ?thesis by (intro exI [of _ ?s2] exI [of _ s'']) simp
qed

end
