(* ===== verification/ServerRun.thy ===== *)
theory ServerRun
  imports Server
begin

text \<open>
  The whole server (core/src/server/server.rs): the main thread starts one runtime for each service, then waits
  for a signal, while the services that were started already work. A step relation over the steps of the
  services, which share one operating system. Building a runtime is tokio's, and may fail.
\<close>

section \<open>The server as a step relation\<close>

text \<open>\<open>Runtime::new\<close>: \<open>build\<close> says whether the system has the threads; the \<open>unwrap\<close> panics otherwise.\<close>

record runtime =
  rt_name :: string
  rt_threads :: nat

definition runtime_new :: "(string \<Rightarrow> nat \<Rightarrow> bool) \<Rightarrow> string \<Rightarrow> nat \<Rightarrow> runtime outcome" where
  "runtime_new build thread_name threads =
     (if build thread_name threads then Ok \<lparr>rt_name = thread_name, rt_threads = threads\<rparr>
      else Panic ''called `Result::unwrap()` on an `Err` value'')"

text \<open>A runtime with the service that was spawned on it.\<close>

record ('v, 'l, 'w, 'c) working = runtime +
  wk_service :: 'v
  wk_running :: "('l, 'w, 'c) running"

definition run_service :: "(string \<Rightarrow> nat \<Rightarrow> bool) \<Rightarrow> ('a, 's, 'q, 'k) service \<Rightarrow> nat \<Rightarrow> 'w
    \<Rightarrow> (('a, 's, 'q, 'k) service, 'l, 'w, 'c) working outcome" where
  "run_service build service threads w =
     bind_outcome (runtime_new build ''runtime'' threads) (\<lambda>rt.
       (let address_stack = get_address_stack service
        in Ok \<lparr>rt_name = rt_name rt, rt_threads = rt_threads rt, wk_service = service,
               wk_running = start_service address_stack w\<rparr>))"

datatype main_thread = Launching | Waiting | Ended shutdown_type | Crashed string

record ('v, 'l, 'w, 'c) server =
  sr_services :: "'v list"
  sr_runtimes :: "('v, 'l, 'w, 'c) working list"
  sr_world :: 'w
  sr_main :: main_thread

definition server_start :: "'v list \<Rightarrow> 'w \<Rightarrow> ('v, 'l, 'w, 'c) server" where
  "server_start services w = \<lparr>sr_services = services, sr_runtimes = [], sr_world = w, sr_main = Launching\<rparr>"

definition server_alive :: "('v, 'l, 'w, 'c) server \<Rightarrow> bool" where
  "server_alive s \<longleftrightarrow> sr_main s = Launching \<or> sr_main s = Waiting"

text \<open>The main thread's next move while it launches: the loop over \<open>services.pop()\<close>, then the main runtime.\<close>

definition launch_next :: "(string \<Rightarrow> nat \<Rightarrow> bool) \<Rightarrow> (('a, 's, 'q, 'k) service, 'l, 'w, 'c) server
    \<Rightarrow> (('a, 's, 'q, 'k) service, 'l, 'w, 'c) server" where
  "launch_next build s =
     (if sr_services s = []
      then (case runtime_new build ''main-runtime'' 1 of
              Ok rt \<Rightarrow> s\<lparr>sr_main := Waiting\<rparr>
            | Err e \<Rightarrow> s
            | Panic p \<Rightarrow> s\<lparr>sr_main := Crashed p\<rparr>)
      else (case run_service build (last (sr_services s)) alloc_threads (sr_world s) of
              Ok wk \<Rightarrow> s\<lparr>sr_services := butlast (sr_services s), sr_runtimes := sr_runtimes s @ [wk]\<rparr>
            | Err e \<Rightarrow> s
            | Panic p \<Rightarrow> s\<lparr>sr_services := butlast (sr_services s), sr_main := Crashed p\<rparr>))"

inductive server_step ::
  "(string \<Rightarrow> nat \<Rightarrow> bool) \<Rightarrow> ('t, 'b) buf_ops \<Rightarrow> (('tl, 'ul) listener, 'w) bind_os
   \<Rightarrow> (('a, 's, 'q, 'k) service, ('tl, 'ul) listener, 'w, 'b stream_type \<times> 'addr) server
   \<Rightarrow> (('a, 's, 'q, 'k) service, ('tl, 'ul) listener, 'w, 'b stream_type \<times> 'addr) server \<Rightarrow> bool"
  for build :: "string \<Rightarrow> nat \<Rightarrow> bool" and B :: "('t, 'b) buf_ops" and Bos :: "(('tl, 'ul) listener, 'w) bind_os" where
  launches: "sr_main s = Launching \<Longrightarrow> server_step build B Bos s (launch_next build s)"
| works: "server_alive s \<Longrightarrow> i < length (sr_runtimes s) \<Longrightarrow> wk = sr_runtimes s ! i \<Longrightarrow>
    service_step B Bos (wk_running wk\<lparr>rn_world := sr_world s\<rparr>) r \<Longrightarrow>
    server_step build B Bos s (s\<lparr>sr_runtimes := (sr_runtimes s)[i := wk\<lparr>wk_running := r\<rparr>], sr_world := rn_world r\<rparr>)"
| signalled: "sr_main s = Waiting \<Longrightarrow> run_server sigs = Some t \<Longrightarrow> server_step build B Bos s (s\<lparr>sr_main := Ended t\<rparr>)"

inductive_cases server_stepE: "server_step build B Bos s s'"

abbreviation server_run ::
  "(string \<Rightarrow> nat \<Rightarrow> bool) \<Rightarrow> ('t, 'b) buf_ops \<Rightarrow> (('tl, 'ul) listener, 'w) bind_os
   \<Rightarrow> (('a, 's, 'q, 'k) service, ('tl, 'ul) listener, 'w, 'b stream_type \<times> 'addr) server
   \<Rightarrow> (('a, 's, 'q, 'k) service, ('tl, 'ul) listener, 'w, 'b stream_type \<times> 'addr) server \<Rightarrow> bool" where
  "server_run build B Bos \<equiv> (server_step build B Bos)\<^sup>*\<^sup>*"

section \<open>The invariant\<close>

text \<open>
  The runtimes belong to the services that were popped, in that order, each with as many tasks as its
  service has addresses; the main thread waits or has ended only when no service is left to start.
\<close>

definition runs_service :: "('a, 's, 'q, 'k) service \<Rightarrow> (('a, 's, 'q, 'k) service, 'l, 'w, 'c) working \<Rightarrow> bool" where
  "runs_service v wk \<longleftrightarrow> wk_service wk = v \<and> rt_threads wk = alloc_threads \<and>
     list_all2 task_of (get_address_stack v) (rn_tasks (wk_running wk))"

definition server_ok :: "('a, 's, 'q, 'k) service list \<Rightarrow> (('a, 's, 'q, 'k) service, 'l, 'w, 'c) server \<Rightarrow> bool" where
  "server_ok services s \<longleftrightarrow>
     (\<exists>lost started. services = sr_services s @ lost @ started \<and> (lost \<noteq> [] \<longrightarrow> (\<exists>p. sr_main s = Crashed p)) \<and>
        list_all2 runs_service (rev started) (sr_runtimes s)) \<and>
     (sr_main s = Waiting \<or> (\<exists>t. sr_main s = Ended t) \<longrightarrow> sr_services s = [])"

lemma run_service_cases:
  "run_service build v n w =
     (if build ''runtime'' n
      then Ok \<lparr>rt_name = ''runtime'', rt_threads = n, wk_service = v, wk_running = start_service (get_address_stack v) w\<rparr>
      else Panic ''called `Result::unwrap()` on an `Err` value'')"
  by (simp add: run_service_def runtime_new_def Let_def)

lemma started_runs_service:
  "runs_service v \<lparr>rt_name = n, rt_threads = alloc_threads, wk_service = v, wk_running = start_service (get_address_stack v) w\<rparr>"
  by (simp add: runs_service_def start_service_def list_all2_conv_all_nth task_of_def)

lemma launch_ok:
  assumes "server_ok services s" "sr_main s = Launching"
  shows "server_ok services (launch_next build s)"
proof (cases "sr_services s" rule: rev_cases)
  case Nil
  with assms show ?thesis by (auto simp: server_ok_def launch_next_def runtime_new_def)
next
  case (snoc vs v)
  from assms obtain started where st: "services = sr_services s @ started" "list_all2 runs_service (rev started) (sr_runtimes s)"
    by (auto simp: server_ok_def)
  show ?thesis
  proof (cases "build ''runtime'' alloc_threads")
    case True
    then have "sr_services (launch_next build s) = vs" "sr_main (launch_next build s) = Launching"
        "list_all2 runs_service (rev (v # started)) (sr_runtimes (launch_next build s))"
      using st(2) snoc assms(2) by (auto simp: launch_next_def run_service_cases started_runs_service intro!: list_all2_appendI)
    then show ?thesis unfolding server_ok_def using st(1) snoc by (intro conjI exI [of _ "[]"] exI [of _ "v # started"]) simp_all
  next
    case False
    then show ?thesis unfolding server_ok_def using st snoc
      by (intro conjI exI [of _ "[v]"] exI [of _ started]) (simp_all add: launch_next_def run_service_cases)
  qed
qed

lemma service_step_runs:
  assumes "service_step B Bos (wk_running wk\<lparr>rn_world := w\<rparr>) r" "runs_service v wk"
  shows "runs_service v (wk\<lparr>wk_running := r\<rparr>)"
  using assms(2) service_step_tasks(4) [OF assms(1), of "get_address_stack v"] by (simp add: runs_service_def)

lemma server_step_ok:
  assumes "server_step build B Bos s s'" "server_ok services s"
  shows "server_ok services s'"
  using assms(1)
proof cases
  case launches
  with launch_ok [OF assms(2)] show ?thesis by simp
next
  case (works i wk r)
  from assms(2) works(2) obtain started where st: "services = sr_services s @ started"
      "list_all2 runs_service (rev started) (sr_runtimes s)" by (auto simp: server_ok_def server_alive_def)
  have "runs_service (rev started ! i) wk" using st(2) works(3,4) by (simp add: list_all2_conv_all_nth)
  from service_step_runs [OF works(5) this] st(2) works(3)
  have "list_all2 runs_service (rev started) ((sr_runtimes s)[i := wk\<lparr>wk_running := r\<rparr>])"
    by (auto simp: list_all2_conv_all_nth nth_list_update)
  with st(1) assms(2) works(1,2) show ?thesis unfolding server_ok_def
    by (intro conjI exI [of _ "[]"] exI [of _ started]) auto
next
  case (signalled sigs t)
  with assms(2) show ?thesis by (auto simp: server_ok_def)
qed

lemma server_run_ok:
  assumes "server_run build B Bos (server_start services w) s"
  shows "server_ok services s"
  using assms
proof (induction rule: rtranclp_induct)
  case base
  then show ?case by (simp add: server_ok_def server_start_def)
qed (rule server_step_ok)

text \<open>With threads to be had, the main thread comes to wait whatever it has still to start.\<close>

lemma launching_ends:
  assumes "sr_main s = Launching" "build ''runtime'' alloc_threads" "build ''main-runtime'' 1"
  shows "\<exists>s'. server_run build B Bos s s' \<and> sr_main s' = Waiting"
  using assms(1)
proof (induction "sr_services s" arbitrary: s rule: rev_induct)
  case Nil
  then have "launch_next build s = s\<lparr>sr_main := Waiting\<rparr>" using assms(3) by (simp add: launch_next_def runtime_new_def)
  with launches [OF Nil(2), of build B Bos] show ?case by (intro exI [of _ "s\<lparr>sr_main := Waiting\<rparr>"]) auto
next
  case (snoc v vs)
  let ?s = "launch_next build s"
  from snoc(2) [symmetric] have "sr_services ?s = vs" "sr_main ?s = Launching"
    using snoc(3) assms(2) by (simp_all add: launch_next_def run_service_cases)
  with snoc(1) [of ?s] obtain s' where "server_run build B Bos ?s s'" "sr_main s' = Waiting" by auto
  with launches [OF snoc(3), of build B Bos] show ?case by (meson converse_rtranclp_into_rtranclp)
qed

section \<open>Properties\<close>

text \<open>What a runtime keeps: its service, its listeners that accept, and every accepted connection.\<close>

definition kept :: "('v, 'l, 'w, 'c) working \<Rightarrow> ('v, 'l, 'w, 'c) working \<Rightarrow> bool" where
  "kept a b \<longleftrightarrow> wk_service b = wk_service a \<and> length (rn_tasks (wk_running b)) = length (rn_tasks (wk_running a)) \<and>
     (\<forall>j<length (rn_tasks (wk_running a)). \<forall>l. rn_tasks (wk_running a) ! j = Accepting l \<longrightarrow> rn_tasks (wk_running b) ! j = Accepting l) \<and>
     (\<exists>cs. rn_connections (wk_running b) = rn_connections (wk_running a) @ cs)"

definition all_kept :: "('v, 'l, 'w, 'c) server \<Rightarrow> ('v, 'l, 'w, 'c) server \<Rightarrow> bool" where
  "all_kept s s' \<longleftrightarrow> length (sr_runtimes s) \<le> length (sr_runtimes s') \<and>
     (\<forall>i<length (sr_runtimes s). kept (sr_runtimes s ! i) (sr_runtimes s' ! i))"

lemma kept_refl: "kept a a"
  by (simp add: kept_def)

lemma kept_trans: "kept a b \<Longrightarrow> kept b c \<Longrightarrow> kept a c"
  unfolding kept_def by (auto simp: append_assoc)

lemma launch_keeps: "all_kept s (launch_next build s)"
  by (auto simp: all_kept_def launch_next_def runtime_new_def run_service_cases nth_append kept_refl)

lemma server_step_keeps:
  assumes "server_step build B Bos s s'"
  shows "all_kept s s'"
  using assms
proof cases
  case launches
  then show ?thesis using launch_keeps by simp
next
  case (works i wk r)
  from service_step_tasks(1,2,5) [OF works(5)] have "kept wk (wk\<lparr>wk_running := r\<rparr>)" by (auto simp: kept_def)
  with works(1,3,4) show ?thesis by (auto simp: all_kept_def nth_list_update kept_refl)
qed (simp add: all_kept_def kept_refl)

lemma server_run_keeps:
  assumes "server_run build B Bos s s'"
  shows "all_kept s s'"
  using assms
proof (induction rule: rtranclp_induct)
  case (step t u)
  with server_step_keeps [OF step(2)] show ?case unfolding all_kept_def using kept_trans by (meson le_trans less_le_trans)
qed (simp add: all_kept_def kept_refl)

text \<open>
  C28 (invariant). The server over its services, whatever order the system runs them in: the runtimes are those
  of the services in the reverse of the order they were added, each with its addresses and threads; if the
  system has the threads, every service comes to be started and the main thread to wait, and it
  waits or ends only when all are started; no runtime loses its service, a listener that accepts, or an
  accepted connection to anything that happens in another; and once the server has ended, nothing moves.
\<close>

theorem server_runs_services:
  assumes "server_run build B Bos (server_start services w) s"
  shows "(list_all2 runs_service (take (length (sr_runtimes s)) (rev services)) (sr_runtimes s) \<or> (\<exists>p. sr_main s = Crashed p)) \<and>
    (sr_main s = Waiting \<or> (\<exists>t. sr_main s = Ended t) \<longrightarrow> length (sr_runtimes s) = length services) \<and>
    (sr_main s = Launching \<and> build ''runtime'' alloc_threads \<and> build ''main-runtime'' 1 \<longrightarrow>
      (\<exists>s'. server_run build B Bos s s' \<and> sr_main s' = Waiting)) \<and>
    (\<forall>s'. server_run build B Bos s s' \<longrightarrow> all_kept s s') \<and>
    (\<not> server_alive s \<longrightarrow> (\<nexists>s'. server_step build B Bos s s'))"
proof -
  obtain lost started where st: "services = sr_services s @ lost @ started" "lost \<noteq> [] \<longrightarrow> (\<exists>p. sr_main s = Crashed p)"
      "list_all2 runs_service (rev started) (sr_runtimes s)" "sr_main s = Waiting \<or> (\<exists>t. sr_main s = Ended t) \<longrightarrow> sr_services s = []"
    using server_run_ok [OF assms] unfolding server_ok_def by blast
  have len: "length (sr_runtimes s) = length started" using st(3) by (simp add: list_all2_lengthD [symmetric])
  have "list_all2 runs_service (take (length (sr_runtimes s)) (rev services)) (sr_runtimes s) \<or> (\<exists>p. sr_main s = Crashed p)"
    using st(1-3) len by (cases "lost = []") auto
  moreover have "sr_main s = Waiting \<or> (\<exists>t. sr_main s = Ended t) \<longrightarrow> length (sr_runtimes s) = length services"
    using st(1,2,4) len by auto
  moreover have "\<not> server_alive s \<longrightarrow> (\<nexists>s'. server_step build B Bos s s')"
    by (auto simp: server_alive_def elim!: server_stepE)
  moreover have "sr_main s = Launching \<and> build ''runtime'' alloc_threads \<and> build ''main-runtime'' 1 \<longrightarrow>
      (\<exists>s'. server_run build B Bos s s' \<and> sr_main s' = Waiting)" using launching_ends by blast
  moreover have "\<forall>s'. server_run build B Bos s s' \<longrightarrow> all_kept s s'" using server_run_keeps by blast
  ultimately show ?thesis by (intro conjI)
qed

lemma server_runs_services_witness:
  "\<exists>s' :: ((unit, nat, nat, nat) service, (nat, nat) listener, unit, demo_buf stream_type \<times> unit) server. server_run (\<lambda>n k. True) demo_ops demo_bind (server_start (bin_main ()) ()) s' \<and> sr_main s' = Waiting \<and>
     length (sr_runtimes s') = 1"
proof -
  let ?services = "bin_main () :: (unit, nat, nat, nat) service list"
  let ?s = "server_start ?services () :: ((unit, nat, nat, nat) service, (nat, nat) listener, unit, demo_buf stream_type \<times> unit) server"
  note runs = server_runs_services [where build = "\<lambda>n k. True" and B = demo_ops and Bos = demo_bind and services = ?services and w = "()"]
  have "\<exists>s'. server_run (\<lambda>n k. True) demo_ops demo_bind ?s s' \<and> sr_main s' = Waiting"
    using runs [OF rtranclp.rtrancl_refl, THEN conjunct2, THEN conjunct2, THEN conjunct1] by (simp add: server_start_def)
  then obtain s' where s': "server_run (\<lambda>n k. True) demo_ops demo_bind ?s s'" "sr_main s' = Waiting" by blast
  with runs [OF s'(1), THEN conjunct2, THEN conjunct1] show ?thesis by (intro exI [of _ s']) (simp add: bin_main_def add_service_def server_new_def)
qed

end
