(* ===== verification/Exchange.thy ===== *)
theory Exchange
  imports DuplexProperties
begin

text \<open>
  A whole exchange (\<open>handle_process\<close> of core/src/service/proxy/duplex.rs): from the bytes on the client's socket, over
  reading the head, sending it on and the copy of the body, to the bytes on the server's socket.
\<close>

section \<open>Preparing\<close>






section \<open>Properties\<close>



end
