(* ===== verification/DuplexResponse.thy ===== *)
theory DuplexResponse
  imports DuplexProperties
begin

text \<open>
  The response body's way through the proxy loop (core/src/service/proxy/duplex.rs), from the server's socket to
  the client's: once its header has crossed, what the client has been sent, what waits in the channel or in
  the hand of the upstream loop, and what the server has still to say make up the body, in order. A
  contract on the two sessions, its consequence for the loop, and the sessions as an instance.
\<close>

section \<open>The contract\<close>

text \<open>A task that ends nothing, a body piece; and the tasks that can only come last.\<close>

definition plain :: "'m task \<Rightarrow> bool" where
  "plain t \<longleftrightarrow> (\<exists>b. t = body_task b)"

fun final_task :: "'m task \<Rightarrow> bool" where
  "final_task (TBody b e) \<longleftrightarrow> e"
| "final_task TDone \<longleftrightarrow> True"
| "final_task t \<longleftrightarrow> False"

fun failed_task :: "'m task \<Rightarrow> bool" where
  "failed_task (TFailed e) \<longleftrightarrow> True"
| "failed_task t \<longleftrightarrow> False"

lemma final_not_plain: "final_task t \<Longrightarrow> \<not> plain t" "failed_task t \<Longrightarrow> \<not> plain t" "final_task t \<Longrightarrow> task_is_end t"
    "plain t \<Longrightarrow> \<not> task_is_end t" "final_task t \<Longrightarrow> \<not> failed_task t" "failed_task t \<Longrightarrow> task_bytes t = []"
  by (cases t; auto simp: plain_def body_task_def)+

text \<open>What a queue of response tasks may look like: pieces, and perhaps a last task.\<close>

definition queue_ok :: "'m task list \<Rightarrow> bool" where
  "queue_ok ts \<longleftrightarrow> (\<forall>t\<in>set (butlast ts). plain t) \<and> (ts \<noteq> [] \<longrightarrow> plain (last ts) \<or> final_task (last ts) \<or> failed_task (last ts))"

lemma queue_ok_plain: "\<forall>t\<in>set ts. plain t \<Longrightarrow> queue_ok ts"
  by (auto simp: queue_ok_def dest: in_set_butlastD)

lemma queue_ok_snoc: "queue_ok (ts @ [t]) \<longleftrightarrow> (\<forall>t\<in>set ts. plain t) \<and> (plain t \<or> final_task t \<or> failed_task t)"
  by (simp add: queue_ok_def)

lemma queue_ok_split:
  assumes "queue_ok (ts @ us)" "ts \<noteq> []"
  shows "queue_ok ts \<and> queue_ok us \<and> (plain (last ts) \<or> us = [])"
proof (cases us rule: rev_cases)
  case Nil
  with assms show ?thesis by (simp add: queue_ok_def)
next
  case (snoc vs v)
  with assms(1) have "\<forall>t\<in>set (ts @ vs). plain t" "plain v \<or> final_task v \<or> failed_task v"
    using queue_ok_snoc [of "ts @ vs" v] by simp_all
  with snoc assms(2) show ?thesis by (simp add: queue_ok_plain queue_ok_snoc)
qed

text \<open>The tasks on their way: those in the channel, and the one the upstream loop is about to send.\<close>

fun in_hand :: "'m up_loop \<Rightarrow> 'm task list" where
  "in_hand (USend e t) = [t]"
| "in_hand (ULast t) = [t]"
| "in_hand u = []"

definition in_flight :: "('m, 'x, 'y) duplex \<Rightarrow> 'm task list" where
  "in_flight s = dx_responses s @ in_hand (dx_ul s)"

text \<open>The upstream loop may read on: it has not seen the end of the response.\<close>

fun reading_on :: "'m up_loop \<Rightarrow> bool" where
  "reading_on (URun rd qd) \<longleftrightarrow> \<not> qd"
| "reading_on (USend e t) \<longleftrightarrow> \<not> e"
| "reading_on u \<longleftrightarrow> False"

definition write_failed :: "('m, 'x, 'y) duplex \<Rightarrow> bool" where
  "write_failed s \<longleftrightarrow> (\<exists>err. dx_dl s = DEnd (Some err)) \<or> (\<exists>p. dx_dl s = DPanic p)"

text \<open>
  \<open>unread rest y\<close>: the upstream session has still to hand out \<open>rest\<close>; \<open>written sent x\<close>: the downstream session
  has been given \<open>sent\<close> and waits for later; \<open>complete sent x\<close>: it has finished the response after \<open>sent\<close>.
\<close>

locale response_pipe =
  fixes Ops :: "('m, 'x, 'y) duplex_ops"
    and unread :: "bytes \<Rightarrow> 'y \<Rightarrow> bool"
    and written :: "bytes \<Rightarrow> 'x \<Rightarrow> bool"
    and complete :: "bytes \<Rightarrow> 'x \<Rightarrow> bool"
  assumes reads: "unread rest y \<Longrightarrow> op_read_response Ops y = (Ok t, y') \<Longrightarrow>
      \<exists>rest'. rest = task_bytes t @ rest' \<and> unread rest' y' \<and> (plain t \<or> final_task t \<and> rest' = [])"
    and requests: "unread rest y \<Longrightarrow> op_write_request Ops t y = (Ok e, y') \<Longrightarrow> unread rest y'"
    and receives: "written sent x \<Longrightarrow> op_read_request Ops x = (r, x') \<Longrightarrow> written sent x'"
    and writes: "written sent x \<Longrightarrow> ts \<noteq> [] \<Longrightarrow> queue_ok ts \<Longrightarrow> op_write_response Ops ts x = (Ok e, x') \<Longrightarrow>
      plain (last ts) \<and> \<not> e \<and> written (sent @ channel_bytes ts) x' \<or>
      final_task (last ts) \<and> e \<and> complete (sent @ channel_bytes ts) x'"
    and drops_response: "unread rest y \<Longrightarrow> op_drop_response Ops y y' \<Longrightarrow> unread rest y'"
    and drops_request: "written sent x \<Longrightarrow> op_drop_request Ops x x' \<Longrightarrow> written sent x'"
begin

lemma unread_left: "unread rest (dx_up s) \<Longrightarrow> up_left Ops s qd y \<Longrightarrow> unread rest y"
  by (auto simp: up_left_def intro: drops_response)

lemma written_left: "written sent (dx_down s) \<Longrightarrow> down_left Ops s rd x \<Longrightarrow> written sent x"
  by (auto simp: down_left_def intro: drops_request)

text \<open>
  After \<open>sent\<close>, the tasks \<open>ts\<close> are on their way; the server's side, \<open>u\<close> and \<open>y\<close>, has the rest of the body.
\<close>

definition flow :: "bytes \<Rightarrow> bytes \<Rightarrow> 'm task list \<Rightarrow> 'm up_loop \<Rightarrow> 'y \<Rightarrow> bool" where
  "flow body sent ts u y \<longleftrightarrow>
     (\<exists>rest. body = sent @ channel_bytes ts @ rest \<and> queue_ok ts \<and>
        (reading_on u \<longrightarrow> unread rest y \<and> (\<forall>t\<in>set ts. plain t)) \<and> (ts \<noteq> [] \<and> final_task (last ts) \<longrightarrow> rest = []))"

definition flowing :: "bytes \<Rightarrow> ('m, 'x, 'y) duplex \<Rightarrow> bool" where
  "flowing body s \<longleftrightarrow> (\<exists>sent. written sent (dx_down s) \<and> flow body sent (in_flight s) (dx_ul s) (dx_up s))"

lemma flowI:
  assumes "body = sent @ channel_bytes ts @ rest" "queue_ok ts" "reading_on u \<Longrightarrow> unread rest y"
    and "reading_on u \<Longrightarrow> \<forall>t\<in>set ts. plain t" "ts \<noteq> [] \<Longrightarrow> final_task (last ts) \<Longrightarrow> rest = []"
  shows "flow body sent ts u y"
  unfolding flow_def using assms by blast

lemma flowE:
  assumes "flow body sent ts u y"
  obtains rest where "body = sent @ channel_bytes ts @ rest" "queue_ok ts" "reading_on u \<Longrightarrow> unread rest y"
    "reading_on u \<Longrightarrow> \<forall>t\<in>set ts. plain t" "ts \<noteq> [] \<Longrightarrow> final_task (last ts) \<Longrightarrow> rest = []"
  using assms unfolding flow_def by blast

lemma flow_start: "(reading_on u \<Longrightarrow> unread body y) \<Longrightarrow> flow body [] [] u y"
  by (rule flowI [of _ _ _ body]) (simp_all add: queue_ok_def)

lemma flow_prefix: "flow body sent ts u y \<Longrightarrow> prefix sent body"
  by (auto simp: flow_def)

text \<open>
  The copy of the response flows, has stopped early, is complete, or writing to the client failed.
\<close>

definition carried :: "bytes \<Rightarrow> ('m, 'x, 'y) duplex \<Rightarrow> bool" where
  "carried body s \<longleftrightarrow>
     flowing body s \<and> \<not> down_ended s \<or>
     (\<exists>sent. written sent (dx_down s) \<and> prefix sent body \<and> down_ended s) \<or>
     complete body (dx_down s) \<and> (dx_dl s = DRun True True \<or> dx_dl s = DEnd None) \<or>
     write_failed s"

text \<open>A batch of pieces is taken from the front; a batch with the last task takes all there is.\<close>

lemma flow_taken:
  assumes "flow body sent (ts @ us) u y" "ts = [] \<or> plain (last ts)"
  shows "flow body (sent @ channel_bytes ts) us u y"
proof (cases "ts = []")
  case False
  from assms(1) obtain rest where f: "body = sent @ channel_bytes (ts @ us) @ rest" "queue_ok (ts @ us)"
    "reading_on u \<Longrightarrow> unread rest y" "reading_on u \<Longrightarrow> \<forall>t\<in>set (ts @ us). plain t"
    "ts @ us \<noteq> [] \<Longrightarrow> final_task (last (ts @ us)) \<Longrightarrow> rest = []" by (rule flowE) blast
  show ?thesis
    by (rule flowI [of _ _ _ rest]) (use f queue_ok_split [OF f(2) False] in auto)
qed (use assms(1) in simp)

lemma flow_last:
  assumes "flow body sent (ts @ us) u y" "ts \<noteq> []" "final_task (last ts)"
  shows "body = sent @ channel_bytes ts"
proof -
  from assms(1) obtain rest where f: "body = sent @ channel_bytes (ts @ us) @ rest" "queue_ok (ts @ us)"
    "ts @ us \<noteq> [] \<Longrightarrow> final_task (last (ts @ us)) \<Longrightarrow> rest = []" by (rule flowE) blast
  have "us = []" using queue_ok_split [OF f(2) assms(2)] final_not_plain(1) [OF assms(3)] by blast
  with f assms(2,3) show ?thesis by simp
qed

lemma flow_queue:
  assumes "flow body sent (ts @ us) u y"
  shows "queue_ok ts"
proof (cases "ts = []")
  case False
  from assms have "queue_ok (ts @ us)" by (rule flowE)
  with queue_ok_split False show ?thesis by blast
qed (simp add: queue_ok_def)

text \<open>A step of the upstream loop: with \<open>pre\<close> still to be written, what follows it stays in order.\<close>

lemma flow_up:
  assumes "up_step Ops s s'" "\<not> down_ended s" "in_flight s = pre @ ts" "flow body sent ts (dx_ul s) (dx_up s)"
  shows "\<exists>ts'. in_flight s' = pre @ ts' \<and> flow body sent ts' (dx_ul s') (dx_up s') \<and> (\<not> reading_on (dx_ul s) \<longrightarrow> ts' = ts)"
proof -
  from assms(4) obtain rest where I: "body = sent @ channel_bytes ts @ rest"
    "queue_ok ts" "reading_on (dx_ul s) \<Longrightarrow> unread rest (dx_up s)" "reading_on (dx_ul s) \<Longrightarrow> \<forall>t\<in>set ts. plain t"
    "ts \<noteq> [] \<Longrightarrow> final_task (last ts) \<Longrightarrow> rest = []" by (rule flowE) blast
  from assms(1) show ?thesis
  proof cases
    case (u_read rd t y)
    have "unread rest (dx_up s)" "\<forall>t\<in>set ts. plain t" using I(3,4) u_read(2) by simp_all
    moreover from reads [OF this(1) u_read(3)] obtain rest' where r: "rest = task_bytes t @ rest'" "unread rest' y"
        "plain t \<or> final_task t \<and> rest' = []" by blast
    ultimately have "flow body sent (ts @ [t]) (dx_ul s') (dx_up s')" unfolding u_read(1)
      by (intro flowI [of _ _ _ rest']) (use I(1) final_not_plain in \<open>auto simp: queue_ok_snoc\<close>)
    with u_read assms(3) show ?thesis by (auto simp: in_flight_def)
  next
    case (u_read_error rd err y)
    have "\<forall>t\<in>set ts. plain t" using I(4) u_read_error(2) by simp
    then have "flow body sent (ts @ [TFailed err]) (dx_ul s') (dx_up s')" unfolding u_read_error(1)
      by (intro flowI [of _ _ _ rest]) (use I(1) in \<open>auto simp: queue_ok_snoc\<close>)
    with u_read_error assms(3) show ?thesis by (auto simp: in_flight_def)
  next
    case (u_write qd t later y0 e y)
    have "unread rest y" if "\<not> qd"
      using that u_write(2) by (intro requests [OF unread_left [OF _ u_write(4)] u_write(5)] I(3)) simp
    then have "flow body sent ts (dx_ul s') (dx_up s')"
      by (intro flowI [of _ _ _ rest]) (use I u_write(1,2) in auto)
    with u_write assms(3) show ?thesis by (auto simp: in_flight_def)
  next
    case (u_closed qd y0)
    have "unread rest y0" if "\<not> qd"
      using that u_closed(2) by (intro unread_left [OF _ u_closed(5)] I(3)) simp
    then have "flow body sent ts (dx_ul s') (dx_up s')"
      by (intro flowI [of _ _ _ rest]) (use I u_closed(1,2) in auto)
    with u_closed assms(3) show ?thesis by (auto simp: in_flight_def)
  qed (use I assms(2,3) in \<open>auto simp: in_flight_def intro!: flowI [of _ _ _ rest]\<close>)
qed

text \<open>A step of the downstream loop that leaves the responses alone.\<close>

lemma flowing_down:
  assumes "flowing body s" "\<And>sent. written sent (dx_down s) \<Longrightarrow> written sent (dx_down s')"
    and "dx_responses s' = dx_responses s" "dx_ul s' = dx_ul s" "dx_up s' = dx_up s"
  shows "flowing body s'"
  using assms unfolding flowing_def in_flight_def by metis

lemma flowing_write:
  assumes "flowing body s" "dx_responses s = ts @ later" "ts \<noteq> []" "down_left Ops s rd x0" "op_write_response Ops ts x0 = (Ok e, x)"
  shows "if e then complete body x else flowing body (s\<lparr>dx_down := x, dx_responses := later, dx_dl := d\<rparr>)"
proof -
  obtain sent where w: "written sent (dx_down s)" "flow body sent (ts @ (later @ in_hand (dx_ul s))) (dx_ul s) (dx_up s)"
    using assms(1,2) unfolding flowing_def in_flight_def by auto
  from writes [OF written_left [OF w(1) assms(4)] assms(3) flow_queue [OF w(2)] assms(5)] show ?thesis
  proof (elim disjE conjE)
    assume r: "plain (last ts)" "\<not> e" "written (sent @ channel_bytes ts) x"
    with flow_taken [OF w(2)] show ?thesis by (auto simp: flowing_def in_flight_def)
  next
    assume r: "final_task (last ts)" "e" "complete (sent @ channel_bytes ts) x"
    with flow_last [OF w(2) assms(3) r(1)] show ?thesis by simp
  qed
qed

lemma carried_flowing: "flowing body s \<Longrightarrow> carried body s"
  by (cases "down_ended s") (auto simp: carried_def flowing_def dest: flow_prefix)

lemma carried_write:
  assumes "if e then complete body (dx_down s) else flowing body s" "dx_dl s = DRun e e"
  shows "carried body s"
  using assms by (cases e) (simp_all add: carried_flowing, simp add: carried_def)

lemma down_carried:
  assumes "down_step Ops s s'" "carried body s"
  shows "carried body s'"
proof -
  have open': "\<not> down_ended s" "\<not> write_failed s" using assms(1) by (auto elim!: down_stepE simp: down_ended_def write_failed_def)
  with assms(2) consider (flow) "flowing body s" | (done') "complete body (dx_down s)" "dx_dl s = DRun True True"
    by (auto simp: carried_def down_ended_def)
  then show ?thesis
  proof cases
    case done'
    with assms(1) show ?thesis by (auto elim!: down_stepE simp: carried_def)
  next
    case flow
    from assms(1) show ?thesis
    proof cases
      case (d_write rd ts later x0 e x)
      note step = flowing_write [OF flow d_write(3-6), of "DRun e e"]
      show ?thesis by (rule carried_write [of e]) (use step d_write(1) in \<open>simp_all split: if_splits\<close>)
    next
      case (d_write_error rd ts later x0 err x)
      then show ?thesis by (simp add: carried_def write_failed_def)
    next
      case (d_write_panic rd ts later x0 p x)
      then show ?thesis by (simp add: carried_def write_failed_def)
    qed (rule carried_flowing, rule flowing_down [OF flow]; auto intro: receives dest: written_left)+
  qed
qed

lemma up_keeps_down: "up_step Ops s s' \<Longrightarrow> dx_down s' = dx_down s \<and> dx_dl s' = dx_dl s"
  by (auto elim!: up_stepE)

lemma flowing_up:
  assumes "up_step Ops s s'" "flowing body s" "\<not> down_ended s"
  shows "flowing body s'"
proof -
  obtain sent where "written sent (dx_down s)" "flow body sent (in_flight s) (dx_ul s) (dx_up s)"
    using assms(2) by (auto simp: flowing_def)
  with flow_up [OF assms(1,3), of "[]"] up_keeps_down [OF assms(1)] show ?thesis by (auto simp: flowing_def)
qed

lemma up_carried:
  assumes "up_step Ops s s'" "carried body s"
  shows "carried body s'"
proof -
  have same: "dx_dl s' = dx_dl s" "dx_down s' = dx_down s" using up_keeps_down [OF assms(1)] by simp_all
  then have "down_ended s' = down_ended s" "write_failed s' = write_failed s" by (simp_all add: down_ended_def write_failed_def)
  with assms same flowing_up show ?thesis unfolding carried_def by metis
qed

lemma run_carried: "duplex_run Ops s s' \<Longrightarrow> carried body s \<Longrightarrow> carried body s'"
  by (induction rule: rtranclp_induct) (auto simp: duplex_step_iff down_carried up_carried)

end

section \<open>The server's side\<close>

text \<open>
  The response header has been read and is final; the body is still to be read in one of the three framings,
  or it was read to its end.
\<close>

definition response_rep ::
  "(bytes \<Rightarrow> chunk_status) \<Rightarrow> 's io \<Rightarrow> ('s \<Rightarrow> bytes) \<Rightarrow> bytes \<Rightarrow> bytes \<Rightarrow> nat \<Rightarrow> bytes \<Rightarrow> body_reader \<Rightarrow> 's \<Rightarrow> bool" where
  "response_rep pcs io pending lh extra n rest r s \<longleftrightarrow>
     content_length_rep io pending n rest r s \<or> until_closed_rep io pending n rest r s \<or>
     chunked_rep pcs io pending lh extra n rest r s"

definition unread_response ::
  "(bytes \<Rightarrow> chunk_status) \<Rightarrow> 't io \<Rightarrow> ('t \<Rightarrow> bytes) \<Rightarrow> bytes \<Rightarrow> bytes \<Rightarrow> bytes \<Rightarrow> 'm upstream \<times> 't \<Rightarrow> bool" where
  "unread_response pcs io pending lh extra rest y \<longleftrightarrow>
     writes_keep io pending \<and> \<not> us_upgrade (fst y) \<and> \<not> should_read_response_header (fst y) \<and>
     ((\<exists>n. response_rep pcs io pending lh extra n rest (us_reader (fst y)) (snd y)) \<or>
      rest = [] \<and> (\<exists>n. read_state (us_reader (fst y)) = RCompleted n))"

lemma response_rep_frame:
  "response_rep pcs io pending lh extra n rest r s \<Longrightarrow> pending s' = pending s \<Longrightarrow> response_rep pcs io pending lh extra n rest r s'"
  by (simp add: response_rep_def content_length_rep_def until_closed_rep_def chunked_rep_def)

lemma response_rep_start: "response_rep pcs io pending lh extra n rest r s \<Longrightarrow> \<not> is_start r"
  by (auto simp: response_rep_def content_length_rep_def until_closed_rep_def chunked_rep_def decoding_def is_start_def)

lemma response_rep_finished:
  "response_rep pcs io pending lh extra n rest r s \<Longrightarrow> is_finished r \<Longrightarrow> rest = []"
  by (auto simp: response_rep_def content_length_rep_def until_closed_rep_def chunked_rep_def decoding_def is_finished_def)

lemma response_rep_progress:
  assumes "response_rep pcs io pending lh extra n rest (us_reader u) s"
  shows "(\<exists>u' s' k. response_piece H pcs io u s = (Ok None, u', s') \<and> rest = [] \<and> read_state (us_reader u') = RCompleted k) \<or>
    (\<exists>bs rest' u' s' k. response_piece H pcs io u s = (Ok (Some bs), u', s') \<and> rest = bs @ rest' \<and>
       response_rep pcs io pending lh extra k rest' (us_reader u') s')"
  using assms [unfolded response_rep_def]
proof (elim disjE)
  assume "content_length_rep io pending n rest (us_reader u) s"
  from us_content_length.session.progress [OF this, where H = H and pcs = pcs] show ?thesis unfolding response_rep_def by blast
next
  assume "until_closed_rep io pending n rest (us_reader u) s"
  from us_until_closed.session.progress [OF this, where H = H and pcs = pcs] show ?thesis unfolding response_rep_def by blast
next
  assume "chunked_rep pcs io pending lh extra n rest (us_reader u) s"
  from us_chunked.session.progress [OF this, where H = H] show ?thesis unfolding response_rep_def by blast
qed

lemma response_piece_frame:
  assumes "response_piece H pcs io u s = (r, u', s')" "\<not> is_start (us_reader u)"
  shows "us_response u' = us_response u \<and> us_upgrade u' = us_upgrade u"
  using assms
  by (auto simp: read_response_body_bytes_def read_response_body_def set_response_body_reader_def
        on_us_reader_def abind_def action_defs split: outcome.splits option.splits prod.splits)

lemma reading_finished_started:
  "\<not> is_start (us_reader u) \<Longrightarrow> is_reading_response_body_finished H (u, s) = (Ok (is_finished (us_reader u)), u, s)"
  by (simp add: is_reading_response_body_finished_def set_response_body_reader_def abind_def aget_def)

lemma read_response_task:
  assumes "\<not> should_read_response_header u" "\<not> is_start (us_reader u)"
  shows "read_upstream_response H parse pcs io (u, s) =
    (if is_finished (us_reader u) then (Ok TDone, u, s)
     else abind (read_response_body_bytes H pcs io) (\<lambda>body.
            abind (is_reading_response_body_finished H) (\<lambda>e. areturn (TBody body e))) (u, s))"
  using assms reading_finished_started [of u H s]
  by (simp add: read_upstream_response_def abind_def [of "aget _"] abind_def [of "is_reading_response_body_finished H"] aget_def areturn_def)

lemma unread_response_reads:
  assumes "unread_response pcs io pending lh extra rest y" "read_upstream_response H parse pcs io y = (Ok t, y')"
  shows "\<exists>rest'. rest = task_bytes t @ rest' \<and> unread_response pcs io pending lh extra rest' y' \<and>
    (plain t \<or> final_task t \<and> rest' = [])"
proof -
  obtain u s where y: "y = (u, s)" by (cases y)
  have hd: "\<not> should_read_response_header u" "\<not> us_upgrade u" "writes_keep io pending"
    using assms(1) by (simp_all add: unread_response_def y)
  have start: "\<not> is_start (us_reader u)"
    using assms(1) by (auto simp: unread_response_def y dest: response_rep_start) (simp add: is_start_def)
  note run = read_response_task [OF hd(1) start, of H parse pcs io s]
  show ?thesis
  proof (cases "is_finished (us_reader u)")
    case True
    then have "rest = []" using assms(1) response_rep_finished by (auto simp: unread_response_def y)
    moreover have "t = TDone" "y' = y" using True run assms(2) by (simp_all add: y)
    ultimately show ?thesis using assms(1) by simp
  next
    case False
    then obtain n where rep: "response_rep pcs io pending lh extra n rest (us_reader u) s"
      using assms(1) by (auto simp: unread_response_def y is_finished_def)
    have task: "t = TBody v (is_finished (us_reader u')) \<and> y' = (u', s')"
      if "response_piece H pcs io u s = (Ok v, u', s')" "\<not> is_start (us_reader u')" for v u' s'
      using run False assms(2) that reading_finished_started [OF that(2), of H s']
      by (simp add: y abind_def [of "read_response_body_bytes H pcs io"] abind_def [of "is_reading_response_body_finished H"] areturn_def)
    have same: "\<not> should_read_response_header u'" "\<not> us_upgrade u'" if "response_piece H pcs io u s = (v, u', s')" for v u' s'
      using response_piece_frame [OF that start] hd by (simp_all add: should_read_response_header_def)
    from response_rep_progress [OF rep, where H = H] show ?thesis
    proof (elim disjE exE conjE)
      fix u' s' k
      assume p: "response_piece H pcs io u s = (Ok None, u', s')" "rest = []" "read_state (us_reader u') = RCompleted k"
      with task [OF p(1)] same [OF p(1)] hd show ?thesis
        by (auto simp: is_start_def is_finished_def unread_response_def)
    next
      fix bs rest' u' s' k
      assume p: "response_piece H pcs io u s = (Ok (Some bs), u', s')" "rest = bs @ rest'"
        "response_rep pcs io pending lh extra k rest' (us_reader u') s'"
      have t: "t = TBody (Some bs) (is_finished (us_reader u'))" "y' = (u', s')"
        using task [OF p(1) response_rep_start [OF p(3)]] by simp_all
      have "unread_response pcs io pending lh extra rest' y'"
        using same [OF p(1)] hd p(3) t by (auto simp: unread_response_def)
      moreover have "plain t \<or> final_task t \<and> rest' = []"
        using response_rep_finished [OF p(3)] t by (auto simp: plain_def body_task_def)
      ultimately show ?thesis using p(2) t by auto
    qed
  qed
qed

lemma unread_response_frame:
  assumes "unread_response pcs io pending lh extra rest (u, s)" "us_reader u' = us_reader u" "us_response u' = us_response u"
    "us_upgrade u' = us_upgrade u" "pending s' = pending s"
  shows "unread_response pcs io pending lh extra rest (u', s')"
  using assms response_rep_frame by (fastforce simp: unread_response_def should_read_response_header_def)

text \<open>Writing the request touches neither the reader nor what is known of request and response.\<close>

definition same_response :: "'m upstream \<Rightarrow> 'm upstream \<Rightarrow> bool" where
  "same_response u u' \<longleftrightarrow> us_reader u' = us_reader u \<and> us_request u' = us_request u \<and> us_response u' = us_response u \<and>
     us_upgrade u' = us_upgrade u"

lemma keeps_write_upstream_request:
  fixes io :: "'t io" and Q :: "'m upstream \<times> 't \<Rightarrow> bool"
  assumes K: "writes_keep io pending" and up: "\<And>u s. Q (u, s) \<Longrightarrow> \<not> us_upgrade u"
    and frame: "\<And>u s u' s'. Q (u, s) \<Longrightarrow> same_response u u' \<Longrightarrow> pending s' = pending s \<Longrightarrow> Q (u', s')"
  shows "keeps Q (write_upstream_request io t)"
proof -
  have writer: "keeps Q (on_us_writer f)" if "\<And>w s r w' s'. f w s = (r, w', s') \<Longrightarrow> pending s' = pending s"
    for f :: "body_writer \<Rightarrow> 't \<Rightarrow> 'a outcome \<times> body_writer \<times> 't"
    by (rule keepsI) (auto simp: on_us_writer_def same_response_def split: prod.split dest!: that intro: frame)
  have session: "keeps Q (asession f)" if "\<And>u. \<not> us_upgrade u \<Longrightarrow> same_response u (f u)" for f
    by (rule keepsI) (auto simp: asession_def dest: up intro!: that intro: frame)
  have "keeps Q (aflush io :: (unit, 'm upstream, 't) action)"
    by (rule keepsI)
      (auto simp: aflush_def same_response_def split: sum.split prod.split dest!: writes_keepD(4) [OF _ K] intro: frame)
  then show ?thesis
    unfolding write_upstream_request_def write_request_body_def finish_writing_request_body_def
    by (intro keeps_intros writer session)
      (auto dest: write_body_keeps [OF _ K] finish_keeps [OF _ K]
        simp: us_add_written_def force_close_response_body_reader_def same_response_def split: option.split)
qed

lemma unread_response_writes:
  assumes "unread_response pcs io pending lh extra rest y" "write_upstream_request io t y = (r, y')"
  shows "unread_response pcs io pending lh extra rest y'"
proof -
  have "writes_keep io pending" using assms(1) by (simp add: unread_response_def)
  then have "keeps (unread_response pcs io pending lh extra rest) (write_upstream_request io t)"
    by (rule keeps_write_upstream_request)
      (auto simp: same_response_def intro: unread_response_frame, simp add: unread_response_def)
  from keepsD [OF this assms] show ?thesis .
qed

text \<open>
  A dropped read of the response is lossless when it leaves the reader as it is and has taken nothing from the socket. In a
  body with a content length, or read until the close, every dropped read is; the exceptions are a read that has
  taken in part of the head, and one that has moved a partial chunk head inside its buffer.
\<close>

definition lossless_drops ::
  "('t \<Rightarrow> bytes) \<Rightarrow> ('m, 'x, 'm upstream \<times> 't) duplex_ops \<Rightarrow> ('m, 'x, 'm upstream \<times> 't) duplex_ops" where
  "lossless_drops pending Ops =
     Ops\<lparr>op_drop_response := (\<lambda>y y'. op_drop_response Ops y y' \<and>
        us_reader (fst y') = us_reader (fst y) \<and> pending (snd y') = pending (snd y))\<rparr>"

lemma lossless_ops [simp]:
  "op_retry_buffer (lossless_drops pending Ops) = op_retry_buffer Ops"
  "op_read_request (lossless_drops pending Ops) = op_read_request Ops"
  "op_write_response (lossless_drops pending Ops) = op_write_response Ops"
  "op_read_response (lossless_drops pending Ops) = op_read_response Ops"
  "op_write_request (lossless_drops pending Ops) = op_write_request Ops"
  "op_request_upgrade (lossless_drops pending Ops) = op_request_upgrade Ops"
  "op_drop_request (lossless_drops pending Ops) = op_drop_request Ops"
  "op_drop_response (lossless_drops pending Ops) y y' \<longleftrightarrow> op_drop_response Ops y y' \<and>
     us_reader (fst y') = us_reader (fst y) \<and> pending (snd y') = pending (snd y)"
  by (simp_all add: lossless_drops_def)

lemma body_drop_lossless:
  assumes "response_read_dropped H parse io y y'" "\<not> should_read_response_header (fst y)" "\<not> is_start (us_reader (fst y))"
    and "\<forall>a b c d. read_state (us_reader (fst y)) \<noteq> RChunked a b c d"
  shows "y' = y"
  using assms(1)
proof cases
  case (dropped_body u s v u1 s1 r)
  with assms(3) have "u1 = u" "s1 = s" by (simp_all add: set_response_body_reader_def)
  with dropped_body assms(4) read_dropped_same show ?thesis by fastforce
qed (use assms(2) in simp)

lemma unread_response_drops:
  assumes "unread_response pcs io pending lh extra rest y" "response_read_dropped H parse io y y'"
    and "us_reader (fst y') = us_reader (fst y)" "pending (snd y') = pending (snd y)"
  shows "unread_response pcs io pending lh extra rest y'"
  using assms(2)
proof cases
  case (dropped_head u s s')
  with assms(1) show ?thesis by (simp add: unread_response_def)
next
  case (dropped_body u s v u1 s1 r)
  have "\<not> is_start (us_reader u)"
    using assms(1) by (auto simp: unread_response_def dropped_body(1) dest: response_rep_start) (simp add: is_start_def)
  with dropped_body(4) have "u1 = u" by (simp add: set_response_body_reader_def)
  with unread_response_frame [OF assms(1) [unfolded dropped_body(1)], of "u1\<lparr>us_reader := r\<rparr>" s1] assms(3,4) show ?thesis
    by (simp add: dropped_body(1,2))
qed

section \<open>The client's side\<close>

text \<open>What finishing a response adds to the wire, and what a finished response is on the wire.\<close>

fun end_on_wire :: "write_state \<Rightarrow> bytes \<Rightarrow> bool" where
  "end_on_wire (WContentLength tot written) out \<longleftrightarrow> out = [] \<and> tot \<le> written"
| "end_on_wire (WChunkedEncoding written) out \<longleftrightarrow> out = last_chunk"
| "end_on_wire (WHTTP10 written) out \<longleftrightarrow> out = []"
| "end_on_wire q out \<longleftrightarrow> False"

definition complete_on_wire :: "write_state \<Rightarrow> bytes \<Rightarrow> bytes \<Rightarrow> bool" where
  "complete_on_wire q body out \<longleftrightarrow>
     (\<exists>out1 out2. out = out1 @ out2 \<and> body_on_wire q body out1 \<and> end_on_wire (advance (length body) q) out2)"

lemma complete_on_wire_modes:
  "complete_on_wire (WContentLength tot 0) body out \<longleftrightarrow> out = take tot body \<and> tot \<le> length body"
  "complete_on_wire (WHTTP10 k) body out \<longleftrightarrow> out = body"
  "complete_on_wire (WChunkedEncoding k) body out \<longleftrightarrow>
     (\<exists>ps. [] \<notin> set ps \<and> concat ps = body \<and> out = concat (map chunk ps) @ last_chunk)"
  by (auto simp: complete_on_wire_def)

definition written_response ::
  "'s io \<Rightarrow> ('s \<Rightarrow> bytes) \<Rightarrow> bytes \<Rightarrow> write_state \<Rightarrow> bytes \<Rightarrow> 'm downstream \<times> 's \<Rightarrow> bool" where
  "written_response io sentf base q sent x \<longleftrightarrow>
     accepts io sentf \<and> writing q \<and> between_batches (advance (length sent) q) (fst x) \<and>
     (\<exists>out. sentf (snd x) = base @ out \<and> body_on_wire q sent out)"

definition complete_response ::
  "('s \<Rightarrow> bytes) \<Rightarrow> bytes \<Rightarrow> write_state \<Rightarrow> bytes \<Rightarrow> 'm downstream \<times> 's \<Rightarrow> bool" where
  "complete_response sentf base q sent x \<longleftrightarrow>
     (\<exists>n. write_state (ds_writer (fst x)) = WCompleted n) \<and>
     (\<exists>out. sentf (snd x) = base @ out \<and> complete_on_wire q sent out)"

lemma written_response_frame:
  assumes "written_response io sentf base q sent (d, s)" "ds_writer d' = ds_writer d" "ds_vec_buffer d' = ds_vec_buffer d"
    "sentf s' = sentf s"
  shows "written_response io sentf base q sent (d', s')"
  using assms by (simp add: written_response_def between_batches_def)

text \<open>Reading the request touches nothing the response depends on.\<close>

definition same_answer :: "'m downstream \<Rightarrow> 'm downstream \<Rightarrow> bool" where
  "same_answer d d' \<longleftrightarrow> ds_writer d' = ds_writer d \<and> ds_vec_buffer d' = ds_vec_buffer d \<and> ds_request d' = ds_request d \<and>
     ds_response d' = ds_response d \<and> ds_keepalive d' = ds_keepalive d \<and> ds_upgrade d' = ds_upgrade d \<and>
     ds_update_headers d' = ds_update_headers d \<and> ds_ignore_headers d' = ds_ignore_headers d"

lemma keeps_read_downstream_request:
  fixes io :: "'s io" and Q :: "'m downstream \<times> 's \<Rightarrow> bool"
  assumes K: "io_contract io sentf"
    and frame: "\<And>d s d' s'. Q (d, s) \<Longrightarrow> same_answer d d' \<Longrightarrow> sentf s' = sentf s \<Longrightarrow> Q (d', s')"
  shows "keeps Q (read_downstream_request H pcs io)"
proof -
  have session: "keeps Q (asession f)" if "\<And>d. same_answer d (f d)" for f
    by (rule keepsI) (auto simp: asession_def intro: frame that)
  have set: "keeps Q (set_request_body_reader H)"
    by (rule keepsI)
      (auto simp: set_request_body_reader_def same_answer_def Let_def split: option.split outcome.split intro: frame)
  have idle: "keeps Q (ds_idle io)"
    by (rule keepsI)
      (auto simp: ds_idle_def same_answer_def split: sum.split prod.split dest!: io_read_contract(1) [OF K] intro: frame)
  have reader: "keeps Q (on_reader (read_body pcs io))"
    by (rule keepsI) (auto simp: on_reader_def same_answer_def split: prod.split dest!: read_body_wire [OF _ K] intro: frame)
  show ?thesis
    unfolding read_downstream_request_def read_request_body_or_idle_def is_reading_request_body_finished_def
      read_request_body_bytes_def read_request_body_def
    by (intro keeps_intros session set idle reader) (simp_all add: same_answer_def)
qed

lemma written_response_reads:
  assumes "written_response io sentf base q sent x" "read_downstream_request H pcs io x = (r, x')"
  shows "written_response io sentf base q sent x'"
proof -
  have "io_contract io sentf" using assms(1) by (simp add: written_response_def accepts_contract)
  then have "keeps (written_response io sentf base q sent) (read_downstream_request H pcs io)"
    by (rule keeps_read_downstream_request) (auto simp: same_answer_def intro: written_response_frame)
  from keepsD [OF this assms] show ?thesis .
qed

lemma request_dropped_frame:
  assumes "request_read_dropped H (d, s) (d', s')"
  shows "same_answer d d' \<and> s' = s"
proof -
  obtain o1 d1 s1 where run: "set_request_body_reader H (d, s) = (o1, d1, s1)" by (metis prod_cases3)
  then obtain v where set: "set_request_body_reader H (d, s) = (Ok v, d1, s1)"
    using assms by (cases o1) (simp_all add: request_read_dropped_def)
  then have "same_answer d d1 \<and> s1 = s"
    by (auto simp: set_request_body_reader_def same_answer_def Let_def split: if_splits option.splits outcome.splits)
  with assms set show ?thesis by (auto simp: request_read_dropped_def same_answer_def split: if_splits option.splits)
qed

lemma written_response_drops:
  "written_response io sentf base q sent x \<Longrightarrow> request_read_dropped H x x' \<Longrightarrow> written_response io sentf base q sent x'"
  using request_dropped_frame [of H "fst x" "snd x" "fst x'" "snd x'"] written_response_frame
  by (cases x; cases x') (fastforce simp: same_answer_def)

lemma finish_on_wire:
  assumes "io_contract io sentf" "write_state (ds_writer d) = q" "writing q"
    and "finish_writing_response_body io (d, s) = (Ok r, d', s')"
  shows "(\<exists>n. write_state (ds_writer d') = WCompleted n) \<and> (\<exists>out. sentf s' = sentf s @ out \<and> end_on_wire q out)"
proof -
  obtain r0 w' s1 v where w: "finish io (ds_writer d) s = (Ok r0, w', s1)" "io_flush io s1 = (Inr v, s')" "ds_writer d' = w'"
    using assms(4)
    by (auto simp: finish_writing_response_body_def on_writer_def abind_def asession_def areturn_def aflush_def
          force_close_request_body_reader_def split: prod.splits outcome.splits sum.splits if_splits)
  have flush: "sentf s' = sentf s1" by (rule io_flush_contract [OF assms(1) w(2)])
  show ?thesis
  proof (cases q)
    case (WContentLength tot k)
    then have "write_state w' = WCompleted k \<and> s1 = s \<and> tot \<le> k"
      using w(1) assms(2) by (auto simp: finish_def finish_content_length_def Let_def split: if_splits)
    with w(3) flush WContentLength show ?thesis by simp
  next
    case (WChunkedEncoding k)
    then obtain u where "io_write_all io last_chunk s = (Inr u, s1)" "write_state w' = WCompleted k"
      using w(1) assms(2) by (auto simp: finish_def finish_chunked_encoding_def split: sum.splits prod.splits)
    with io_write_all_contract [OF assms(1) this(1)] w(3) flush WChunkedEncoding show ?thesis by simp
  next
    case (WHTTP10 k)
    then have "write_state w' = WCompleted k \<and> s1 = s"
      using w(1) assms(2) by (auto simp: finish_def finish_until_closed_def)
    with w(3) flush WHTTP10 show ?thesis by simp
  qed (use assms(3) in auto)
qed

text \<open>A batch of pieces, perhaps with a last task, from a session that waits between two batches.\<close>

lemma plain_tasks: "\<forall>t\<in>set ts. plain t \<Longrightarrow> \<exists>bs. ts = map body_task bs"
proof (induction ts)
  case (Cons t ts)
  then obtain b bs where "t = body_task b" "ts = map body_task bs" by (auto simp: plain_def)
  then show ?case by (intro exI [of _ "b # bs"]) simp
qed simp

lemma bodies_bytes [simp]: "channel_bytes (map body_task bs) = concat bs"
  by (induction bs) (simp_all add: body_task_def)

lemma vectored_final:
  assumes "final_task t"
  shows "vectored_tasks H io date e (map body_task bs @ [t]) (d, s)
     = (Ok True, d\<lparr>ds_vec_buffer := ds_vec_buffer d @ concat bs @ task_bytes t\<rparr>, s)"
proof (induction bs arbitrary: d e)
  case Nil
  show ?case
  proof (cases t)
    case (TBody b e')
    then show ?thesis using assms by (cases b) (simp_all add: abind_def asession_def areturn_def)
  qed (use assms in \<open>simp_all add: areturn_def\<close>)
next
  case (Cons b bs)
  then show ?case by (simp add: body_task_def abind_def asession_def)
qed

lemma vectored_failed:
  assumes "failed_task t"
  shows "\<nexists>e x. vectored_tasks H io date e0 (map body_task bs @ [t]) (d, s) = (Ok e, x)"
proof (induction bs arbitrary: d e0)
  case Nil
  then show ?case using assms
    by (cases t) (auto simp: abind_def aflush_def afail_def split: outcome.splits prod.splits sum.splits)
next
  case (Cons b bs)
  then show ?case by (simp add: body_task_def abind_def asession_def)
qed

lemma single_final:
  assumes "accepts io sentf" "between_batches q d" "final_task t"
    and "write_response_to_downstream H io date t (d, s) = (Ok e, d', s')"
  shows "e \<and> (\<exists>d1 s1 out r. finish_writing_response_body io (d1, s1) = (Ok r, d', s') \<and>
    between_batches (advance (length (task_bytes t)) q) d1 \<and> sentf s1 = sentf s @ out \<and> body_on_wire q (task_bytes t) out)"
proof -
  have q: "write_state (ds_writer d) = q" "writing q" "ds_vec_buffer d = []"
    using assms(2) by (auto simp: between_batches_def)
  consider (piece) b where "t = TBody (Some b) True" "b \<noteq> []" | (none) "t = TBody None True \<or> t = TDone \<or> t = TBody (Some []) True"
    using assms(3) by (cases t rule: task_bytes.cases) auto
  then show ?thesis
  proof cases
    case none
    then have t: "task_bytes t = []" by auto
    have "e" "\<exists>r. finish_writing_response_body io (d, s) = (Ok r, d', s')"
      using none assms(4) by (auto simp: write_response_to_downstream_def abind_def areturn_def split: outcome.splits prod.splits)
    then show ?thesis using assms(2) q(2) on_wire_nil [OF q(2)] t
      by (auto simp: advance_0 intro!: exI [of _ d] exI [of _ s] exI [of _ "[]"])
  next
    case piece
    obtain r w' s1 out where w: "write_body io b (ds_writer d) s = (Ok r, w', s1)"
        "write_state w' = advance (length b) q" "sentf s1 = sentf s @ out" "body_on_wire q b out"
      using write_body_on_wire [OF assms(1) _ piece(2), of "ds_writer d" s] q by auto
    let ?d1 = "add_written r (d\<lparr>ds_writer := w'\<rparr>)"
    have bb: "between_batches (advance (length b) q) ?d1"
      using w(2) q by (auto simp: between_batches_def add_written_def writing_advance split: option.split)
    have "e" "\<exists>r. finish_writing_response_body io (?d1, s1) = (Ok r, d', s')"
      using assms(4) piece w(1)
      by (auto simp: write_response_to_downstream_def abind_def areturn_def write_response_body_def on_writer_def asession_def
            split: outcome.splits prod.splits)
    with bb w(3,4) piece(1) show ?thesis by auto
  qed
qed

text \<open>
  A batch goes through \<open>write_downstream_response\<close>; behind a header, its rest is written as a vector, also when it is
  a single task. What follows holds of both.
\<close>

abbreviation batch_writers :: "'m http \<Rightarrow> 's io \<Rightarrow> bytes \<Rightarrow> ('m task list \<Rightarrow> (bool, 'm downstream, 's) action) set" where
  "batch_writers H io date \<equiv> {write_downstream_response H io date, vectored_write_response_to_downstream H io date}"

lemma batch_cases:
  assumes "M \<in> batch_writers H io date"
  shows "M (ts @ [t]) = vectored_write_response_to_downstream H io date (ts @ [t]) \<or>
    ts = [] \<and> M (ts @ [t]) = write_response_to_downstream H io date t"
proof (cases "ts = []")
  case False
  then obtain u us where "ts = u # us" by (cases ts) simp_all
  then have "write_downstream_response H io date (ts @ [t]) = vectored_write_response_to_downstream H io date (ts @ [t])"
    by (cases us) (simp_all add: write_downstream_response_def)
  with assms show ?thesis by auto
qed (use assms in \<open>auto simp: write_downstream_response_def\<close>)

lemma batch_plain:
  assumes "M \<in> batch_writers H io date" "accepts io sentf" "between_batches q d" "bs \<noteq> []"
  shows "\<exists>d' s' out. M (map body_task bs) (d, s) = (Ok False, d', s') \<and>
     between_batches (advance (length (concat bs)) q) d' \<and> sentf s' = sentf s @ out \<and> body_on_wire q (concat bs) out"
  using assms(1) batch_on_wire [OF assms(2-4), of H date s] vectored_on_wire [OF assms(2,3), of H date bs s] by auto

lemma vectored_end:
  assumes "accepts io sentf" "between_batches q d" "final_task t"
    and "vectored_write_response_to_downstream H io date (map body_task bs @ [t]) (d, s) = (Ok e, d', s')"
  shows "e \<and> (\<exists>d1 s1 out r. finish_writing_response_body io (d1, s1) = (Ok r, d', s') \<and>
    between_batches (advance (length (concat bs @ task_bytes t)) q) d1 \<and> sentf s1 = sentf s @ out \<and>
    body_on_wire q (concat bs @ task_bytes t) out)"
proof -
  let ?d = "d\<lparr>ds_vec_buffer := concat bs @ task_bytes t\<rparr>"
  have q: "write_state (ds_writer ?d) = q" "writing q" "ds_vec_buffer d = []"
    using assms(2) by (auto simp: between_batches_def)
  obtain r d1 s1 out where w: "vectored_write_response_body io (?d, s) = (Ok r, d1, s1)"
      "between_batches (advance (length (concat bs @ task_bytes t)) q) d1" "sentf s1 = sentf s @ out"
      "body_on_wire q (concat bs @ task_bytes t) out"
    using vectored_write_bodies [OF assms(1) q(1,2), of s] by auto
  from assms(4) vectored_final [OF assms(3), of H io date False bs d s] q(3) w(1)
  have "e" "\<exists>r. finish_writing_response_body io (d1, s1) = (Ok r, d', s')"
    by (auto simp: vectored_write_response_to_downstream_def abind_def areturn_def split: outcome.splits prod.splits)
  with w(2-4) show ?thesis by blast
qed

lemma batch_final:
  assumes "M \<in> batch_writers H io date" "accepts io sentf" "between_batches q d" "final_task t"
    and "M (map body_task bs @ [t]) (d, s) = (Ok e, d', s')"
  shows "e \<and> (\<exists>d1 s1 out r. finish_writing_response_body io (d1, s1) = (Ok r, d', s') \<and>
    between_batches (advance (length (concat bs @ task_bytes t)) q) d1 \<and> sentf s1 = sentf s @ out \<and>
    body_on_wire q (concat bs @ task_bytes t) out)"
  using batch_cases [OF assms(1), of "map body_task bs" t]
proof (elim disjE conjE)
  assume "map body_task bs = []" "M (map body_task bs @ [t]) = write_response_to_downstream H io date t"
  with assms(5) single_final [OF assms(2-4), of H date s e d' s'] show ?thesis by simp
next
  assume "M (map body_task bs @ [t]) = vectored_write_response_to_downstream H io date (map body_task bs @ [t])"
  with assms(5) have "vectored_write_response_to_downstream H io date (map body_task bs @ [t]) (d, s) = (Ok e, d', s')" by simp
  from vectored_end [OF assms(2-4) this] show ?thesis .
qed

lemma batch_failed:
  assumes "M \<in> batch_writers H io date" "failed_task t"
  shows "M (map body_task bs @ [t]) (d, s) \<noteq> (Ok e, x)"
  using batch_cases [OF assms(1), of "map body_task bs" t]
proof (elim disjE conjE)
  assume "map body_task bs = []" "M (map body_task bs @ [t]) = write_response_to_downstream H io date t"
  with assms(2) show ?thesis by (cases t) (simp_all add: write_response_to_downstream_def abind_def afail_def)
next
  assume "M (map body_task bs @ [t]) = vectored_write_response_to_downstream H io date (map body_task bs @ [t])"
  with vectored_failed [OF assms(2), of H io date False bs d s] show ?thesis
    by (auto simp: vectored_write_response_to_downstream_def abind_def [of "vectored_tasks H io date False (map body_task bs @ [t])"]
        split: outcome.splits prod.splits)
qed

lemma written_responseE:
  assumes "written_response io sentf base q sent (d, s)"
  obtains out where "accepts io sentf" "writing q" "between_batches (advance (length sent) q) d"
    "sentf s = base @ out" "body_on_wire q sent out"
  using assms by (auto simp: written_response_def)

lemma written_plain:
  assumes "M \<in> batch_writers H io date" "written_response io sentf base q sent (d, s)" "bs \<noteq> []"
    and "M (map body_task bs) (d, s) = (Ok e, x')"
  shows "\<not> e \<and> written_response io sentf base q (sent @ concat bs) x'"
proof -
  from assms(2) obtain out where W: "accepts io sentf" "writing q" "between_batches (advance (length sent) q) d"
      "sentf s = base @ out" "body_on_wire q sent out" by (rule written_responseE)
  obtain d1 s1 out1 where b: "M (map body_task bs) (d, s) = (Ok False, d1, s1)"
      "between_batches (advance (length (concat bs)) (advance (length sent) q)) d1" "sentf s1 = sentf s @ out1"
      "body_on_wire (advance (length sent) q) (concat bs) out1"
    using batch_plain [OF assms(1) W(1,3) assms(3), of s] by blast
  have "written_response io sentf base q (sent @ concat bs) (d1, s1)"
    using W b(2,3) on_wire_append [OF W(2,5) b(4)] by (auto simp: written_response_def advance_add)
  with assms(4) b(1) show ?thesis by simp
qed

lemma finish_completes:
  assumes "accepts io sentf" "between_batches (advance (length sent) q) d" "sentf s = base @ out" "body_on_wire q sent out"
    and "finish_writing_response_body io (d, s) = (Ok r, x')"
  shows "complete_response sentf base q sent x'"
proof -
  obtain d' s' where x': "x' = (d', s')" by (cases x')
  have q: "write_state (ds_writer d) = advance (length sent) q" "writing (advance (length sent) q)"
    using assms(2) by (simp_all add: between_batches_def)
  from finish_on_wire [OF accepts_contract [OF assms(1)] q] assms(5) obtain n out' where fin:
    "write_state (ds_writer d') = WCompleted n" "sentf s' = sentf s @ out'" "end_on_wire (advance (length sent) q) out'"
    unfolding x' by blast
  with assms(4) have "complete_on_wire q sent (out @ out')" unfolding complete_on_wire_def by blast
  with fin(1,2) assms(3) show ?thesis unfolding complete_response_def x' by simp
qed

lemma written_final:
  assumes "M \<in> batch_writers H io date" "written_response io sentf base q sent (d, s)" "final_task t"
    and "M (map body_task bs @ [t]) (d, s) = (Ok e, x')"
  shows "e \<and> complete_response sentf base q (sent @ concat bs @ task_bytes t) x'"
proof -
  from assms(2) obtain out where W: "accepts io sentf" "writing q" "between_batches (advance (length sent) q) d"
      "sentf s = base @ out" "body_on_wire q sent out" by (rule written_responseE)
  obtain d' s' where x': "x' = (d', s')" by (cases x')
  from batch_final [OF assms(1) W(1,3) assms(3), of bs s e d' s'] assms(4)
  obtain d1 s1 out1 r where f: "e" "finish_writing_response_body io (d1, s1) = (Ok r, d', s')"
      "between_batches (advance (length (concat bs @ task_bytes t)) (advance (length sent) q)) d1" "sentf s1 = sentf s @ out1"
      "body_on_wire (advance (length sent) q) (concat bs @ task_bytes t) out1"
    unfolding x' by blast
  have "complete_response sentf base q (sent @ concat bs @ task_bytes t) (d', s')"
    by (rule finish_completes [OF W(1) _ _ on_wire_append [OF W(2,5) f(5)] f(2)])
      (use f(3,4) W(4) advance_add [OF W(2)] in \<open>simp_all add: add.assoc\<close>)
  with f(1) x' show ?thesis by simp
qed

lemma batch_writes:
  assumes M: "M \<in> batch_writers H io date" and W: "written_response io sentf base q sent x"
    and ts: "ts \<noteq> []" "queue_ok ts" and run: "M ts x = (Ok e, x')"
  shows "plain (last ts) \<and> \<not> e \<and> written_response io sentf base q (sent @ channel_bytes ts) x' \<or>
    final_task (last ts) \<and> e \<and> complete_response sentf base q (sent @ channel_bytes ts) x'"
proof -
  obtain d s where x: "x = (d, s)" by (cases x)
  obtain us t where us: "ts = us @ [t]" using ts(1) by (metis append_butlast_last_id)
  obtain bs where bs: "us = map body_task bs" using ts(2) plain_tasks unfolding us queue_ok_snoc by blast
  consider (plain) "plain t" | (final) "final_task t" | (failed) "failed_task t" using ts(2) unfolding us queue_ok_snoc by blast
  then show ?thesis
  proof cases
    case plain
    then obtain b where ts': "ts = map body_task (bs @ [b])" using us bs by (auto simp: plain_def)
    have "channel_bytes ts = concat (bs @ [b])" unfolding ts' by (rule bodies_bytes)
    with written_plain [OF M, of sentf base q sent d s "bs @ [b]" e x'] W run plain show ?thesis
      unfolding ts' x by (auto simp: us bs plain_def)
  next
    case final
    with written_final [OF M, of sentf base q sent d s t bs e x'] W run show ?thesis by (simp add: us bs x)
  next
    case failed
    with batch_failed [OF M, of t bs d s e x'] run show ?thesis by (simp add: us bs x)
  qed
qed

lemmas written_response_writes = batch_writes [where M = "write_downstream_response H io date" for H io date, OF insertI1]

interpretation answer: response_pipe "lossless_drops pending (session_ops H parse pcs date dio uio)"
  "unread_response pcs uio pending lh extra" "written_response dio sentf base q" "complete_response sentf base q"
  for H :: "'m http" and parse pcs date and dio :: "'s io" and uio :: "'t io" and pending lh extra sentf base q
proof
  fix rest sent x x' y y' t ts e r
  let ?Ops = "lossless_drops pending (session_ops H parse pcs date dio uio)"
  show "unread_response pcs uio pending lh extra rest y \<Longrightarrow> op_read_response ?Ops y = (Ok t, y') \<Longrightarrow>
      \<exists>rest'. rest = task_bytes t @ rest' \<and> unread_response pcs uio pending lh extra rest' y' \<and> (plain t \<or> final_task t \<and> rest' = [])"
    by (simp add: unread_response_reads)
  show "unread_response pcs uio pending lh extra rest y \<Longrightarrow> op_write_request ?Ops t y = (Ok e, y') \<Longrightarrow>
      unread_response pcs uio pending lh extra rest y'"
    by (simp add: unread_response_writes)
  show "written_response dio sentf base q sent x \<Longrightarrow> op_read_request ?Ops x = (r, x') \<Longrightarrow> written_response dio sentf base q sent x'"
    by (simp add: written_response_reads)
  show "written_response dio sentf base q sent x \<Longrightarrow> ts \<noteq> [] \<Longrightarrow> queue_ok ts \<Longrightarrow> op_write_response ?Ops ts x = (Ok e, x') \<Longrightarrow>
      plain (last ts) \<and> \<not> e \<and> written_response dio sentf base q (sent @ channel_bytes ts) x' \<or>
      final_task (last ts) \<and> e \<and> complete_response sentf base q (sent @ channel_bytes ts) x'"
    by (simp add: written_response_writes)
  show "unread_response pcs uio pending lh extra rest y \<Longrightarrow> op_drop_response ?Ops y y' \<Longrightarrow>
      unread_response pcs uio pending lh extra rest y'"
    by (auto intro: unread_response_drops)
  show "written_response dio sentf base q sent x \<Longrightarrow> op_drop_request ?Ops x x' \<Longrightarrow> written_response dio sentf base q sent x'"
    by (simp add: written_response_drops)
qed

text \<open>
  What the client has received of \<open>body\<close> after \<open>base\<close>, in mode \<open>q\<close>: a prefix, with the rest on its way or unread
  unless the downstream loop has ended; or all of it, once the writer has finished.
\<close>

definition client_received :: "('s \<Rightarrow> bytes) \<Rightarrow> bytes \<Rightarrow> write_state \<Rightarrow> bytes \<Rightarrow> ('m, 'm downstream \<times> 's, 'y) duplex \<Rightarrow> bool" where
  "client_received sentf base q body s \<longleftrightarrow>
     (\<exists>sent out. prefix sent body \<and> sentf (snd (dx_down s)) = base @ out \<and>
        (if \<exists>n. write_state (ds_writer (fst (dx_down s))) = WCompleted n
         then sent = body \<and> complete_on_wire q body out
         else body_on_wire q sent out \<and> (down_ended s \<or> (\<exists>rest. body = sent @ channel_bytes (in_flight s) @ rest))))"

lemma written_received:
  assumes "written_response io sentf base q sent (dx_down s)"
    and "prefix sent body \<and> down_ended s \<or> body = sent @ channel_bytes (in_flight s) @ rest"
  shows "client_received sentf base q body s"
proof -
  obtain d t where x: "dx_down s = (d, t)" by (cases "dx_down s")
  from assms(1) obtain out where w: "writing q" "between_batches (advance (length sent) q) d" "sentf t = base @ out" "body_on_wire q sent out"
    unfolding x by (rule written_responseE) blast
  have "\<nexists>n. write_state (ds_writer d) = WCompleted n"
    using w(2) writing_advance [OF w(1), of "length sent"] by (auto simp: between_batches_def)
  moreover have "prefix sent body" using assms(2) by auto
  ultimately show ?thesis using w(3,4) assms(2) unfolding client_received_def x fst_conv snd_conv by auto
qed

lemma complete_received: "complete_response sentf base q body (dx_down s) \<Longrightarrow> client_received sentf base q body s"
  by (auto simp: complete_response_def client_received_def)

section \<open>Properties\<close>

text \<open>
  The response body crosses the proxy unharmed, as long as no read of it that moved a partial chunk head is dropped: once its
  header has been read from the server and written to the client, whatever the interleaving of the two loops, the timing and segmentation of both sockets,
  the framing of the server's body (content length, chunks, or the close) and whatever the client sends
  meanwhile, the client has been sent a prefix of the body in its own framing; the pieces in the channel
  and in the upstream loop's hand come next. If the response was finished, it is the whole body with its
  end marker. Only failing to write to the client is excluded.
\<close>

theorem response_body_forwarded:
  assumes "unread_response pcs uio pending lh extra body (dx_up s0)"
    and "accepts dio sentf" "between_batches q (fst (dx_down s0))" "sentf (snd (dx_down s0)) = base"
    and "dx_dl s0 = DRun rd False" "dx_ul s0 = URun rd' False" "dx_responses s0 = []"
    and "duplex_run (lossless_drops pending (session_ops H parse pcs date dio uio)) s0 s" "\<not> write_failed s"
  shows "client_received sentf base q body s"
proof -
  have q: "writing q" using assms(3) by (simp add: between_batches_def)
  have "written_response dio sentf base q [] (dx_down s0)"
    using assms(2-4) q by (simp add: written_response_def advance_0 on_wire_nil)
  then have "answer.flowing pcs uio pending lh extra dio sentf base q body s0"
    using assms(1,6,7) by (auto simp: answer.flowing_def in_flight_def intro: answer.flow_start)
  then have "answer.carried pcs uio pending lh extra dio sentf base q body s0"
    using assms(5) by (simp add: answer.carried_def down_ended_def)
  from answer.run_carried [OF assms(8) this] assms(9) consider
      (flow) sent rest where "written_response dio sentf base q sent (dx_down s)" "body = sent @ channel_bytes (in_flight s) @ rest"
    | (stopped) sent where "written_response dio sentf base q sent (dx_down s)" "prefix sent body" "down_ended s"
    | (complete) "complete_response sentf base q body (dx_down s)"
    unfolding answer.carried_def answer.flowing_def answer.flow_def by blast
  then show ?thesis by cases (blast intro: written_received complete_received)+
qed

lemma response_body_forwarded_witness:
  "\<exists>s b e. duplex_run (lossless_drops (\<lambda>s. concat (rx s)) (session_ops list_http (prefix_parser ''x'' \<lparr>pp_code = None,
        pp_reason = None, pp_version = None, pp_headers = []\<rparr>) (hex_line 0 0) ''now'' script_io script_io))
      \<lparr>dx_down = (example_downstream\<lparr>ds_writer := \<lparr>write_state = WHTTP10 0\<rparr>\<rparr>, \<lparr>rx = [], tx = ''head''\<rparr>),
       dx_up = (example_upstream\<lparr>us_response := Some example_response, us_reader := \<lparr>read_state = RPartial 0 10,
           body_buffer = Some ''..........'', body_size = 10, rewind_buf_size = 0\<rparr>\<rparr>, \<lparr>rx = [''01234'', ''56789''], tx = []\<rparr>),
       dx_requests = [], dx_responses = [], dx_dl = DRun False False, dx_ul = URun False False\<rparr> s \<and>
    dx_responses s = [TBody (Some b) e] \<and> (\<exists>out rest. tx (snd (dx_down s)) = ''head'' @ out \<and> ''0123456789'' = out @ b @ rest)"
proof -
  let ?parse = "prefix_parser ''x'' \<lparr>pp_code = None, pp_reason = None, pp_version = None, pp_headers = []\<rparr>"
  let ?Ops = "lossless_drops (\<lambda>s. concat (rx s)) (session_ops list_http ?parse (hex_line 0 0) ''now'' script_io script_io)"
  let ?u = "example_upstream\<lparr>us_response := Some example_response, us_reader := \<lparr>read_state = RPartial 0 10,
           body_buffer = Some ''..........'', body_size = 10, rewind_buf_size = 0\<rparr>\<rparr>"
  let ?srv = "\<lparr>rx = [''01234'', ''56789''], tx = []\<rparr>"
  let ?d = "example_downstream\<lparr>ds_writer := \<lparr>write_state = WHTTP10 0\<rparr>\<rparr>"
  let ?s0 = "\<lparr>dx_down = (?d, \<lparr>rx = [], tx = ''head''\<rparr>), dx_up = (?u, ?srv),
       dx_requests = [], dx_responses = [], dx_dl = DRun False False, dx_ul = URun False False\<rparr>"
  have rep: "content_length_rep script_io (\<lambda>s. concat (rx s)) 0 ''0123456789'' (us_reader ?u) ?srv"
    by (simp add: content_length_rep_def script_delivers buffered_def rewound_def usize_mod_def)
  have hd: "\<not> should_read_response_header ?u" "\<not> us_upgrade ?u" "\<not> is_start (us_reader ?u)" "\<not> is_finished (us_reader ?u)"
    by (simp_all add: should_read_response_header_def example_response_def example_upstream_def is_start_def is_finished_def)
  have unread: "unread_response (hex_line 0 0) script_io (\<lambda>s. concat (rx s)) [] [] ''0123456789'' (dx_up ?s0)"
    using rep hd by (auto simp: unread_response_def response_rep_def script_writes_keep)
  from us_content_length.session.progress [OF rep, where H = list_http and pcs = "hex_line 0 0"] obtain bs c u' s' where
    piece: "response_piece list_http (hex_line 0 0) script_io ?u ?srv = (Ok (Some bs), u', s')"
      "content_length_rep script_io (\<lambda>s. concat (rx s)) (0 + length bs) c (us_reader u') s'"
    by auto
  let ?t = "TBody (Some bs) (is_finished (us_reader u'))"
  have start': "\<not> is_start (us_reader u')" using piece(2) by (auto simp: content_length_rep_def is_start_def)
  have task: "read_upstream_response list_http ?parse (hex_line 0 0) script_io (?u, ?srv) = (Ok ?t, u', s')"
    using read_response_task [OF hd(1,3), of list_http ?parse "hex_line 0 0" script_io ?srv] hd(4) piece(1)
      reading_finished_started [OF start', of list_http s']
    by (simp add: abind_def [of "read_response_body_bytes _ _ _"] abind_def [of "is_reading_response_body_finished _"] areturn_def)
  let ?s1 = "?s0\<lparr>dx_up := (u', s'), dx_ul := USend (is_finished (us_reader u')) ?t\<rparr>"
  let ?s2 = "?s1\<lparr>dx_responses := [?t], dx_ul := URun (is_finished (us_reader u')) (is_finished (us_reader u'))\<rparr>"
  have "up_step ?Ops ?s0 ?s1" using u_read [of ?s0 False ?Ops ?t "(u', s')"] task by simp
  then have 1: "duplex_step ?Ops ?s0 ?s1" by (rule by_up [rotated]) (simp add: copy_result_def)
  have "up_step ?Ops ?s1 ?s2" using u_send [of ?s1 "is_finished (us_reader u')" ?t ?Ops] by (simp add: down_ended_def channel_size_def)
  then have 2: "duplex_step ?Ops ?s1 ?s2" by (rule by_up [rotated]) (simp add: copy_result_def)
  from 1 2 have run: "duplex_run ?Ops ?s0 ?s2" by simp
  have "between_batches (WHTTP10 0) (fst (dx_down ?s0))" by (simp add: between_batches_def example_downstream_def)
  from response_body_forwarded [OF unread script_accepts this _ _ _ _ run, of "''head''" False False]
  have "\<exists>out rest. tx (snd (dx_down ?s2)) = ''head'' @ out \<and> ''0123456789'' = out @ bs @ rest"
    by (auto simp: client_received_def in_flight_def write_failed_def down_ended_def split: if_splits)
  with run show ?thesis by (intro exI [of _ ?s2] exI [of _ bs] exI [of _ "is_finished (us_reader u')"]) simp
qed

end
