(* ===== verification/ResponseExchange.thy ===== *)
theory ResponseExchange
  imports Exchange DuplexResponse
begin

text \<open>
  The other direction of a whole exchange: from the bytes the server answers, over reading the response's head,
  to the response header and the body on the client's socket. The contract of DuplexResponse.thy is extended by the time
  before the header has been written.
\<close>

section \<open>The contract, with the header\<close>


section \<open>The server's side\<close>









section \<open>The client's side\<close>

















section \<open>Properties\<close>










end
