(* ===== verification/GatewayCache.thy ===== *)
theory GatewayCache
  imports Prelude
begin

text \<open>
  The gateway's response cache: the storage and its handlers (glaive/src/cache.rs) and the bucket that
  bundles it with eviction, predictor and lock (glaive/src/bucket.rs). The concurrent hash map of the
  scc crate, pingora's cache metadata and keys are records of operations; their documented behaviour is
  the predicates \<open>scc_laws\<close> and \<open>meta_laws\<close>. The handlers share the storage through an \<open>Arc\<close>, so the
  storage is a state that the operations pass on.
\<close>

section \<open>The crates the cache is built on\<close>

type_synonym binary_meta = "bytes \<times> bytes"

record cache_object =
  co_meta :: binary_meta
  co_body :: bytes

record ('k, 'h) scc =
  scc_new :: 'h
  scc_get :: "'k \<Rightarrow> 'h \<Rightarrow> cache_object option"
  scc_insert :: "'k \<Rightarrow> cache_object \<Rightarrow> 'h \<Rightarrow> bool \<times> 'h"
  scc_remove :: "'k \<Rightarrow> 'h \<Rightarrow> cache_object option \<times> 'h"
  scc_update :: "'k \<Rightarrow> (cache_object \<Rightarrow> cache_object) \<Rightarrow> 'h \<Rightarrow> bool \<times> 'h"

text \<open>\<open>insert\<close> does not replace: it fails when the key is present, which the code ignores with \<open>.ok()\<close>.\<close>

definition scc_laws :: "('k, 'h) scc \<Rightarrow> bool" where
  "scc_laws C \<longleftrightarrow>
     (\<forall>k. scc_get C k (scc_new C) = None) \<and>
     (\<forall>k v h. fst (scc_insert C k v h) = (scc_get C k h = None)) \<and>
     (\<forall>k v h j. scc_get C j (snd (scc_insert C k v h)) =
        (if j = k \<and> scc_get C k h = None then Some v else scc_get C j h)) \<and>
     (\<forall>k h. fst (scc_remove C k h) = scc_get C k h) \<and>
     (\<forall>k h j. scc_get C j (snd (scc_remove C k h)) = (if j = k then None else scc_get C j h)) \<and>
     (\<forall>k f h. fst (scc_update C k f h) = (scc_get C k h \<noteq> None)) \<and>
     (\<forall>k f h j. scc_get C j (snd (scc_update C k f h)) =
        (if j = k then map_option f (scc_get C k h) else scc_get C j h))"

lemma scc_lawsD:
  assumes "scc_laws C"
  shows "scc_get C k (scc_new C) = None"
    and "fst (scc_insert C k v h) = (scc_get C k h = None)"
    and "scc_get C j (snd (scc_insert C k v h)) =
        (if j = k \<and> scc_get C k h = None then Some v else scc_get C j h)"
    and "fst (scc_remove C k h) = scc_get C k h"
    and "scc_get C j (snd (scc_remove C k h)) = (if j = k then None else scc_get C j h)"
    and "fst (scc_update C k f h) = (scc_get C k h \<noteq> None)"
    and "scc_get C j (snd (scc_update C k f h)) = (if j = k then map_option f (scc_get C k h) else scc_get C j h)"
  using assms unfolding scc_laws_def by blast+

text \<open>A cache key hashes to the same value directly and through its compact form.\<close>

record ('key, 'c, 'k, 'm) cache_meta =
  key_bin :: "'key \<Rightarrow> 'k"
  key_compact :: "'key \<Rightarrow> 'c"
  compact_bin :: "'c \<Rightarrow> 'k"
  meta_serialize :: "'m \<Rightarrow> io_error + binary_meta"
  meta_deserialize :: "bytes \<Rightarrow> bytes \<Rightarrow> io_error + 'm"
  meta_fresh_until :: "'m \<Rightarrow> nat"

definition meta_laws :: "('key, 'c, 'k, 'm) cache_meta \<Rightarrow> bool" where
  "meta_laws M \<longleftrightarrow>
     (\<forall>key. compact_bin M (key_compact M key) = key_bin M key) \<and>
     (\<forall>m a b. meta_serialize M m = Inr (a, b) \<longrightarrow> meta_deserialize M a b = Inr m)"

section \<open>The storage\<close>

record 'h memory_storage =
  ms_cache :: 'h
  ms_max_file_size :: "nat option"
  ms_reject_empty :: bool

definition storage_with_capacity :: "('k, 'h) scc \<Rightarrow> nat \<Rightarrow> 'h memory_storage" where
  "storage_with_capacity C capacity = \<lparr>ms_cache = scc_new C, ms_max_file_size = None, ms_reject_empty = False\<rparr>"

definition storage_new_unbounded :: "('k, 'h) scc \<Rightarrow> 'h memory_storage" where
  "storage_new_unbounded C = \<lparr>ms_cache = scc_new C, ms_max_file_size = None, ms_reject_empty = False\<rparr>"

definition with_max_file_size :: "nat option \<Rightarrow> 'h memory_storage \<Rightarrow> 'h memory_storage" where
  "with_max_file_size m s = s\<lparr>ms_max_file_size := m\<rparr>"

definition with_reject_empty_body :: "bool \<Rightarrow> 'h memory_storage \<Rightarrow> 'h memory_storage" where
  "with_reject_empty_body b s = s\<lparr>ms_reject_empty := b\<rparr>"

definition storage_purge ::
  "('k, 'h) scc \<Rightarrow> ('key, 'c, 'k, 'm) cache_meta \<Rightarrow> 'c \<Rightarrow> 'h memory_storage \<Rightarrow> bool outcome \<times> 'h memory_storage" where
  "storage_purge C M compact s =
     (let (old, h) = scc_remove C (compact_bin M compact) (ms_cache s)
      in (Ok (old \<noteq> None), s\<lparr>ms_cache := h\<rparr>))"

section \<open>A hit\<close>

record hit_handler =
  hh_object :: cache_object
  hh_done :: bool
  hh_start :: nat
  hh_end :: nat

definition hit_new :: "cache_object \<Rightarrow> hit_handler" where
  "hit_new obj = \<lparr>hh_object = obj, hh_done = False, hh_start = 0, hh_end = length (co_body obj)\<rparr>"

definition hit_read_body :: "hit_handler \<Rightarrow> bytes option outcome \<times> hit_handler" where
  "hit_read_body h =
     (if hh_done h then (Ok None, h)
      else (bind_outcome (get_slice (hh_start h) (hh_end h) (co_body (hh_object h))) (\<lambda>b. Ok (Some b)),
            h\<lparr>hh_done := True\<rparr>))"

definition hit_seek :: "nat \<Rightarrow> nat option \<Rightarrow> hit_handler \<Rightarrow> unit outcome \<times> hit_handler" where
  "hit_seek start end_opt h =
     (let len = length (co_body (hh_object h))
      in if len \<le> start then (Err (Other ''seek start out of range''), h)
         else (Ok (),
           (let h1 = h\<lparr>hh_start := start\<rparr>;
                h2 = (case end_opt of Some e \<Rightarrow> h1\<lparr>hh_end := min len e\<rparr> | None \<Rightarrow> h1)
            in h2\<lparr>hh_done := False\<rparr>)))"

text \<open>The lookup at time \<open>now\<close>: an expired object is purged, and handed out all the same.\<close>

definition storage_lookup ::
  "('k, 'h) scc \<Rightarrow> ('key, 'c, 'k, 'm) cache_meta \<Rightarrow> nat \<Rightarrow> 'key \<Rightarrow> 'h memory_storage
   \<Rightarrow> ('m \<times> hit_handler) option outcome \<times> 'h memory_storage" where
  "storage_lookup C M now key s =
     (case scc_get C (key_bin M key) (ms_cache s) of
        None \<Rightarrow> (Ok None, s)
      | Some obj \<Rightarrow>
          (case meta_deserialize M (fst (co_meta obj)) (snd (co_meta obj)) of
             Inl e \<Rightarrow> (Err e, s)
           | Inr meta \<Rightarrow>
               if meta_fresh_until M meta < now
               then (case storage_purge C M (key_compact M key) s of
                       (Ok b, s') \<Rightarrow> (Ok (Some (meta, hit_new obj)), s')
                     | (_, s') \<Rightarrow> (Panic ''PURGE ERROR'', s'))
               else (Ok (Some (meta, hit_new obj)), s)))"

section \<open>A miss\<close>

record 'k miss_handler =
  mh_meta :: binary_meta
  mh_key :: 'k
  mh_body :: bytes

definition get_miss_handler ::
  "('key, 'c, 'k, 'm) cache_meta \<Rightarrow> 'key \<Rightarrow> 'm \<Rightarrow> 'k miss_handler outcome" where
  "get_miss_handler M key meta =
     (case meta_serialize M meta of
        Inl e \<Rightarrow> Err e
      | Inr raw \<Rightarrow> Ok \<lparr>mh_meta = raw, mh_key = key_bin M key, mh_body = []\<rparr>)"

definition miss_write_body ::
  "'h memory_storage \<Rightarrow> bytes \<Rightarrow> 'k miss_handler \<Rightarrow> unit outcome \<times> 'k miss_handler" where
  "miss_write_body s piece h =
     (case ms_max_file_size s of
        Some m \<Rightarrow>
          if m < length (mh_body h) + length piece then (Err (Other ''response too large''), h)
          else (Ok (), h\<lparr>mh_body := mh_body h @ piece\<rparr>)
      | None \<Rightarrow> (Ok (), h\<lparr>mh_body := mh_body h @ piece\<rparr>))"

definition miss_finish ::
  "('k, 'h) scc \<Rightarrow> 'k miss_handler \<Rightarrow> 'h memory_storage \<Rightarrow> nat outcome \<times> 'h memory_storage" where
  "miss_finish C h s =
     (if length (mh_body h) = 0 \<and> ms_reject_empty s
      then (Err (Other ''cache write error: empty body''), s)
      else
        (let obj = \<lparr>co_meta = mh_meta h, co_body = mh_body h\<rparr>;
             (inserted, c) = scc_insert C (mh_key h) obj (ms_cache s)
         in (Ok (length (mh_body h) + length (fst (mh_meta h)) + length (snd (mh_meta h))), s\<lparr>ms_cache := c\<rparr>)))"

definition storage_update_meta ::
  "('k, 'h) scc \<Rightarrow> ('key, 'c, 'k, 'm) cache_meta \<Rightarrow> 'key \<Rightarrow> 'm \<Rightarrow> 'h memory_storage
   \<Rightarrow> bool outcome \<times> 'h memory_storage" where
  "storage_update_meta C M key meta s =
     (case meta_serialize M meta of
        Inl e \<Rightarrow> (Err e, s)
      | Inr raw \<Rightarrow>
          (let (updated, h) = scc_update C (key_bin M key) (\<lambda>v. v\<lparr>co_meta := raw\<rparr>) (ms_cache s)
           in if updated then (Ok True, s\<lparr>ms_cache := h\<rparr>)
              else (Err (Other ''No meta found for update_meta''), s\<lparr>ms_cache := h\<rparr>)))"

text \<open>The response written piece by piece; the first refused piece ends the admission.\<close>

fun miss_write_all ::
  "'h memory_storage \<Rightarrow> bytes list \<Rightarrow> 'k miss_handler \<Rightarrow> unit outcome \<times> 'k miss_handler" where
  "miss_write_all s [] h = (Ok (), h)"
| "miss_write_all s (p # ps) h =
     (case miss_write_body s p h of (Ok u, h') \<Rightarrow> miss_write_all s ps h' | r \<Rightarrow> r)"

section \<open>The bucket\<close>

text \<open>What \<open>new_storage\<close> of glaive/src/def.rs sets: eviction (bytes and entries) and the lock's timeout.\<close>

record ('h, 'p) cache_bucket =
  cb_storage :: "'h memory_storage"
  cb_eviction :: "(nat \<times> nat) option"
  cb_predictor :: "'p option"
  cb_lock :: "nat option"

definition bucket_new :: "'h memory_storage \<Rightarrow> ('h, 'p) cache_bucket" where
  "bucket_new s = \<lparr>cb_storage = s, cb_eviction = None, cb_predictor = None, cb_lock = None\<rparr>"

definition with_eviction :: "nat \<times> nat \<Rightarrow> ('h, 'p) cache_bucket \<Rightarrow> ('h, 'p) cache_bucket" where
  "with_eviction e b = b\<lparr>cb_eviction := Some e\<rparr>"

definition without_eviction :: "('h, 'p) cache_bucket \<Rightarrow> ('h, 'p) cache_bucket" where
  "without_eviction b = b\<lparr>cb_eviction := None\<rparr>"

definition with_predictor :: "'p \<Rightarrow> ('h, 'p) cache_bucket \<Rightarrow> ('h, 'p) cache_bucket" where
  "with_predictor p b = b\<lparr>cb_predictor := Some p\<rparr>"

definition without_predictor :: "('h, 'p) cache_bucket \<Rightarrow> ('h, 'p) cache_bucket" where
  "without_predictor b = b\<lparr>cb_predictor := None\<rparr>"

definition with_cache_lock :: "nat \<Rightarrow> ('h, 'p) cache_bucket \<Rightarrow> ('h, 'p) cache_bucket" where
  "with_cache_lock t b = b\<lparr>cb_lock := Some t\<rparr>"

definition without_cache_lock :: "('h, 'p) cache_bucket \<Rightarrow> ('h, 'p) cache_bucket" where
  "without_cache_lock b = b\<lparr>cb_lock := None\<rparr>"

record memory_cache =
  mc_ttl :: nat
  mc_max_size :: nat
  mc_max_cache :: nat
  mc_lock_timeout :: nat

definition umul :: "nat \<Rightarrow> nat \<Rightarrow> nat" where
  "umul a b = (a * b) mod usize_mod"

definition mega_byte :: nat where
  "mega_byte = 1048576"

definition new_storage :: "('k, 'h) scc \<Rightarrow> memory_cache \<Rightarrow> ('h, 'p) cache_bucket option \<times> nat option" where
  "new_storage C mc =
     (Some (with_cache_lock (mc_lock_timeout mc)
        (with_eviction (umul mega_byte (mc_max_cache mc), 8192)
          (bucket_new
            (with_max_file_size (Some (umul mega_byte (mc_max_size mc)))
              (with_reject_empty_body True (storage_with_capacity C 8192)))))),
      Some (mc_ttl mc))"

section \<open>What the handlers do\<close>

lemma miss_write_all_body:
  assumes "\<forall>m. ms_max_file_size s = Some m \<longrightarrow> length (mh_body h) + length (concat ps) \<le> m"
  shows "miss_write_all s ps h = (Ok (), h\<lparr>mh_body := mh_body h @ concat ps\<rparr>)"
  using assms
proof (induction ps arbitrary: h)
  case (Cons p ps)
  have "miss_write_body s p h = (Ok (), h\<lparr>mh_body := mh_body h @ p\<rparr>)"
    using Cons.prems by (auto simp: miss_write_body_def split: option.splits)
  then show ?case using Cons.prems Cons.IH [of "h\<lparr>mh_body := mh_body h @ p\<rparr>"] by (simp add: add.assoc)
qed simp

lemma miss_write_all_refuses:
  assumes "ms_max_file_size s = Some m" "m < length (mh_body h) + length (concat ps)"
    and "length (mh_body h) \<le> m"
  shows "fst (miss_write_all s ps h) = Err (Other ''response too large'')"
  using assms(2,3)
proof (induction ps arbitrary: h)
  case (Cons p ps)
  then show ?case
    using Cons.IH [of "h\<lparr>mh_body := mh_body h @ p\<rparr>"] assms(1) by (auto simp: miss_write_body_def not_less)
qed simp

lemma lookup_fresh:
  assumes "scc_get C (key_bin M key) (ms_cache s) = Some obj"
    and "meta_deserialize M (fst (co_meta obj)) (snd (co_meta obj)) = Inr meta" "now \<le> meta_fresh_until M meta"
  shows "storage_lookup C M now key s = (Ok (Some (meta, hit_new obj)), s)"
  using assms by (simp add: storage_lookup_def)

lemma lookup_expired:
  assumes "scc_get C (key_bin M key) (ms_cache s) = Some obj"
    and "meta_deserialize M (fst (co_meta obj)) (snd (co_meta obj)) = Inr meta" "meta_fresh_until M meta < now"
    and "meta_laws M"
  shows "storage_lookup C M now key s =
    (Ok (Some (meta, hit_new obj)), s\<lparr>ms_cache := snd (scc_remove C (key_bin M key) (ms_cache s))\<rparr>)"
  using assms by (simp add: storage_lookup_def storage_purge_def meta_laws_def case_prod_unfold Let_def)

lemma hit_new_reads: "fst (hit_read_body (hit_new obj)) = Ok (Some (co_body obj))"
  by (simp add: hit_read_body_def hit_new_def get_slice_def)

lemma hit_read_done: "fst (hit_read_body (snd (hit_read_body h))) = Ok None"
  by (simp add: hit_read_body_def)

section \<open>Instances for the witnesses\<close>

definition list_scc :: "('k, ('k \<times> cache_object) list) scc" where
  "list_scc = \<lparr>scc_new = [], scc_get = (\<lambda>k h. map_of h k),
     scc_insert = (\<lambda>k v h. if map_of h k = None then (True, (k, v) # h) else (False, h)),
     scc_remove = (\<lambda>k h. (map_of h k, filter (\<lambda>e. fst e \<noteq> k) h)),
     scc_update = (\<lambda>k f h. (map_of h k \<noteq> None, map (\<lambda>(j, v). (j, if j = k then f v else v)) h))\<rparr>"

lemma list_scc_laws: "scc_laws list_scc"
proof -
  have rm: "map_of (filter (\<lambda>e. fst e \<noteq> k) h) j = (if j = k then None else map_of h j)"
    for k j :: 'k and h :: "('k \<times> cache_object) list"
    by (induction h) auto
  have up: "map_of (map (\<lambda>(j, v). (j, if j = k then f v else v)) h) j =
      (if j = k then map_option f (map_of h k) else map_of h j)" for k j :: 'k and h :: "('k \<times> cache_object) list" and f
    by (induction h) auto
  show ?thesis by (auto simp: scc_laws_def list_scc_def rm up)
qed

definition text_meta :: "(string, string, string, string \<times> nat) cache_meta" where
  "text_meta = \<lparr>key_bin = \<lambda>k. k, key_compact = \<lambda>k. k, compact_bin = \<lambda>c. c,
     meta_serialize = \<lambda>m. Inr (fst m, replicate (snd m) CHR ''1''),
     meta_deserialize = \<lambda>a b. Inr (a, length b), meta_fresh_until = snd\<rparr>"

lemma text_meta_laws: "meta_laws text_meta"
  by (auto simp: meta_laws_def text_meta_def)

section \<open>Properties\<close>

text \<open>
  C14 (roundtrip). What is admitted comes back: a response written piece by piece under a key that is
  not cached, not empty and within the size limit, is found by every lookup until it expires, and the
  handler reads exactly its bytes, once.
\<close>

theorem cache_round_trip:
  assumes "scc_laws C" "meta_laws M" "meta_serialize M meta = Inr raw"
    and "scc_get C (key_bin M key) (ms_cache s) = None" "concat ps \<noteq> []"
    and "\<forall>m. ms_max_file_size s = Some m \<longrightarrow> length (concat ps) \<le> m"
    and "now \<le> meta_fresh_until M meta"
  shows "\<exists>h h' s' hit. get_miss_handler M key meta = Ok h \<and> miss_write_all s ps h = (Ok (), h') \<and>
    miss_finish C h' s = (Ok (length (concat ps) + length (fst raw) + length (snd raw)), s') \<and>
    storage_lookup C M now key s' = (Ok (Some (meta, hit)), s') \<and>
    fst (hit_read_body hit) = Ok (Some (concat ps)) \<and> fst (hit_read_body (snd (hit_read_body hit))) = Ok None"
proof -
  let ?h = "\<lparr>mh_meta = raw, mh_key = key_bin M key, mh_body = []\<rparr>"
  let ?obj = "\<lparr>co_meta = raw, co_body = concat ps\<rparr>"
  let ?s = "s\<lparr>ms_cache := snd (scc_insert C (key_bin M key) ?obj (ms_cache s))\<rparr>"
  have written: "miss_write_all s ps ?h = (Ok (), ?h\<lparr>mh_body := concat ps\<rparr>)"
    using miss_write_all_body [of s ?h ps] assms(6) by simp
  have finish: "miss_finish C (?h\<lparr>mh_body := concat ps\<rparr>) s
      = (Ok (length (concat ps) + length (fst raw) + length (snd raw)), ?s)"
    using assms(5) by (simp add: miss_finish_def case_prod_unfold Let_def)
  have "scc_get C (key_bin M key) (ms_cache ?s) = Some ?obj"
    using scc_lawsD(3) [OF assms(1)] assms(4) by simp
  moreover have "meta_deserialize M (fst (co_meta ?obj)) (snd (co_meta ?obj)) = Inr meta"
    using assms(2,3) by (cases raw) (simp add: meta_laws_def)
  ultimately have "storage_lookup C M now key ?s = (Ok (Some (meta, hit_new ?obj)), ?s)"
    using assms(7) by (intro lookup_fresh)
  then show ?thesis
    using written finish assms(3) hit_new_reads [of ?obj] hit_read_done by (auto simp: get_miss_handler_def)
qed

lemma cache_round_trip_witness:
  "\<exists>h s' hit. get_miss_handler text_meta ''k'' (''200'', 9) = Ok h \<and>
    storage_lookup list_scc text_meta 5 ''k'' s' = (Ok (Some ((''200'', 9), hit)), s') \<and>
    fst (hit_read_body hit) = Ok (Some ''hello'')"
proof -
  let ?s = "with_max_file_size (Some 8) (with_reject_empty_body True (storage_with_capacity list_scc 8192))"
  from cache_round_trip [OF list_scc_laws text_meta_laws, where meta = "(''200'', 9)" and key = "''k''" and s = ?s
      and ps = "[''hel'', ''lo'']" and now = 5 and raw = "(''200'', replicate 9 CHR ''1'')"]
  show ?thesis
    by (auto simp: text_meta_def list_scc_def with_max_file_size_def with_reject_empty_body_def storage_with_capacity_def)
qed

text \<open>
  C34 (safety, code bug). An expired object cannot be revalidated: the lookup that reports it, so that the
  proxy asks the server whether it is still good, has already purged it; renewing its metadata after
  the server's answer then fails, and the next lookup finds nothing.
\<close>

theorem expired_lookup_breaks_revalidation:
  assumes "scc_laws C" "meta_laws M" "scc_get C (key_bin M key) (ms_cache s) = Some obj"
    and "meta_deserialize M (fst (co_meta obj)) (snd (co_meta obj)) = Inr old" "meta_fresh_until M old < now"
    and "meta_serialize M renewed = Inr raw"
  shows "\<exists>s' s''. storage_lookup C M now key s = (Ok (Some (old, hit_new obj)), s') \<and>
    storage_update_meta C M key renewed s' = (Err (Other ''No meta found for update_meta''), s'') \<and>
    storage_lookup C M now key s'' = (Ok None, s'')"
proof -
  let ?k = "key_bin M key"
  let ?s = "s\<lparr>ms_cache := snd (scc_remove C ?k (ms_cache s))\<rparr>"
  have gone: "scc_get C ?k (ms_cache ?s) = None" by (simp add: scc_lawsD(5) [OF assms(1)])
  let ?u = "scc_update C ?k (\<lambda>v. v\<lparr>co_meta := raw\<rparr>) (ms_cache ?s)"
  have upd: "\<not> fst ?u" "scc_get C ?k (snd ?u) = None"
    using gone by (simp_all add: scc_lawsD(6,7) [OF assms(1)])
  have "storage_lookup C M now key (?s\<lparr>ms_cache := snd ?u\<rparr>) = (Ok None, ?s\<lparr>ms_cache := snd ?u\<rparr>)"
    using upd by (simp add: storage_lookup_def)
  moreover have "storage_update_meta C M key renewed ?s
      = (Err (Other ''No meta found for update_meta''), ?s\<lparr>ms_cache := snd ?u\<rparr>)"
    using upd assms(6) by (simp add: storage_update_meta_def case_prod_unfold Let_def)
  ultimately show ?thesis
    using lookup_expired [OF assms(3-5) assms(2)] by blast
qed

lemma expired_lookup_breaks_revalidation_witness:
  "\<exists>s'. fst (storage_update_meta list_scc text_meta ''k'' (''200'', 9) s') = Err (Other ''No meta found for update_meta'') \<and>
    storage_lookup list_scc text_meta 5 ''k'' \<lparr>ms_cache = [(''k'', \<lparr>co_meta = (''200'', ''111''), co_body = ''x''\<rparr>)],
      ms_max_file_size = None, ms_reject_empty = True\<rparr> =
    (Ok (Some ((''200'', 3), hit_new \<lparr>co_meta = (''200'', ''111''), co_body = ''x''\<rparr>)), s')"
proof -
  let ?s = "\<lparr>ms_cache = [(''k'', \<lparr>co_meta = (''200'', ''111''), co_body = ''x''\<rparr>)],
      ms_max_file_size = None, ms_reject_empty = True\<rparr>"
  from expired_lookup_breaks_revalidation [OF list_scc_laws text_meta_laws, where key = "''k''" and s = ?s
      and obj = "\<lparr>co_meta = (''200'', ''111''), co_body = ''x''\<rparr>" and old = "(''200'', 3)" and now = 5
      and renewed = "(''200'', 9)" and raw = "(''200'', replicate 9 CHR ''1'')"]
  show ?thesis by (auto simp: text_meta_def list_scc_def)
qed

text \<open>
  C35 (bounds). A range read of a hit: after \<open>seek\<close> to a position inside the body the next read gives the
  bytes from there to the end of the range, cut to the body, and panics exactly when the range ends
  before it starts. Without an end the range keeps the end of the seek before, not the body's.
\<close>

theorem seek_then_read:
  assumes "start < length (co_body (hh_object h))" "hh_end h \<le> length (co_body (hh_object h))"
  shows "\<exists>h'. hit_seek start e h = (Ok (), h') \<and> hh_object h' = hh_object h \<and>
    (let last = (case e of Some x \<Rightarrow> min (length (co_body (hh_object h))) x | None \<Rightarrow> hh_end h)
     in hh_end h' = last \<and>
        fst (hit_read_body h') =
          (if start \<le> last then Ok (Some (slice start last (co_body (hh_object h))))
           else Panic ''slice index out of range''))"
  using assms
  by (cases e) (auto simp: hit_seek_def hit_read_body_def get_slice_def Let_def)

lemma seek_then_read_witness:
  "\<exists>h1 h2. hit_seek 0 (Some 2) (hit_new \<lparr>co_meta = ([], []), co_body = ''abcdef''\<rparr>) = (Ok (), h1) \<and>
     fst (hit_read_body h1) = Ok (Some ''ab'') \<and> hit_seek 4 None h1 = (Ok (), h2) \<and>
     fst (hit_read_body h2) = Panic ''slice index out of range''"
proof -
  let ?obj = "\<lparr>co_meta = ([], []), co_body = ''abcdef''\<rparr>"
  obtain h1 where h1: "hit_seek 0 (Some 2) (hit_new ?obj) = (Ok (), h1)" "hh_object h1 = ?obj" "hh_end h1 = 2"
      "fst (hit_read_body h1) = Ok (Some ''ab'')"
    using seek_then_read [of 0 "hit_new ?obj" "Some 2"] by (auto simp: hit_new_def slice_def Let_def)
  obtain h2 where "hit_seek 4 None h1 = (Ok (), h2)" "fst (hit_read_body h2) = Panic ''slice index out of range''"
    using seek_then_read [of 4 h1 None] h1 by (auto simp: Let_def)
  then show ?thesis using h1 by blast
qed

end
