(* ===== verification/GatewayConfig.thy ===== *)
theory GatewayConfig
  imports GatewayCache
begin

text \<open>
  The gateway's configuration (glaive/src/def.rs, glaive/src/config.rs) and the clusters built from it
  (glaive/src/cluster.rs). What serde makes of the YAML file is given; building a load balancer from a
  list of addresses (pingora) and from the service registry (consul) are parameters.
\<close>

section \<open>The declarations\<close>

record consul_type =
  cs_name :: string
  cs_passing :: bool

datatype discovery_type = Consul consul_type

datatype auth_type = AuthKey "string list" | AuthJwt string | AuthExternal

record consumer =
  cn_name :: string
  cn_acl :: "string list"

datatype ratelimit_type = Basic int

record limiter =
  lm_global :: "ratelimit_type option"
  lm_client :: "ratelimit_type option"

datatype cache_type = Memory memory_cache

text \<open>Headers to insert, key and value, and to remove, by key; the same for requests and responses.\<close>

record headers_conf =
  hc_insert :: "(string \<times> string) list option"
  hc_remove :: "string list option"

type_synonym message_conf = "headers_conf option"

record route_config =
  rt_name :: "string option"
  rt_paths :: "string list option"
  rt_methods :: "string list option"
  rt_request :: "message_conf option"
  rt_response :: "message_conf option"
  rt_auth :: "auth_type option"
  rt_ip :: "string list option"
  rt_consumers :: "consumer list option"

record cluster_config =
  cc_name :: "string option"
  cc_prefix :: "string option"
  cc_host :: "string option"
  cc_tls :: "bool option"
  cc_discovery :: "discovery_type option"
  cc_rate_limit :: "limiter option"
  cc_cache :: "cache_type option"
  cc_retry :: "nat option"
  cc_timeout :: "nat option"
  cc_request :: "message_conf option"
  cc_response :: "message_conf option"
  cc_ip :: "string list option"
  cc_auth :: "auth_type option"
  cc_consumers :: "consumer list option"
  cc_upstream :: "string list option"
  cc_routes :: "route_config list option"

record system_config =
  sy_version :: "nat option"
  sy_daemon :: "bool option"
  sy_error_log :: "string option"
  sy_pid_file :: "string option"
  sy_upgrade_sock :: "string option"
  sy_user :: "string option"
  sy_group :: "string option"
  sy_threads :: "nat option"
  sy_work_stealing :: "bool option"
  sy_ca_file :: "string option"
  sy_grace_period :: "nat option"
  sy_shutdown_timeout :: "nat option"
  sy_bind_ipv4 :: "string list option"
  sy_bind_ipv6 :: "string list option"
  sy_keepalive_pool :: "nat option"
  sy_offload_pools :: "nat option"
  sy_offload_threads :: "nat option"
  sy_ssl_keylog :: "bool option"
  sy_clusters :: "cluster_config list option"
  sy_consumers :: "consumer list option"

section \<open>Loading\<close>

text \<open>The fields of pingora's server configuration that are assigned here.\<close>

record server_conf =
  sv_version :: nat
  sv_daemon :: bool
  sv_error_log :: "string option"
  sv_pid_file :: string
  sv_upgrade_sock :: string
  sv_user :: "string option"
  sv_group :: "string option"
  sv_threads :: nat
  sv_work_stealing :: bool
  sv_ca_file :: "string option"
  sv_grace_period :: "nat option"
  sv_shutdown_timeout :: "nat option"
  sv_bind_ipv4 :: "string list"
  sv_bind_ipv6 :: "string list"
  sv_keepalive_pool :: nat
  sv_offload_pools :: "nat option"
  sv_offload_threads :: "nat option"
  sv_ssl_keylog :: bool

record gateway_config =
  gc_clusters :: "cluster_config list option"
  gc_consumers :: "consumer list option"

text \<open>\<open>if let Some(x) = config.f { server.f = x }\<close>, for a plain and for an optional field.\<close>

definition keep :: "'a option \<Rightarrow> 'a \<Rightarrow> 'a" where
  "keep new old = (case new of Some x \<Rightarrow> x | None \<Rightarrow> old)"

definition keep_opt :: "'a option \<Rightarrow> 'a option \<Rightarrow> 'a option" where
  "keep_opt new old = (case new of Some x \<Rightarrow> Some x | None \<Rightarrow> old)"

lemma keep_simps [simp]:
  "keep None y = y" "keep (Some x) y = x" "keep n (keep n y) = keep n y"
  "keep_opt None o' = o'" "keep_opt (Some x) o' = Some x" "keep_opt n (keep_opt n o') = keep_opt n o'"
  by (simp_all add: keep_def keep_opt_def split: option.splits)

definition merge_config :: "system_config \<Rightarrow> server_conf \<Rightarrow> server_conf" where
  "merge_config c s =
     \<lparr>sv_version = keep (sy_version c) (sv_version s),
      sv_daemon = keep (sy_daemon c) (sv_daemon s),
      sv_error_log = keep_opt (sy_error_log c) (sv_error_log s),
      sv_pid_file = keep (sy_pid_file c) (sv_pid_file s),
      sv_upgrade_sock = keep (sy_upgrade_sock c) (sv_upgrade_sock s),
      sv_user = keep_opt (sy_user c) (sv_user s),
      sv_group = keep_opt (sy_group c) (sv_group s),
      sv_threads = keep (sy_threads c) (sv_threads s),
      sv_work_stealing = keep (sy_work_stealing c) (sv_work_stealing s),
      sv_ca_file = keep_opt (sy_ca_file c) (sv_ca_file s),
      sv_grace_period = keep_opt (sy_grace_period c) (sv_grace_period s),
      sv_shutdown_timeout = keep_opt (sy_shutdown_timeout c) (sv_shutdown_timeout s),
      sv_bind_ipv4 = keep (sy_bind_ipv4 c) (sv_bind_ipv4 s),
      sv_bind_ipv6 = keep (sy_bind_ipv6 c) (sv_bind_ipv6 s),
      sv_keepalive_pool = keep (sy_keepalive_pool c) (sv_keepalive_pool s),
      sv_offload_pools = keep_opt (sy_offload_pools c) (sv_offload_pools s),
      sv_offload_threads = keep_opt (sy_offload_threads c) (sv_offload_threads s),
      sv_ssl_keylog = keep (sy_ssl_keylog c) (sv_ssl_keylog s)\<rparr>"

text \<open>Opening and parsing \<open>config.yaml\<close>: either failing ends the process.\<close>

definition load_yaml :: "(string \<Rightarrow> 'f option) \<Rightarrow> ('f \<Rightarrow> system_config option) \<Rightarrow> string \<Rightarrow> system_config outcome" where
  "load_yaml open_file parse_yaml path =
     (case open_file path of
        None \<Rightarrow> Panic ''Unable to find configuration file.''
      | Some f \<Rightarrow> (case parse_yaml f of None \<Rightarrow> Panic ''Unable to parse YAML'' | Some c \<Rightarrow> Ok c))"

definition load_config ::
  "(string \<Rightarrow> 'f option) \<Rightarrow> ('f \<Rightarrow> system_config option) \<Rightarrow> server_conf \<Rightarrow> (gateway_config \<times> server_conf) outcome" where
  "load_config open_file parse_yaml server =
     bind_outcome (load_yaml open_file parse_yaml ''config.yaml'')
       (\<lambda>c. Ok (\<lparr>gc_clusters = sy_clusters c, gc_consumers = sy_consumers c\<rparr>, merge_config c server))"

section \<open>Validation\<close>

definition starts_with :: "char \<Rightarrow> string \<Rightarrow> bool" where
  "starts_with c s = (case s of [] \<Rightarrow> False | x # xs \<Rightarrow> x = c)"

definition ends_with :: "char \<Rightarrow> string \<Rightarrow> bool" where
  "ends_with c s = starts_with c (rev s)"

definition validate_cluster_config :: "cluster_config \<Rightarrow> bool" where
  "validate_cluster_config c =
     (if cc_name c = None \<or> cc_prefix c = None \<or> cc_host c = None \<or> cc_tls c = None then False
      else if (case cc_prefix c of
                 Some p \<Rightarrow> p = [] \<or> \<not> starts_with CHR ''/'' p \<or> ends_with CHR ''/'' p
               | None \<Rightarrow> False) then False
      else if (case cc_upstream c of Some u \<Rightarrow> u = [] | None \<Rightarrow> False) then False
      else True)"

text \<open>The loop over the clusters with the set of prefixes seen; a missing prefix counts as one.\<close>

fun duplicated_from :: "string option set \<Rightarrow> cluster_config list \<Rightarrow> bool" where
  "duplicated_from seen [] = False"
| "duplicated_from seen (c # cs) =
     (if cc_prefix c \<in> seen then True else duplicated_from (insert (cc_prefix c) seen) cs)"

definition validate_duplicated_prefix :: "cluster_config list \<Rightarrow> bool" where
  "validate_duplicated_prefix cs = duplicated_from {} cs"

definition has_discovery_enabled :: "cluster_config list \<Rightarrow> bool" where
  "has_discovery_enabled cs = list_ex (\<lambda>c. cc_discovery c \<noteq> None) cs"

section \<open>Building the clusters\<close>

record ('lb, 'h, 'p) cluster_metadata =
  cm_name :: string
  cm_host :: string
  cm_tls :: bool
  cm_limiter :: "limiter option"
  cm_cache_storage :: "('h, 'p) cache_bucket option"
  cm_cache_ttl :: "nat option"
  cm_retry :: "nat option"
  cm_timeout :: "nat option"
  cm_request :: "message_conf option"
  cm_response :: "message_conf option"
  cm_auth :: "auth_type option"
  cm_ip :: "string list option"
  cm_consumers :: "consumer list option"
  cm_routes :: "route_config list option"
  cm_upstream :: 'lb

record ('lb, 'upd, 'h, 'p) built_clusters =
  bl_clusters :: "('lb, 'h, 'p) cluster_metadata list"
  bl_prefix_map :: "string \<rightharpoonup> nat"
  bl_cluster_bg :: "'lb list"
  bl_updater_bg :: "'upd list"

text \<open>
  pingora: a balancer over addresses, which may not parse, with a TCP health check every second; and
  one over the registry with its updater.
\<close>

record ('d, 'lb, 'upd) balancers =
  lb_from_addresses :: "string list \<Rightarrow> 'lb option"
  lb_new_discovery :: 'd
  lb_from_discovery :: "'d \<Rightarrow> string \<Rightarrow> bool \<Rightarrow> 'lb \<times> 'upd"

definition build_cluster_service :: "('d, 'lb, 'upd) balancers \<Rightarrow> string list \<Rightarrow> 'lb outcome" where
  "build_cluster_service B upstreams =
     (case lb_from_addresses B upstreams of Some lb \<Rightarrow> Ok lb | None \<Rightarrow> Panic ''invalid upstream address'')"

definition consul_build_cluster ::
  "('d, 'lb, 'upd) balancers \<Rightarrow> consul_type \<Rightarrow> 'd \<Rightarrow> 'upd list \<Rightarrow> 'lb \<times> 'upd list" where
  "consul_build_cluster B consul d upds =
     (let (lb, upd) = lb_from_discovery B d (cs_name consul) (cs_passing consul) in (lb, upds @ [upd]))"

text \<open>The service of one cluster, with the updaters so far.\<close>

definition cluster_service ::
  "('d, 'lb, 'upd) balancers \<Rightarrow> 'd option \<Rightarrow> cluster_config \<Rightarrow> 'upd list \<Rightarrow> ('lb \<times> 'upd list) outcome" where
  "cluster_service B d c upds =
     (case cc_discovery c of
        Some (Consul consul) \<Rightarrow>
          (case d of None \<Rightarrow> Panic ''Error Consul Connection''
           | Some d \<Rightarrow> Ok (consul_build_cluster B consul d upds))
      | None \<Rightarrow>
          (case cc_upstream c of
             None \<Rightarrow> Panic ''called `Option::unwrap()` on a `None` value''
           | Some u \<Rightarrow> bind_outcome (build_cluster_service B u) (\<lambda>lb. Ok (lb, upds))))"

definition cluster_cache :: "('k, 'h) scc \<Rightarrow> cluster_config \<Rightarrow> ('h, 'p) cache_bucket option \<times> nat option" where
  "cluster_cache C c = (case cc_cache c of Some (Memory m) \<Rightarrow> new_storage C m | None \<Rightarrow> (None, None))"

definition cluster_metadata_of ::
  "('k, 'h) scc \<Rightarrow> cluster_config \<Rightarrow> 'lb \<Rightarrow> ('lb, 'h, 'p) cluster_metadata" where
  "cluster_metadata_of C c lb =
     (let (storage, ttl) = cluster_cache C c in
     \<lparr>cm_name = unwrap_or ''unnamed-cluster'' (cc_name c),
      cm_host = unwrap_or ''localhost'' (cc_host c),
      cm_tls = unwrap_or False (cc_tls c),
      cm_limiter = cc_rate_limit c,
      cm_cache_storage = storage,
      cm_cache_ttl = ttl,
      cm_retry = cc_retry c,
      cm_timeout = cc_timeout c,
      cm_request = cc_request c,
      cm_response = cc_response c,
      cm_auth = cc_auth c,
      cm_ip = cc_ip c,
      cm_consumers = cc_consumers c,
      cm_routes = cc_routes c,
      cm_upstream = lb\<rparr>)"

text \<open>The body of the loop, then the loop over the enumerated configurations.\<close>

definition build_one ::
  "('k, 'h) scc \<Rightarrow> ('d, 'lb, 'upd) balancers \<Rightarrow> 'd option \<Rightarrow> nat \<Rightarrow> cluster_config
   \<Rightarrow> ('lb, 'upd, 'h, 'p) built_clusters \<Rightarrow> ('lb, 'upd, 'h, 'p) built_clusters outcome" where
  "build_one C B d idx c b =
     (if \<not> validate_cluster_config c then Panic ''invalid upstream configuration''
      else bind_outcome (cluster_service B d c (bl_updater_bg b)) (\<lambda>(lb, upds).
        (case cc_prefix c of
           None \<Rightarrow> Panic ''called `Option::unwrap()` on a `None` value''
         | Some p \<Rightarrow>
             Ok \<lparr>bl_clusters = bl_clusters b @ [cluster_metadata_of C c lb],
                 bl_prefix_map = (bl_prefix_map b)(p \<mapsto> idx),
                 bl_cluster_bg = bl_cluster_bg b @ [lb],
                 bl_updater_bg = upds\<rparr>)))"

fun build_from ::
  "('k, 'h) scc \<Rightarrow> ('d, 'lb, 'upd) balancers \<Rightarrow> 'd option \<Rightarrow> nat \<Rightarrow> cluster_config list
   \<Rightarrow> ('lb, 'upd, 'h, 'p) built_clusters \<Rightarrow> ('lb, 'upd, 'h, 'p) built_clusters outcome" where
  "build_from C B d idx [] b = Ok b"
| "build_from C B d idx (c # cs) b = bind_outcome (build_one C B d idx c b) (build_from C B d (Suc idx) cs)"

definition build_cluster ::
  "('k, 'h) scc \<Rightarrow> ('d, 'lb, 'upd) balancers \<Rightarrow> cluster_config list \<Rightarrow> ('lb, 'upd, 'h, 'p) built_clusters outcome" where
  "build_cluster C B cs =
     (if validate_duplicated_prefix cs then Panic ''found duplicated upstream prefix''
      else build_from C B (if has_discovery_enabled cs then Some (lb_new_discovery B) else None) 0 cs
        \<lparr>bl_clusters = [], bl_prefix_map = Map.empty, bl_cluster_bg = [], bl_updater_bg = []\<rparr>)"

section \<open>Lemmas\<close>

text \<open>Merging is an overwrite: what is given wins, and loading twice is loading once.\<close>

lemma merge_config_idem: "merge_config c (merge_config c s) = merge_config c s"
  by (simp add: merge_config_def)

lemma merge_config_none:
  "merge_config (system_config.make None None None None None None None None None None None None None None
     None None None None cl co) s = s"
  by (simp add: merge_config_def system_config.defs)

lemma duplicated_from_iff:
  "duplicated_from seen cs \<longleftrightarrow> \<not> (distinct (map cc_prefix cs) \<and> set (map cc_prefix cs) \<inter> seen = {})"
  by (induction cs arbitrary: seen) auto

lemma validate_duplicated_prefix_iff: "validate_duplicated_prefix cs \<longleftrightarrow> \<not> distinct (map cc_prefix cs)"
  by (simp add: validate_duplicated_prefix_def duplicated_from_iff)

lemma validate_prefix:
  assumes "validate_cluster_config c"
  obtains p where "cc_prefix c = Some (CHR ''/'' # p)" "p \<noteq> []" "\<not> ends_with CHR ''/'' p"
proof -
  obtain p where p: "cc_prefix c = Some p" "p \<noteq> []" "starts_with CHR ''/'' p" "\<not> ends_with CHR ''/'' p"
    using assms by (auto simp: validate_cluster_config_def split: if_splits option.splits)
  then obtain q where q: "p = CHR ''/'' # q" by (cases p) (auto simp: starts_with_def)
  have "q \<noteq> []" "\<not> ends_with CHR ''/'' q"
    using p(4) q by (auto simp: ends_with_def starts_with_def split: list.splits)
  then show ?thesis using p(1) q that by blast
qed

text \<open>What the loop accepts: a valid configuration whose balancer can be built.\<close>

definition buildable :: "('d, 'lb, 'upd) balancers \<Rightarrow> 'd option \<Rightarrow> cluster_config \<Rightarrow> bool" where
  "buildable B d c \<longleftrightarrow> validate_cluster_config c \<and>
     (case cc_discovery c of Some dt \<Rightarrow> d \<noteq> None
      | None \<Rightarrow> (case cc_upstream c of Some u \<Rightarrow> lb_from_addresses B u \<noteq> None | None \<Rightarrow> False))"

lemma cluster_service_Ok:
  "(\<exists>r. cluster_service B d c upds = Ok r) \<longleftrightarrow>
     (case cc_discovery c of Some dt \<Rightarrow> d \<noteq> None
      | None \<Rightarrow> (case cc_upstream c of Some u \<Rightarrow> lb_from_addresses B u \<noteq> None | None \<Rightarrow> False))"
  by (cases "cc_discovery c"; cases "cc_upstream c"; cases d)
    (auto simp: cluster_service_def build_cluster_service_def split: option.splits discovery_type.splits)

lemma build_one_Ok: "(\<exists>b'. build_one C B d idx c b = Ok b') \<longleftrightarrow> buildable B d c"
proof (cases "validate_cluster_config c")
  case True
  then obtain p where "cc_prefix c = Some (CHR ''/'' # p)" by (rule validate_prefix)
  then show ?thesis
    using True cluster_service_Ok [of B d c "bl_updater_bg b"]
    by (auto simp: build_one_def buildable_def)
qed (simp add: build_one_def buildable_def)

lemma build_one_result:
  assumes "build_one C B d idx c b = Ok b'"
  obtains p lb upds where "cc_prefix c = Some (CHR ''/'' # p)" "p \<noteq> []" "\<not> ends_with CHR ''/'' p"
    "cluster_service B d c (bl_updater_bg b) = Ok (lb, upds)"
    "b' = \<lparr>bl_clusters = bl_clusters b @ [cluster_metadata_of C c lb],
           bl_prefix_map = (bl_prefix_map b)(CHR ''/'' # p \<mapsto> idx),
           bl_cluster_bg = bl_cluster_bg b @ [lb], bl_updater_bg = upds\<rparr>"
proof -
  have "validate_cluster_config c" using assms by (simp add: build_one_def split: if_splits)
  then obtain p where "cc_prefix c = Some (CHR ''/'' # p)" "p \<noteq> []" "\<not> ends_with CHR ''/'' p"
    by (rule validate_prefix)
  then show ?thesis using assms that by (auto simp: build_one_def split: if_splits)
qed

lemma build_from_Ok:
  "(\<exists>b'. build_from C B d idx cs b = Ok b') \<longleftrightarrow> list_all (buildable B d) cs"
proof (induction cs arbitrary: idx b)
  case (Cons c cs)
  show ?case
  proof (cases "buildable B d c")
    case True
    then obtain b1 where "build_one C B d idx c b = Ok b1" using build_one_Ok by blast
    then show ?thesis using True Cons.IH [of "Suc idx" b1] by simp
  next
    case False
    then have "\<not> (\<exists>b1. build_one C B d idx c b = Ok b1)" using build_one_Ok by blast
    then show ?thesis using False by (cases "build_one C B d idx c b") auto
  qed
qed simp

text \<open>What the built router knows of the configurations it was built from.\<close>

definition routes_to :: "cluster_config list \<Rightarrow> ('lb, 'upd, 'h, 'p) built_clusters \<Rightarrow> bool" where
  "routes_to cs b \<longleftrightarrow> length (bl_clusters b) = length cs \<and> length (bl_cluster_bg b) = length cs \<and>
     (\<forall>p i. bl_prefix_map b p = Some i \<longleftrightarrow> i < length cs \<and> cc_prefix (cs ! i) = Some p) \<and>
     (\<forall>i<length cs. \<exists>p. cc_prefix (cs ! i) = Some (CHR ''/'' # p) \<and> p \<noteq> [] \<and> \<not> ends_with CHR ''/'' p)"

lemma routes_to_snoc:
  assumes "routes_to cs b" "build_one C B d (length cs) c b = Ok b'" "cc_prefix c \<notin> set (map cc_prefix cs)"
  shows "routes_to (cs @ [c]) b'"
  using assms(2)
proof (cases rule: build_one_result)
  case (1 p lb upds)
  have fresh: "\<And>i. i < length cs \<Longrightarrow> cc_prefix (cs ! i) \<noteq> Some (CHR ''/'' # p)"
    using assms(3) 1(1) by (metis image_eqI list.set_map nth_mem)
  show ?thesis
    using assms(1) 1 fresh
    by (auto simp: routes_to_def nth_append less_Suc_eq)
qed

lemma build_from_routes:
  assumes "build_from C B d (length done') cs b = Ok b'" "routes_to done' b" "distinct (map cc_prefix (done' @ cs))"
  shows "routes_to (done' @ cs) b'"
  using assms
proof (induction cs arbitrary: done' b)
  case (Cons c cs)
  then obtain b1 where b1: "build_one C B d (length done') c b = Ok b1" "build_from C B d (Suc (length done')) cs b1 = Ok b'"
    by auto
  have "routes_to (done' @ [c]) b1"
    using Cons.prems(3) by (intro routes_to_snoc [OF Cons.prems(2) b1(1)]) auto
  then show ?case using Cons.IH [of "done' @ [c]" b1] b1(2) Cons.prems(3) by simp
qed simp

text \<open>The metadata, cluster by cluster.\<close>

lemma cm_upstream_of [simp]: "cm_upstream (cluster_metadata_of C c lb) = lb"
  by (simp add: cluster_metadata_of_def case_prod_unfold Let_def)

lemma build_from_metadata:
  assumes "build_from C B d idx cs b = Ok b'"
  shows "\<exists>ms. bl_clusters b' = bl_clusters b @ ms \<and> list_all2 (\<lambda>c m. m = cluster_metadata_of C c (cm_upstream m)) cs ms"
  using assms
proof (induction cs arbitrary: idx b)
  case (Cons c cs)
  then obtain b1 where b1: "build_one C B d idx c b = Ok b1" "build_from C B d (Suc idx) cs b1 = Ok b'"
    by auto
  from b1(1) obtain lb where "bl_clusters b1 = bl_clusters b @ [cluster_metadata_of C c lb]"
    by (rule build_one_result) simp
  moreover obtain ms where "bl_clusters b' = bl_clusters b1 @ ms"
      "list_all2 (\<lambda>c m. m = cluster_metadata_of C c (cm_upstream m)) cs ms"
    using Cons.IH [OF b1(2)] by blast
  ultimately show ?case by (intro exI [of _ "cluster_metadata_of C c lb # ms"]) simp
qed simp

lemma build_cluster_routes:
  fixes b :: "('lb, 'upd, 'h, 'p) built_clusters"
  assumes "build_cluster C B cs = Ok b"
  shows "routes_to cs b"
proof -
  let ?b0 = "\<lparr>bl_clusters = [], bl_prefix_map = Map.empty, bl_cluster_bg = [], bl_updater_bg = []\<rparr> ::
      ('lb, 'upd, 'h, 'p) built_clusters"
  obtain d where d: "distinct (map cc_prefix cs)" "build_from C B d 0 cs ?b0 = Ok b"
    using assms by (auto simp: build_cluster_def validate_duplicated_prefix_iff simp del: build_from.simps split: if_splits)
  show ?thesis
    using build_from_routes [where done' = "[]" and cs = cs and b = ?b0, of C B d b] d by (simp add: routes_to_def)
qed

lemma routes_toD:
  assumes "routes_to cs b" "bl_prefix_map b p = Some i"
  shows "i < length (bl_clusters b)" "cc_prefix (cs ! i) = Some p"
  using assms by (auto simp: routes_to_def)

section \<open>Properties\<close>

text \<open>
  C11 (type). A configuration that builds gives a well-formed router: one cluster per configuration in
  its order, with the configuration's data, and a prefix map that sends exactly the configured prefixes to the
  index of their cluster; every prefix starts with a slash, does not end with one and is not the root.
  So the index the router finds is always in range.
\<close>

theorem build_cluster_router:
  assumes "build_cluster C B cs = Ok b"
  shows "length (bl_clusters b) = length cs \<and>
    (\<forall>i<length cs. bl_clusters b ! i = cluster_metadata_of C (cs ! i) (cm_upstream (bl_clusters b ! i))) \<and>
    (\<forall>p i. bl_prefix_map b p = Some i \<longleftrightarrow> i < length cs \<and> cc_prefix (cs ! i) = Some p) \<and>
    (\<forall>p i. bl_prefix_map b p = Some i \<longrightarrow>
       starts_with CHR ''/'' p \<and> \<not> ends_with CHR ''/'' p \<and> p \<noteq> ''/'' \<and> i < length (bl_clusters b))"
proof -
  note routes = build_cluster_routes [OF assms]
  obtain ms where "bl_clusters b = ms" "list_all2 (\<lambda>c m. m = cluster_metadata_of C c (cm_upstream m)) cs ms"
    using build_from_metadata assms by (fastforce simp: build_cluster_def split: if_splits)
  then have meta: "\<forall>i<length cs. bl_clusters b ! i = cluster_metadata_of C (cs ! i) (cm_upstream (bl_clusters b ! i))"
    by (simp add: list_all2_conv_all_nth)
  have "starts_with CHR ''/'' p \<and> \<not> ends_with CHR ''/'' p \<and> p \<noteq> ''/'' \<and> i < length (bl_clusters b)"
    if "bl_prefix_map b p = Some i" for p i
  proof -
    have i: "i < length cs" "cc_prefix (cs ! i) = Some p" using routes that by (auto simp: routes_to_def)
    from routes i(1) obtain q where "cc_prefix (cs ! i) = Some (CHR ''/'' # q)" "q \<noteq> []" "\<not> ends_with CHR ''/'' q"
      unfolding routes_to_def by blast
    then show ?thesis
      using routes_toD(1) [OF routes that] i(2)
      by (cases q rule: rev_cases) (auto simp: starts_with_def ends_with_def)
  qed
  then show ?thesis using routes meta by (simp add: routes_to_def)
qed

text \<open>A configuration with the mandatory fields and one upstream address.\<close>

definition plain_cluster :: "string \<Rightarrow> string \<Rightarrow> string list option \<Rightarrow> cluster_config" where
  "plain_cluster name pre upstream =
     \<lparr>cc_name = Some name, cc_prefix = Some pre, cc_host = Some ''localhost'', cc_tls = Some False, cc_discovery = None,
      cc_rate_limit = None, cc_cache = None, cc_retry = None, cc_timeout = None, cc_request = None, cc_response = None,
      cc_ip = None, cc_auth = None, cc_consumers = None, cc_upstream = upstream, cc_routes = None\<rparr>"

definition text_balancers :: "(unit, string, string) balancers" where
  "text_balancers = \<lparr>lb_from_addresses = \<lambda>u. Some (concat u), lb_new_discovery = (), lb_from_discovery = \<lambda>d n p. (n, n)\<rparr>"

lemmas build_eval = build_cluster_def validate_duplicated_prefix_iff build_one_def validate_cluster_config_def starts_with_def
  ends_with_def cluster_service_def build_cluster_service_def plain_cluster_def text_balancers_def has_discovery_enabled_def

lemma build_cluster_router_witness:
  "\<exists>b :: (string, string, (nat \<times> cache_object) list, unit) built_clusters.
     build_cluster list_scc text_balancers
       [plain_cluster ''one'' ''/a'' (Some [''h:1'']), plain_cluster ''two'' ''/b/c'' (Some [''h:2''])] = Ok b \<and>
     bl_prefix_map b ''/b/c'' = Some 1 \<and> bl_prefix_map b ''/b'' = None \<and> length (bl_clusters b) = 2"
proof -
  let ?cs = "[plain_cluster ''one'' ''/a'' (Some [''h:1'']), plain_cluster ''two'' ''/b/c'' (Some [''h:2''])]"
  obtain b :: "(string, string, (nat \<times> cache_object) list, unit) built_clusters"
    where b: "build_cluster list_scc text_balancers ?cs = Ok b"
  proof -
    have "list_all (buildable text_balancers None) ?cs" by (simp add: buildable_def build_eval)
    from iffD2 [OF build_from_Ok this, of list_scc 0 "\<lparr>bl_clusters = [], bl_prefix_map = Map.empty, bl_cluster_bg = [],
        bl_updater_bg = []\<rparr> :: (string, string, (nat \<times> cache_object) list, unit) built_clusters"]
    obtain b where "build_from list_scc text_balancers None 0 ?cs \<lparr>bl_clusters = [], bl_prefix_map = Map.empty,
        bl_cluster_bg = [], bl_updater_bg = []\<rparr> = Ok (b :: (string, string, (nat \<times> cache_object) list, unit) built_clusters)"
      by blast
    moreover have "\<not> validate_duplicated_prefix ?cs" "\<not> has_discovery_enabled ?cs"
      by (simp_all add: validate_duplicated_prefix_iff has_discovery_enabled_def plain_cluster_def)
    ultimately show ?thesis using that by (simp add: build_cluster_def del: build_from.simps)
  qed
  note router = build_cluster_router [OF b]
  have "cc_prefix (?cs ! 0) = Some ''/a''" "cc_prefix (?cs ! 1) = Some ''/b/c''" by (simp_all add: plain_cluster_def)
  moreover have "i < 2 \<Longrightarrow> i = 0 \<or> i = 1" for i :: nat by auto
  ultimately have none: "\<not> (i < 2 \<and> cc_prefix (?cs ! i) = Some ''/b'')" and some: "cc_prefix (?cs ! 1) = Some ''/b/c''" for i
    by fastforce+
  from router have "length (bl_clusters b) = 2" by simp
  moreover from router have eq: "bl_prefix_map b p = Some i \<longleftrightarrow> i < length ?cs \<and> cc_prefix (?cs ! i) = Some p" for p i
    by blast
  moreover have "bl_prefix_map b ''/b/c'' = Some 1" using some by (simp add: eq del: nth_Cons_numeral)
  moreover have "bl_prefix_map b ''/b'' \<noteq> Some i" for i using none [of i] by (simp add: eq)
  ultimately show ?thesis using b by blast
qed

text \<open>
  C32 (error, code bug). Which configurations build: the prefixes are distinct, each cluster is valid, and one
  without discovery has upstream addresses that parse. Validation does not check the last: a cluster with
  neither discovery nor upstream passes it and ends the process in the \<open>unwrap\<close> after it.
\<close>

theorem build_cluster_accepts:
  fixes C :: "('k, 'h) scc" and B :: "('d, 'lb, 'upd) balancers"
  shows "(\<exists>b :: ('lb, 'upd, 'h, 'p) built_clusters. build_cluster C B cs = Ok b) \<longleftrightarrow>
    distinct (map cc_prefix cs) \<and>
    list_all (\<lambda>c. validate_cluster_config c \<and>
      (cc_discovery c \<noteq> None \<or> (\<exists>u lb. cc_upstream c = Some u \<and> lb_from_addresses B u = Some lb))) cs"
proof -
  let ?d = "if has_discovery_enabled cs then Some (lb_new_discovery B) else None"
  have "buildable B ?d c \<longleftrightarrow> validate_cluster_config c \<and>
      (cc_discovery c \<noteq> None \<or> (\<exists>u lb. cc_upstream c = Some u \<and> lb_from_addresses B u = Some lb))"
    if "c \<in> set cs" for c
    using that by (auto simp: buildable_def has_discovery_enabled_def list_ex_iff split: option.splits)
  then have "list_all (buildable B ?d) cs \<longleftrightarrow> list_all (\<lambda>c. validate_cluster_config c \<and>
      (cc_discovery c \<noteq> None \<or> (\<exists>u lb. cc_upstream c = Some u \<and> lb_from_addresses B u = Some lb))) cs"
    by (simp add: list_all_iff)
  moreover have "(\<exists>b :: ('lb, 'upd, 'h, 'p) built_clusters. build_cluster C B cs = Ok b) \<longleftrightarrow>
      distinct (map cc_prefix cs) \<and> list_all (buildable B ?d) cs"
    unfolding build_cluster_def validate_duplicated_prefix_iff
    by (simp add: build_from_Ok del: build_from.simps if_split)
  ultimately show ?thesis by simp
qed

lemma build_cluster_accepts_witness:
  "validate_cluster_config (plain_cluster ''one'' ''/a'' None) \<and>
   \<not> (\<exists>b :: (string, string, (nat \<times> cache_object) list, unit) built_clusters.
        build_cluster list_scc text_balancers [plain_cluster ''one'' ''/a'' None] = Ok b)"
  using build_cluster_accepts [of list_scc text_balancers "[plain_cluster ''one'' ''/a'' None]"]
  by (simp add: plain_cluster_def validate_cluster_config_def starts_with_def ends_with_def)

end
