(* ===== verification/GatewaySession.thy ===== *)
theory GatewaySession
  imports GatewayConfig
begin

text \<open>
  What the gateway's filters do with a request: reading it (glaive/src/request.rs), answering it
  with an error (glaive/src/response.rs), and the chaining of filters. A request in pingora is a session; its
  accessors, header types and writes are a record of operations on a state \<open>'s\<close>, whose documented
  behaviour is the predicate \<open>pingora_laws\<close>.
\<close>

section \<open>Text\<close>

text \<open>\<open>str::split\<close> on a text, \<open>replacen(p, "", 1)\<close> and \<open>replace(' ', "-")\<close>.\<close>

fun before_text :: "string \<Rightarrow> string \<Rightarrow> string" where
  "before_text p [] = []"
| "before_text p (c # cs) = (if prefix p (c # cs) then [] else c # before_text p cs)"

fun remove_first :: "string \<Rightarrow> string \<Rightarrow> string" where
  "remove_first p [] = []"
| "remove_first p (c # cs) = (if prefix p (c # cs) then drop (length p) (c # cs) else c # remove_first p cs)"

definition dash_spaces :: "string \<Rightarrow> string" where
  "dash_spaces s = map (\<lambda>c. if c = CHR '' '' then CHR ''-'' else c) s"

definition show_int :: "int \<Rightarrow> string" where
  "show_int i = (if i < 0 then CHR ''-'' # show_nat (nat (- i)) else show_nat (nat i))"

lemma remove_first_at:
  assumes "p \<noteq> []" "\<And>j. j < length a \<Longrightarrow> \<not> prefix p (drop j a @ p @ b)"
  shows "remove_first p (a @ p @ b) = a @ b"
  using assms(2)
proof (induction a)
  case Nil
  then show ?case using assms(1) by (cases p) auto
next
  case (Cons x a)
  have "\<not> prefix p ((x # a) @ p @ b)" using Cons.prems [of 0] by simp
  moreover have "remove_first p (a @ p @ b) = a @ b"
  proof (rule Cons.IH)
    fix j
    assume "j < length a"
    then show "\<not> prefix p (drop j a @ p @ b)" using Cons.prems [of "Suc j"] by simp
  qed
  ultimately show ?case by simp
qed

section \<open>The session\<close>

text \<open>The context the filters share (\<open>RouterCtx\<close> of glaive/src/proxy.rs).\<close>

record router_ctx =
  rx_cluster_identity :: "string option"
  rx_cluster_address :: nat
  rx_proxy_retry :: nat
  rx_uri_origin :: "string option"
  rx_client_address :: "string option"
  rx_client_credentials :: "string option"
  rx_enable_endpoint :: bool

definition new_ctx :: router_ctx where
  "new_ctx =
     \<lparr>rx_cluster_identity = None, rx_cluster_address = 0, rx_proxy_retry = 0, rx_uri_origin = None,
      rx_client_address = None, rx_client_credentials = None, rx_enable_endpoint = False\<rparr>"

text \<open>
  pingora and its companions: the request of a session, its URI, writing a response; response headers; the
  JSON of an error body; the order in which a hash map iterates; the rate estimator and the token
  decoder. A client address is an IP with a port, or something else.
\<close>

record ('h, 'u, 's, 'l) pingora =
  pg_path :: "'s \<Rightarrow> string"
  pg_uri_text :: "'s \<Rightarrow> string"
  pg_query :: "'s \<Rightarrow> string option"
  pg_host :: "'s \<Rightarrow> string option"
  pg_method :: "'s \<Rightarrow> string"
  pg_header :: "string \<Rightarrow> 's \<Rightarrow> bytes option"
  pg_client_addr :: "'s \<Rightarrow> (string \<times> nat) option option"
  pg_parse_uri :: "string \<Rightarrow> 'u option"
  pg_set_uri :: "'u \<Rightarrow> 's \<Rightarrow> 's"
  pg_write_header :: "'h \<Rightarrow> bool \<Rightarrow> 's \<Rightarrow> (io_error + unit) \<times> 's"
  pg_write_body :: "bytes option \<Rightarrow> bool \<Rightarrow> 's \<Rightarrow> (io_error + unit) \<times> 's"
  pg_set_keepalive :: "nat option \<Rightarrow> 's \<Rightarrow> 's"
  rh_build :: "nat \<Rightarrow> 'h option"
  rh_insert :: "string \<Rightarrow> bytes \<Rightarrow> 'h \<Rightarrow> io_error + 'h"
  rh_status :: "'h \<Rightarrow> nat"
  hv_name :: "string \<Rightarrow> string option"
  hv_value :: "string \<Rightarrow> bytes option"
  hv_to_str :: "bytes \<Rightarrow> string option"
  error_json :: "nat \<Rightarrow> string \<Rightarrow> bytes"
  hash_order :: "(string \<times> string) list \<Rightarrow> (string \<times> string) list"
  rate_observe :: "string \<Rightarrow> int \<Rightarrow> 'l \<Rightarrow> int \<times> 'l"
  jwt_decode :: "string \<Rightarrow> string \<Rightarrow> string + string"

text \<open>A log of what was written to the client; reading and re-targeting a request leave it alone.\<close>

datatype sent = SentHead nat bool | SentBody "bytes option" bool

definition pingora_laws :: "('h, 'u, 's, 'l) pingora \<Rightarrow> ('s \<Rightarrow> sent list) \<Rightarrow> bool" where
  "pingora_laws G log \<longleftrightarrow>
     (\<forall>h e s s'. pg_write_header G h e s = (Inr (), s') \<longrightarrow> log s' = log s @ [SentHead (rh_status G h) e]) \<and>
     (\<forall>b e s s'. pg_write_body G b e s = (Inr (), s') \<longrightarrow> log s' = log s @ [SentBody b e]) \<and>
     (\<forall>k s. log (pg_set_keepalive G k s) = log s) \<and>
     (\<forall>u s. log (pg_set_uri G u s) = log s) \<and>
     (\<forall>u s k. pg_header G k (pg_set_uri G u s) = pg_header G k s) \<and>
     (\<forall>u s. pg_client_addr G (pg_set_uri G u s) = pg_client_addr G s) \<and>
     (\<forall>n h. rh_build G n = Some h \<longrightarrow> rh_status G h = n) \<and>
     (\<forall>k v h h'. rh_insert G k v h = Inr h' \<longrightarrow> rh_status G h' = rh_status G h)"

lemma pingora_lawsD:
  assumes "pingora_laws G log"
  shows "pg_write_header G h e s = (Inr (), s') \<Longrightarrow> log s' = log s @ [SentHead (rh_status G h) e]"
    and "pg_write_body G b e s = (Inr (), s') \<Longrightarrow> log s' = log s @ [SentBody b e]"
    and "log (pg_set_keepalive G k s) = log s"
    and "log (pg_set_uri G u s) = log s"
    and "pg_header G n (pg_set_uri G u s) = pg_header G n s"
    and "pg_client_addr G (pg_set_uri G u s) = pg_client_addr G s"
    and "rh_build G st = Some h \<Longrightarrow> rh_status G h = st"
    and "rh_insert G n v h = Inr h' \<Longrightarrow> rh_status G h' = rh_status G h"
  using assms by (simp_all add: pingora_laws_def)

section \<open>Reading a request\<close>

definition get_remote_addr :: "('h, 'u, 's, 'l) pingora \<Rightarrow> 's \<Rightarrow> (string \<times> nat) option" where
  "get_remote_addr G s =
     (case pg_client_addr G s of Some (Some a) \<Rightarrow> Some a | _ \<Rightarrow> None)"

definition to_str_or_empty :: "('h, 'u, 's, 'l) pingora \<Rightarrow> bytes \<Rightarrow> string" where
  "to_str_or_empty G v = (case hv_to_str G v of Some t \<Rightarrow> t | None \<Rightarrow> [])"

definition get_client_ip :: "('h, 'u, 's, 'l) pingora \<Rightarrow> 's \<Rightarrow> string option" where
  "get_client_ip G s =
     (case pg_header G ''X-Forwarded-For'' s of
        Some v \<Rightarrow> Some (trim (before_text '', '' (to_str_or_empty G v)))
      | None \<Rightarrow>
          (case pg_header G ''X-Real-Ip'' s of
             Some v \<Rightarrow> Some (to_str_or_empty G v)
           | None \<Rightarrow> map_option fst (get_remote_addr G s)))"

definition get_req_header_value :: "('h, 'u, 's, 'l) pingora \<Rightarrow> string \<Rightarrow> 's \<Rightarrow> string option" where
  "get_req_header_value G key s =
     (case pg_header G key s of Some v \<Rightarrow> hv_to_str G v | None \<Rightarrow> None)"

text \<open>Looking a name up among \<open>name=value\<close> items, trimming the name or not.\<close>

fun find_pair :: "(string \<Rightarrow> string) \<Rightarrow> string \<Rightarrow> string list \<Rightarrow> string option" where
  "find_pair f name [] = None"
| "find_pair f name (item # items) =
     (case split_once CHR ''='' item of
        Some (k, v) \<Rightarrow> if f k = name then Some (trim v) else find_pair f name items
      | None \<Rightarrow> find_pair f name items)"

definition get_cookie_value :: "('h, 'u, 's, 'l) pingora \<Rightarrow> string \<Rightarrow> 's \<Rightarrow> string option" where
  "get_cookie_value G name s =
     (case get_req_header_value G ''Cookie'' s of
        Some c \<Rightarrow> find_pair trim name (split_on CHR '';'' c)
      | None \<Rightarrow> None)"

fun query_pairs :: "string list \<Rightarrow> (string \<rightharpoonup> string) \<Rightarrow> (string \<rightharpoonup> string)" where
  "query_pairs [] m = m"
| "query_pairs (item # items) m =
     (case split_once CHR ''='' item of
        Some (k, v) \<Rightarrow> query_pairs items (m(k \<mapsto> v))
      | None \<Rightarrow> query_pairs items m)"

definition convert_query_map :: "string \<Rightarrow> (string \<rightharpoonup> string)" where
  "convert_query_map q = query_pairs (split_on CHR ''&'' q) Map.empty"

definition get_query_value :: "('h, 'u, 's, 'l) pingora \<Rightarrow> string \<Rightarrow> 's \<Rightarrow> string option" where
  "get_query_value G name s =
     (case pg_query G s of Some q \<Rightarrow> find_pair (\<lambda>k. k) name (split_on CHR ''&'' q) | None \<Rightarrow> None)"

definition get_host :: "('h, 'u, 's, 'l) pingora \<Rightarrow> 's \<Rightarrow> string option" where
  "get_host G s =
     (case pg_host G s of
        Some h \<Rightarrow> Some h
      | None \<Rightarrow>
          (case pg_header G ''Host'' s of
             Some v \<Rightarrow> (case hv_to_str G v of Some t \<Rightarrow> Some (hd (split_on CHR '':'' t)) | None \<Rightarrow> None)
           | None \<Rightarrow> None))"

definition get_content_length :: "('h, 'u, 's, 'l) pingora \<Rightarrow> 's \<Rightarrow> nat option" where
  "get_content_length G s =
     (case pg_header G ''content-length'' s of
        Some v \<Rightarrow> parse_u64 (to_str_or_empty G v)
      | None \<Rightarrow> None)"

section \<open>Answering with an error\<close>

fun insert_all :: "('h, 'u, 's, 'l) pingora \<Rightarrow> (string \<times> string) list \<Rightarrow> 'h \<Rightarrow> 'h outcome" where
  "insert_all G [] h = Ok h"
| "insert_all G ((k, v) # hs) h =
     (case hv_name G (dash_spaces k) of
        None \<Rightarrow> Panic ''invalid header name''
      | Some n \<Rightarrow>
          (case hv_value G v of
             None \<Rightarrow> Panic ''invalid header value''
           | Some b \<Rightarrow> (case rh_insert G n b h of Inl e \<Rightarrow> Panic ''insert_header'' | Inr h' \<Rightarrow> insert_all G hs h')))"

definition error_header ::
  "('h, 'u, 's, 'l) pingora \<Rightarrow> nat \<Rightarrow> (string \<times> string) list option \<Rightarrow> 'h outcome" where
  "error_header G code hs =
     (let status = code mod 65536
      in if status < 100 \<or> 1000 \<le> status then Panic ''invalid status code''
         else (case rh_build G status of
                 None \<Rightarrow> Panic ''ResponseHeader::build''
               | Some h0 \<Rightarrow>
                   bind_outcome (case hs of Some l \<Rightarrow> insert_all G (hash_order G l) h0 | None \<Rightarrow> Ok h0) (\<lambda>h1.
                     (case rh_insert G ''Content-Type'' ''application/json'' h1 of
                        Inl e \<Rightarrow> Panic ''insert_header''
                      | Inr h2 \<Rightarrow> Ok h2))))"

text \<open>Building the header, then the two writes, each unwrapped, and turning keep-alive off.\<close>

definition error_response ::
  "('h, 'u, 's, 'l) pingora \<Rightarrow> nat \<Rightarrow> string \<Rightarrow> (string \<times> string) list option \<Rightarrow> 's \<Rightarrow> unit outcome \<times> 's" where
  "error_response G code msg hs s =
     (case error_header G code hs of
        Panic p \<Rightarrow> (Panic p, s)
      | Err e \<Rightarrow> (Err e, s)
      | Ok h \<Rightarrow>
          (case pg_write_header G h False s of
             (Inl e, s1) \<Rightarrow> (Panic ''write_response_header'', s1)
           | (Inr _, s1) \<Rightarrow>
               (case pg_write_body G (Some (error_json G code msg)) True s1 of
                  (Inl e, s2) \<Rightarrow> (Panic ''write_response_body'', s2)
                | (Inr _, s2) \<Rightarrow> (Ok (), pg_set_keepalive G None s2))))"

lemma insert_all_status:
  assumes "pingora_laws G log" "insert_all G hs h = Ok h'"
  shows "rh_status G h' = rh_status G h"
  using assms(2)
proof (induction hs arbitrary: h)
  case (Cons e hs)
  then show ?case
    using pingora_lawsD(8) [OF assms(1)] by (cases e) (fastforce split: option.splits sum.splits)
qed simp

lemma error_header_status:
  assumes laws: "pingora_laws G log" and built: "error_header G code hs = Ok h" and small: "code < 1000"
  shows "rh_status G h = code"
proof -
  from built small obtain h0 where h0: "rh_build G code = Some h0"
    by (auto simp: error_header_def Let_def split: if_splits option.splits)
  with built small obtain h1 where
      h1: "(case hs of Some l \<Rightarrow> insert_all G (hash_order G l) h0 | None \<Rightarrow> Ok h0) = Ok h1"
      and content: "(case rh_insert G ''Content-Type'' ''application/json'' h1 of Inl e \<Rightarrow> Panic ''insert_header'' | Inr h2 \<Rightarrow> Ok h2) = Ok h"
    by (auto simp: error_header_def Let_def simp del: insert_all.simps split: if_splits)
  from content have h2: "rh_insert G ''Content-Type'' ''application/json'' h1 = Inr h" by (auto split: sum.splits)
  have "rh_status G h1 = rh_status G h0"
    using h1 insert_all_status [OF laws] by (cases hs) auto
  then show ?thesis
    using pingora_lawsD(7) [OF laws h0] pingora_lawsD(8) [OF laws h2] by simp
qed

lemma error_response_log:
  assumes "pingora_laws G log" "error_response G code msg hs s = (Ok u, s')" "code < 1000"
  shows "log s' = log s @ [SentHead code False, SentBody (Some (error_json G code msg)) True]"
proof -
  from assms(2) obtain h s1 s2 where "error_header G code hs = Ok h" "pg_write_header G h False s = (Inr (), s1)"
      "pg_write_body G (Some (error_json G code msg)) True s1 = (Inr (), s2)" "s' = pg_set_keepalive G None s2"
    by (auto simp: error_response_def split: outcome.splits prod.splits sum.splits)
  then show ?thesis
    using error_header_status [OF assms(1) _ assms(3)] by (simp add: pingora_lawsD(1-3) [OF assms(1)])
qed

lemma error_response_no_err: "error_response G code msg hs s \<noteq> (Err e, s')"
proof -
  have "insert_all G l h \<noteq> Err e" for l h
    by (induction l arbitrary: h) (auto split: option.splits sum.splits)
  then have "error_header G code hs \<noteq> Err e"
    by (auto simp: error_header_def Let_def split: option.splits if_splits sum.splits elim: bind_outcome.elims)
  then show ?thesis
    by (auto simp: error_response_def split: outcome.splits prod.splits sum.splits)
qed

lemma error_response_cases:
  obtains (Panics) p s' where "error_response G code msg hs s = (Panic p, s')"
    | (Writes) s' where "error_response G code msg hs s = (Ok (), s')"
  using error_response_no_err [of G code msg hs s]
  by (cases "error_response G code msg hs s"; cases "fst (error_response G code msg hs s)") auto

section \<open>Filters\<close>

text \<open>
  A filter reads and changes the context, the session and the rate counters, and returns whether the
  request is finished: true after it has answered with an error, false to go on.
\<close>

record ('s, 'l) world =
  wd_ctx :: router_ctx
  wd_session :: 's
  wd_rates :: 'l

type_synonym ('s, 'l) filter = "('s, 'l) world \<Rightarrow> bool outcome \<times> ('s, 'l) world"

text \<open>\<open>let _ = error_response(...).await; return true\<close>\<close>

definition reject ::
  "('h, 'u, 's, 'l) pingora \<Rightarrow> nat \<Rightarrow> string \<Rightarrow> (string \<times> string) list option \<Rightarrow> ('s, 'l) filter" where
  "reject G code msg hs w =
     (case error_response G code msg hs (wd_session w) of
        (Panic p, s) \<Rightarrow> (Panic p, w\<lparr>wd_session := s\<rparr>)
      | (_, s) \<Rightarrow> (Ok True, w\<lparr>wd_session := s\<rparr>))"

definition pass :: "('s, 'l) filter" where
  "pass w = (Ok False, w)"

definition note_ctx :: "(router_ctx \<Rightarrow> router_ctx) \<Rightarrow> ('s, 'l) filter" where
  "note_ctx f w = (Ok False, w\<lparr>wd_ctx := f (wd_ctx w)\<rparr>)"

text \<open>\<open>match first { true => return Ok(true), false => () }\<close>, then the rest.\<close>

definition filter_then :: "('s, 'l) filter \<Rightarrow> ('s, 'l) filter \<Rightarrow> ('s, 'l) filter" where
  "filter_then f g w = (case f w of (Ok False, w') \<Rightarrow> g w' | r \<Rightarrow> r)"

lemma filter_then_passes:
  "filter_then f g w = (Ok False, w2) \<longleftrightarrow> (\<exists>w1. f w = (Ok False, w1) \<and> g w1 = (Ok False, w2))"
  by (auto simp: filter_then_def split: prod.splits outcome.splits bool.splits)

lemma filter_then_answers:
  "filter_then f g w = (Ok True, w2) \<longleftrightarrow>
     f w = (Ok True, w2) \<or> (\<exists>w1. f w = (Ok False, w1) \<and> g w1 = (Ok True, w2))"
  by (auto simp: filter_then_def split: prod.splits outcome.splits bool.splits)

text \<open>
  What the proxy relies on: a filter that stops a request has written one error response with a body
  in JSON and nothing else; one that lets it pass has written nothing and kept the request's headers
  and peer. pingora goes on to the upstream exactly when nothing was answered.
\<close>

definition answered :: "('h, 'u, 's, 'l) pingora \<Rightarrow> ('s \<Rightarrow> sent list) \<Rightarrow> ('s, 'l) world \<Rightarrow> ('s, 'l) world \<Rightarrow> bool" where
  "answered G log w w' \<longleftrightarrow> (\<exists>code msg. code \<in> {400, 403, 404, 429, 502} \<and>
     log (wd_session w') = log (wd_session w) @ [SentHead code False, SentBody (Some (error_json G code msg)) True])"

definition untouched :: "('h, 'u, 's, 'l) pingora \<Rightarrow> ('s \<Rightarrow> sent list) \<Rightarrow> ('s, 'l) world \<Rightarrow> ('s, 'l) world \<Rightarrow> bool" where
  "untouched G log w w' \<longleftrightarrow> log (wd_session w') = log (wd_session w) \<and>
     (\<forall>n. pg_header G n (wd_session w') = pg_header G n (wd_session w)) \<and>
     pg_client_addr G (wd_session w') = pg_client_addr G (wd_session w)"

locale request_guard =
  fixes G :: "('h, 'u, 's, 'l) pingora"
    and log :: "'s \<Rightarrow> sent list"
    and f :: "('s, 'l) filter"
  assumes stops: "pingora_laws G log \<Longrightarrow> f w = (Ok True, w') \<Longrightarrow> answered G log w w'"
    and passes: "pingora_laws G log \<Longrightarrow> f w = (Ok False, w') \<Longrightarrow> untouched G log w w'"
    and decision: "f w \<noteq> (Err e, w')"

locale guard_pair = first: request_guard G log f + second: request_guard G log g
  for G :: "('h, 'u, 's, 'l) pingora" and log and f :: "('s, 'l) filter" and g :: "('s, 'l) filter"
begin

lemma both: "request_guard G log (filter_then f g)"
proof
  fix w w'
  assume laws: "pingora_laws G log"
  show "answered G log w w'" if "filter_then f g w = (Ok True, w')"
    using that unfolding filter_then_answers
  proof (elim disjE exE conjE)
    fix w1
    assume "f w = (Ok False, w1)" "g w1 = (Ok True, w')"
    then have "untouched G log w w1" "answered G log w1 w'" using laws by (simp_all add: first.passes second.stops)
    then show ?thesis by (simp add: answered_def untouched_def)
  qed (rule first.stops [OF laws])
  show "untouched G log w w'" if "filter_then f g w = (Ok False, w')"
  proof -
    from that obtain w1 where "f w = (Ok False, w1)" "g w1 = (Ok False, w')" by (auto simp: filter_then_passes)
    then have "untouched G log w w1" "untouched G log w1 w'" using laws by (simp_all add: first.passes second.passes)
    then show ?thesis by (simp add: untouched_def)
  qed
next
  fix w e w'
  show "filter_then f g w \<noteq> (Err e, w')"
    using first.decision second.decision
    by (auto simp: filter_then_def split: prod.splits outcome.splits bool.splits)
qed

end

named_theorems guard_intros \<open>filters that are request guards\<close>

lemma guard_then [guard_intros]:
  "request_guard G log f \<Longrightarrow> request_guard G log g \<Longrightarrow> request_guard G log (filter_then f g)"
  by (rule guard_pair.both) (rule guard_pair.intro)

lemma reject_answers:
  assumes "pingora_laws G log" "reject G code msg hs w = (Ok b, w')" "code \<in> {400, 403, 404, 429, 502}"
  shows "b" "answered G log w w'"
proof -
  from assms(2) obtain s where s: "error_response G code msg hs (wd_session w) = (Ok (), s)" "w' = w\<lparr>wd_session := s\<rparr>" "b"
    by (cases rule: error_response_cases [of G code msg hs "wd_session w"]) (auto simp: reject_def)
  then show "b" by simp
  have "code < 1000" using assms(3) by auto
  from error_response_log [OF assms(1) s(1) this] show "answered G log w w'"
    using s(2) assms(3) by (auto simp: answered_def)
qed

lemma reject_stops [simp]: "reject G code msg hs w \<noteq> (Ok False, w')" "reject G code msg hs w \<noteq> (Err e, w')"
  by (cases rule: error_response_cases [of G code msg hs "wd_session w"]; simp add: reject_def)+

lemma answered_same_session [simp]:
  "answered G log (w\<lparr>wd_ctx := x\<rparr>) w' = answered G log w w'" "answered G log (w\<lparr>wd_rates := l\<rparr>) w' = answered G log w w'"
  by (simp_all add: answered_def)

lemma reject_guard [guard_intros]:
  assumes "code \<in> {400, 403, 404, 429, 502}"
  shows "request_guard G log (reject G code msg hs)"
  by unfold_locales (use reject_answers(2) [OF _ _ assms] in simp_all)

lemma pass_guard [guard_intros]: "request_guard G log pass"
  by unfold_locales (auto simp: pass_def untouched_def)

lemma note_guard [guard_intros]: "request_guard G log (note_ctx f)"
  by unfold_locales (auto simp: note_ctx_def untouched_def)

text \<open>A filter that decision by looking at the world first.\<close>

lemma guard_by_cases:
  assumes "\<And>w. \<exists>g. request_guard G log g \<and> f w = g w"
  shows "request_guard G log f"
proof
  fix w w' e
  obtain g where g: "request_guard G log g" "f w = g w" using assms by blast
  show "pingora_laws G log \<Longrightarrow> f w = (Ok True, w') \<Longrightarrow> answered G log w w'"
    using request_guard.stops [OF g(1)] g(2) by simp
  show "pingora_laws G log \<Longrightarrow> f w = (Ok False, w') \<Longrightarrow> untouched G log w w'"
    using request_guard.passes [OF g(1)] g(2) by simp
  show "f w \<noteq> (Err e, w')" using request_guard.decision [OF g(1)] g(2) by simp
qed

end
