(* ===== verification/GatewayFilters.thy ===== *)
theory GatewayFilters
  imports GatewaySession
begin

text \<open>
  The filters a request passes before it reaches a server: choosing the cluster (glaive/src/path.rs), the
  rate limiters (glaive/src/limiter.rs), authentication (glaive/src/auth.rs), and the request filter of
  the router that runs them (glaive/src/proxy.rs). Each is a \<open>request_guard\<close>.
\<close>

section \<open>Choosing the cluster\<close>

definition base_path :: "string \<Rightarrow> string" where
  "base_path uri =
     (case filter (\<lambda>s. s \<noteq> []) (split_on CHR ''/'' uri) of [] \<Rightarrow> ''/'' | base # rest \<Rightarrow> CHR ''/'' # base)"

text \<open>
  The prefix map's keys are unique, so the search through its entries for the base path is a lookup; the
  prefix found is the base path itself.
\<close>

definition select_cluster ::
  "('h, 'u, 's, 'l) pingora \<Rightarrow> (string \<rightharpoonup> nat) \<Rightarrow> string \<Rightarrow> ('s, 'l) filter" where
  "select_cluster G pmap uri w =
     (case pg_parse_uri G uri of
        None \<Rightarrow> reject G 400 ''Invalid path'' None w
      | Some _ \<Rightarrow>
          (case pmap (base_path uri) of
             None \<Rightarrow> reject G 404 ''Path does not exist'' None w
           | Some idx \<Rightarrow>
               (let w1 = w\<lparr>wd_ctx := (wd_ctx w)\<lparr>rx_cluster_address := idx\<rparr>\<rparr>;
                    modified = remove_first (base_path uri) uri
                in if modified = []
                   then (case pg_parse_uri G ''/'' of
                           None \<Rightarrow> (Panic ''unwrap'', w1)
                         | Some u \<Rightarrow> (Ok False, w1\<lparr>wd_session := pg_set_uri G u (wd_session w1)\<rparr>))
                   else (case pg_parse_uri G modified of
                           None \<Rightarrow> reject G 400 ''Invalid path result'' None w1
                         | Some u \<Rightarrow> (Ok False, w1\<lparr>wd_session := pg_set_uri G u (wd_session w1)\<rparr>)))))"

section \<open>Rate limits\<close>

definition limit_headers :: "int \<Rightarrow> (string \<times> string) list" where
  "limit_headers limit =
     [(''X-Rate-Limit-Limit'', show_int limit), (''X-Rate-Limit-Remaining'', ''0''), (''X-Rate-Limit-Reset'', ''1'')]"

definition limit_by ::
  "('h, 'u, 's, 'l) pingora \<Rightarrow> string option \<Rightarrow> int \<Rightarrow> ('s, 'l) filter" where
  "limit_by G key limit w =
     (case key of
        None \<Rightarrow> (Ok False, w)
      | Some k \<Rightarrow>
          (let (n, l) = rate_observe G k 1 (wd_rates w);
               w1 = w\<lparr>wd_rates := l\<rparr>
           in if limit < n then reject G 429 ''Too many request'' (Some (limit_headers limit)) w1
              else (Ok False, w1)))"

definition global_limiter :: "('h, 'u, 's, 'l) pingora \<Rightarrow> int \<Rightarrow> ('s, 'l) filter" where
  "global_limiter G limit w = limit_by G (rx_cluster_identity (wd_ctx w)) limit w"

definition client_limiter :: "('h, 'u, 's, 'l) pingora \<Rightarrow> int \<Rightarrow> ('s, 'l) filter" where
  "client_limiter G limit w =
     limit_by G (case rx_client_credentials (wd_ctx w) of Some c \<Rightarrow> Some c | None \<Rightarrow> rx_client_address (wd_ctx w)) limit w"

section \<open>Authentication\<close>

definition bearer :: "string \<Rightarrow> string" where
  "bearer t = trim (trim_start_matches ''Bearer '' t)"

definition basic_key :: "('h, 'u, 's, 'l) pingora \<Rightarrow> string list \<Rightarrow> ('s, 'l) filter" where
  "basic_key G allowed w =
     (case pg_header G ''Authorization'' (wd_session w) of
        None \<Rightarrow> reject G 403 ''Key is required'' None w
      | Some creds \<Rightarrow>
          (case from_utf8 creds of
             None \<Rightarrow> reject G 502 ''Unable to parse key'' None w
           | Some t \<Rightarrow>
               if bearer t \<in> set allowed then (Ok False, w)
               else reject G 403 ''Invalid API Key'' None w))"

text \<open>The token's consumer against the cluster's consumers, then the gateway's, then the two access lists.\<close>

definition authorize_consumer ::
  "('h, 'u, 's, 'l) pingora \<Rightarrow> consumer list option \<Rightarrow> consumer list \<Rightarrow> string \<Rightarrow> ('s, 'l) filter" where
  "authorize_consumer G gateway_consumers consumers claimed w =
     (case find (\<lambda>c. claimed = cn_name c) consumers of
        None \<Rightarrow> reject G 403 ''Unauthorized consumer'' None w
      | Some allowed \<Rightarrow>
          (case gateway_consumers of
             None \<Rightarrow> reject G 502 ''Undefined consumer'' None w
           | Some defs \<Rightarrow>
               (case find (\<lambda>c. cn_name allowed = cn_name c) defs of
                  None \<Rightarrow> reject G 502 ''Consumer not found'' None w
                | Some c \<Rightarrow>
                    if list_ex (\<lambda>item. list_ex (\<lambda>a. a = item) (cn_acl allowed)) (cn_acl c)
                    then (Ok False, w)
                    else reject G 403 ''Unauthorized access control'' None w)))"

definition basic_jwt ::
  "('h, 'u, 's, 'l) pingora \<Rightarrow> consumer list option \<Rightarrow> consumer list option \<Rightarrow> string \<Rightarrow> ('s, 'l) filter" where
  "basic_jwt G gateway_consumers cluster_consumers secret w =
     (case pg_header G ''Authorization'' (wd_session w) of
        None \<Rightarrow> reject G 403 ''Token is required'' None w
      | Some token \<Rightarrow>
          (case from_utf8 token of
             None \<Rightarrow> reject G 400 ''Unable to parse token'' None w
           | Some t \<Rightarrow>
               (case jwt_decode G secret (bearer t) of
                  Inl e \<Rightarrow> reject G 403 (''Invalid Token: '' @ e) None w
                | Inr claimed \<Rightarrow>
                    (case cluster_consumers of
                       None \<Rightarrow> (Ok False, w)
                     | Some cs \<Rightarrow> authorize_consumer G gateway_consumers cs claimed w))))"

section \<open>The request filter\<close>

record ('lb, 'h, 'p) proxy_router =
  pr_clusters :: "('lb, 'h, 'p) cluster_metadata list"
  pr_prefix_map :: "string \<rightharpoonup> nat"
  pr_consumers :: "consumer list option"

definition ip_filter ::
  "('h, 'u, 's, 'l) pingora \<Rightarrow> ('lb, 'c, 'p) cluster_metadata \<Rightarrow> ('s, 'l) filter" where
  "ip_filter G cl w =
     (case get_client_ip G (wd_session w) of
        None \<Rightarrow> (Ok False, w)
      | Some address \<Rightarrow>
          (let w1 = w\<lparr>wd_ctx := (wd_ctx w)\<lparr>rx_client_address := Some address\<rparr>\<rparr>
           in case cm_ip cl of
                Some whitelist \<Rightarrow>
                  if list_ex (\<lambda>a. a = address) whitelist then (Ok False, w1)
                  else reject G 403 ''restricted ip address'' None w1
              | None \<Rightarrow> (Ok False, w1)))"

definition note_credential :: "('h, 'u, 's, 'l) pingora \<Rightarrow> ('s, 'l) filter" where
  "note_credential G w =
     (case get_req_header_value G ''Authorization'' (wd_session w) of
        Some c \<Rightarrow> note_ctx (\<lambda>x. x\<lparr>rx_client_credentials := Some c\<rparr>) w
      | None \<Rightarrow> pass w)"

definition rate_filter :: "('h, 'u, 's, 'l) pingora \<Rightarrow> ('lb, 'c, 'p) cluster_metadata \<Rightarrow> ('s, 'l) filter" where
  "rate_filter G cl =
     (case cm_limiter cl of
        None \<Rightarrow> pass
      | Some lim \<Rightarrow>
          filter_then
            (case lm_global lim of Some (Basic n) \<Rightarrow> global_limiter G n | None \<Rightarrow> pass)
            (case lm_client lim of Some (Basic n) \<Rightarrow> client_limiter G n | None \<Rightarrow> pass))"

definition auth_filter ::
  "('h, 'u, 's, 'l) pingora \<Rightarrow> ('lb, 'c, 'p) proxy_router \<Rightarrow> ('lb, 'c, 'p) cluster_metadata \<Rightarrow> ('s, 'l) filter" where
  "auth_filter G R cl =
     (case cm_auth cl of
        Some (AuthKey allowed) \<Rightarrow> basic_key G allowed
      | Some (AuthJwt secret) \<Rightarrow> basic_jwt G (pr_consumers R) (cm_consumers cl) secret
      | Some AuthExternal \<Rightarrow> pass
      | None \<Rightarrow> pass)"

text \<open>The path is the one the cluster choice has left in the request.\<close>

definition endpoint_filter :: "('h, 'u, 's, 'l) pingora \<Rightarrow> ('lb, 'c, 'p) cluster_metadata \<Rightarrow> ('s, 'l) filter" where
  "endpoint_filter G cl w =
     (case cm_routes cl of
        None \<Rightarrow> pass w
      | Some routes \<Rightarrow>
          note_ctx (\<lambda>x. x\<lparr>rx_enable_endpoint := list_ex (\<lambda>r. case rt_paths r of
              Some ps \<Rightarrow> list_ex (\<lambda>p. pg_path G (wd_session w) = p) ps
            | None \<Rightarrow> False) routes\<rparr>) w)"

definition cluster_filter ::
  "('h, 'u, 's, 'l) pingora \<Rightarrow> ('lb, 'c, 'p) proxy_router \<Rightarrow> ('lb, 'c, 'p) cluster_metadata \<Rightarrow> ('s, 'l) filter" where
  "cluster_filter G R cl =
     filter_then (note_ctx (\<lambda>x. x\<lparr>rx_cluster_identity := Some (cm_name cl)\<rparr>))
       (filter_then (ip_filter G cl)
         (filter_then (note_credential G)
           (filter_then (rate_filter G cl)
             (filter_then (auth_filter G R cl) (endpoint_filter G cl)))))"

definition selected_filter :: "('h, 'u, 's, 'l) pingora \<Rightarrow> ('lb, 'c, 'p) proxy_router \<Rightarrow> ('s, 'l) filter" where
  "selected_filter G R w =
     (if rx_cluster_address (wd_ctx w) < length (pr_clusters R)
      then cluster_filter G R (pr_clusters R ! rx_cluster_address (wd_ctx w)) w
      else (Panic ''index out of bounds'', w))"

definition request_filter :: "('h, 'u, 's, 'l) pingora \<Rightarrow> ('lb, 'c, 'p) proxy_router \<Rightarrow> ('s, 'l) filter" where
  "request_filter G R w =
     filter_then (note_ctx (\<lambda>x. x\<lparr>rx_uri_origin := Some (pg_uri_text G (wd_session w))\<rparr>))
       (filter_then (select_cluster G (pr_prefix_map R) (pg_path G (wd_session w))) (selected_filter G R)) w"

section \<open>Every filter is a guard\<close>

named_theorems filter_defs \<open>filters that decide by looking at the world\<close>

lemmas [filter_defs] = select_cluster_def limit_by_def global_limiter_def client_limiter_def basic_key_def
  basic_jwt_def authorize_consumer_def ip_filter_def note_credential_def endpoint_filter_def pass_def note_ctx_def

lemmas filter_splits = option.splits if_splits sum.splits prod.splits

interpretation select: request_guard G log "select_cluster G pmap uri" for G log pmap uri
proof
  fix w w' e
  show "pingora_laws G log \<Longrightarrow> select_cluster G pmap uri w = (Ok True, w') \<Longrightarrow> answered G log w w'"
    by (auto simp: filter_defs Let_def split: filter_splits dest: reject_answers(2))
  show "pingora_laws G log \<Longrightarrow> select_cluster G pmap uri w = (Ok False, w') \<Longrightarrow> untouched G log w w'"
    by (auto simp: filter_defs Let_def untouched_def pingora_lawsD(4-6) split: filter_splits)
  show "select_cluster G pmap uri w \<noteq> (Err e, w')"
    by (auto simp: filter_defs Let_def split: filter_splits)
qed

interpretation rate: request_guard G log "limit_by G key limit" for G log key limit
proof
  fix w w' e
  show "pingora_laws G log \<Longrightarrow> limit_by G key limit w = (Ok True, w') \<Longrightarrow> answered G log w w'"
    by (auto simp: filter_defs Let_def split: filter_splits dest: reject_answers(2))
  show "pingora_laws G log \<Longrightarrow> limit_by G key limit w = (Ok False, w') \<Longrightarrow> untouched G log w w'"
    by (auto simp: filter_defs Let_def untouched_def split: filter_splits)
  show "limit_by G key limit w \<noteq> (Err e, w')"
    by (auto simp: filter_defs Let_def split: filter_splits)
qed

interpretation key: request_guard G log "basic_key G allowed" for G log allowed
proof
  fix w w' e
  show "pingora_laws G log \<Longrightarrow> basic_key G allowed w = (Ok True, w') \<Longrightarrow> answered G log w w'"
    by (auto simp: filter_defs split: filter_splits dest: reject_answers(2))
  show "pingora_laws G log \<Longrightarrow> basic_key G allowed w = (Ok False, w') \<Longrightarrow> untouched G log w w'"
    by (auto simp: filter_defs untouched_def split: filter_splits)
  show "basic_key G allowed w \<noteq> (Err e, w')"
    by (auto simp: filter_defs split: filter_splits)
qed

interpretation jwt: request_guard G log "basic_jwt G gcs ccs secret" for G log gcs ccs secret
proof
  fix w w' e
  show "pingora_laws G log \<Longrightarrow> basic_jwt G gcs ccs secret w = (Ok True, w') \<Longrightarrow> answered G log w w'"
    by (auto simp: filter_defs split: filter_splits dest: reject_answers(2))
  show "pingora_laws G log \<Longrightarrow> basic_jwt G gcs ccs secret w = (Ok False, w') \<Longrightarrow> untouched G log w w'"
    by (auto simp: filter_defs untouched_def split: filter_splits)
  show "basic_jwt G gcs ccs secret w \<noteq> (Err e, w')"
    by (auto simp: filter_defs split: filter_splits)
qed

interpretation ip: request_guard G log "ip_filter G cl" for G log cl
proof
  fix w w' e
  show "pingora_laws G log \<Longrightarrow> ip_filter G cl w = (Ok True, w') \<Longrightarrow> answered G log w w'"
    by (auto simp: filter_defs Let_def split: filter_splits dest: reject_answers(2))
  show "pingora_laws G log \<Longrightarrow> ip_filter G cl w = (Ok False, w') \<Longrightarrow> untouched G log w w'"
    by (auto simp: filter_defs Let_def untouched_def split: filter_splits)
  show "ip_filter G cl w \<noteq> (Err e, w')"
    by (auto simp: filter_defs Let_def split: filter_splits)
qed

lemma limiters_guard [guard_intros]:
  "request_guard G log (global_limiter G n)" "request_guard G log (client_limiter G n)"
proof -
  show "request_guard G log (global_limiter G n)"
    by (rule guard_by_cases) (metis global_limiter_def rate.request_guard_axioms)
  show "request_guard G log (client_limiter G n)"
    by (rule guard_by_cases) (metis client_limiter_def rate.request_guard_axioms)
qed

lemma rate_filter_guard [guard_intros]: "request_guard G log (rate_filter G cl)"
  by (auto simp: rate_filter_def intro!: guard_intros split: option.splits ratelimit_type.splits)

lemma auth_filter_guard [guard_intros]: "request_guard G log (auth_filter G R cl)"
  by (auto simp: auth_filter_def intro: guard_intros key.request_guard_axioms jwt.request_guard_axioms
      split: option.splits auth_type.splits)

lemma looking_guards [guard_intros]:
  "request_guard G log (note_credential G)" "request_guard G log (endpoint_filter G cl)"
  by (unfold_locales; auto simp: filter_defs untouched_def split: filter_splits)+

lemma cluster_filter_guard [guard_intros]: "request_guard G log (cluster_filter G R cl)"
  unfolding cluster_filter_def by (intro guard_intros ip.request_guard_axioms)

lemma selected_filter_guard [guard_intros]: "request_guard G log (selected_filter G R)"
proof
  fix w w' e
  show "pingora_laws G log \<Longrightarrow> selected_filter G R w = (Ok True, w') \<Longrightarrow> answered G log w w'"
    by (auto simp: selected_filter_def split: if_splits intro: request_guard.stops [OF cluster_filter_guard])
  show "pingora_laws G log \<Longrightarrow> selected_filter G R w = (Ok False, w') \<Longrightarrow> untouched G log w w'"
    by (auto simp: selected_filter_def split: if_splits intro: request_guard.passes [OF cluster_filter_guard])
  show "selected_filter G R w \<noteq> (Err e, w')"
    by (auto simp: selected_filter_def request_guard.decision [OF cluster_filter_guard])
qed

interpretation chain: guard_pair G log "select_cluster G pmap uri" "selected_filter G R" for G log pmap uri R
  by (intro guard_pair.intro select.request_guard_axioms selected_filter_guard)

lemma filter_chain_guard:
  "request_guard G log (filter_then (note_ctx h) (filter_then (select_cluster G pmap uri) (selected_filter G R)))"
  by (intro guard_then chain.both) (rule guard_intros)

interpretation whole: request_guard G log "request_filter G R" for G log R
  by (rule guard_by_cases) (use filter_chain_guard request_filter_def in blast)

section \<open>What passing means\<close>

lemma untouched_client_ip:
  "untouched G log w w' \<Longrightarrow> get_client_ip G (wd_session w') = get_client_ip G (wd_session w)"
  by (simp add: untouched_def get_client_ip_def get_remote_addr_def split: option.split)

lemma reject_not_passing [simp]: "reject G code msg hs w = (Ok False, w') \<longleftrightarrow> False"
  by simp

lemma limit_by_passes:
  assumes "limit_by G key limit w = (Ok False, w')"
  shows "wd_ctx w' = wd_ctx w" "wd_session w' = wd_session w"
  using assms by (auto simp: limit_by_def Let_def split: filter_splits)

lemma rate_filter_passes:
  assumes "rate_filter G cl w = (Ok False, w')"
  shows "wd_ctx w' = wd_ctx w \<and> wd_session w' = wd_session w"
proof -
  have one: "wd_ctx w2 = wd_ctx w1 \<and> wd_session w2 = wd_session w1"
    if "(case r of Some (Basic n) \<Rightarrow> global_limiter G n | None \<Rightarrow> pass) w1 = (Ok False, w2)" for r w1 w2
    using that limit_by_passes
    by (auto simp: global_limiter_def pass_def split: option.splits ratelimit_type.splits)
  have two: "wd_ctx w2 = wd_ctx w1 \<and> wd_session w2 = wd_session w1"
    if "(case r of Some (Basic n) \<Rightarrow> client_limiter G n | None \<Rightarrow> pass) w1 = (Ok False, w2)" for r w1 w2
    using that limit_by_passes
    by (auto simp: client_limiter_def pass_def split: option.splits ratelimit_type.splits)
  show ?thesis
  proof (cases "cm_limiter cl")
    case (Some lim)
    with assms obtain w1 where
        "(case lm_global lim of Some (Basic n) \<Rightarrow> global_limiter G n | None \<Rightarrow> pass) w = (Ok False, w1)"
        "(case lm_client lim of Some (Basic n) \<Rightarrow> client_limiter G n | None \<Rightarrow> pass) w1 = (Ok False, w')"
      by (auto simp: rate_filter_def filter_then_passes)
    from one [OF this(1)] two [OF this(2)] show ?thesis by simp
  qed (use assms in \<open>simp add: rate_filter_def pass_def\<close>)
qed

lemma basic_key_passes:
  "basic_key G allowed w = (Ok False, w') \<longleftrightarrow> w' = w \<and>
     (\<exists>v t. pg_header G ''Authorization'' (wd_session w) = Some v \<and> from_utf8 v = Some t \<and> bearer t \<in> set allowed)"
  by (auto simp: basic_key_def split: filter_splits)

lemma find_SomeD: "find P xs = Some x \<Longrightarrow> x \<in> set xs \<and> P x"
  by (induction xs) (auto split: if_splits)

lemma authorize_consumer_passes:
  assumes "authorize_consumer G defs cs claimed w = (Ok False, w')"
  shows "w' = w \<and> (\<exists>ds d. \<exists>a\<in>set cs. defs = Some ds \<and> d \<in> set ds \<and> cn_name a = claimed \<and> cn_name d = claimed \<and>
      set (cn_acl a) \<inter> set (cn_acl d) \<noteq> {})"
proof -
  from assms obtain a where a: "find (\<lambda>c. claimed = cn_name c) cs = Some a"
    by (auto simp: authorize_consumer_def split: option.splits)
  with assms obtain ds where ds: "defs = Some ds" by (auto simp: authorize_consumer_def split: option.splits)
  with assms a obtain d where d: "find (\<lambda>c. cn_name a = cn_name c) ds = Some d"
    by (auto simp: authorize_consumer_def split: option.splits)
  with assms a ds have "w' = w" "list_ex (\<lambda>item. list_ex (\<lambda>x. x = item) (cn_acl a)) (cn_acl d)"
    by (auto simp: authorize_consumer_def split: if_splits)
  then show ?thesis
    using find_SomeD [OF a] find_SomeD [OF d] ds by (fastforce simp: list_ex_iff)
qed

lemma basic_jwt_passes:
  assumes "basic_jwt G defs ccs secret w = (Ok False, w')"
  shows "w' = w \<and> (\<exists>v t claimed. pg_header G ''Authorization'' (wd_session w) = Some v \<and> from_utf8 v = Some t \<and>
      jwt_decode G secret (bearer t) = Inr claimed \<and>
      (\<forall>cs. ccs = Some cs \<longrightarrow> (\<exists>ds d. \<exists>a\<in>set cs. defs = Some ds \<and> d \<in> set ds \<and> cn_name a = claimed \<and>
         cn_name d = claimed \<and> set (cn_acl a) \<inter> set (cn_acl d) \<noteq> {})))"
  using assms authorize_consumer_passes by (fastforce simp: basic_jwt_def split: filter_splits)

end
