(* ===== verification/GatewayProxy.thy ===== *)
theory GatewayProxy
  imports GatewayFilters
begin

text \<open>
  The remaining phases of the router (glaive/src/proxy.rs): the peer, the cache filters, the header
  filters and the retry decision; the start of the gateway (glaive/src/main.rs, glaive/src/default.rs);
  and lemmas on the filters.
\<close>

section \<open>The peer and the cache\<close>

record http_peer =
  hp_address :: string
  hp_tls :: bool
  hp_sni :: string
  hp_connect_timeout :: "nat option"

text \<open>\<open>clusters[ctx.cluster_address]\<close>: out of range it panics.\<close>

definition chosen_cluster ::
  "('lb, 'c, 'p) proxy_router \<Rightarrow> router_ctx \<Rightarrow> ('lb, 'c, 'p) cluster_metadata outcome" where
  "chosen_cluster R x =
     (if rx_cluster_address x < length (pr_clusters R) then Ok (pr_clusters R ! rx_cluster_address x)
      else Panic ''index out of bounds'')"

definition upstream_peer_of ::
  "('lb \<Rightarrow> string option) \<Rightarrow> ('lb, 'c, 'p) proxy_router \<Rightarrow> router_ctx \<Rightarrow> http_peer outcome" where
  "upstream_peer_of select R x =
     bind_outcome (chosen_cluster R x) (\<lambda>cl.
       (case select (cm_upstream cl) of
          None \<Rightarrow> Panic ''no healthy upstream''
        | Some a \<Rightarrow>
            Ok \<lparr>hp_address = a, hp_tls = cm_tls cl, hp_sni = cm_host cl,
                hp_connect_timeout = Some (unwrap_or 100 (cm_timeout cl))\<rparr>))"

definition request_cache_filter ::
  "('h, 'u, 's, 'l) pingora \<Rightarrow> (('c, 'p) cache_bucket \<Rightarrow> 's \<Rightarrow> 's) \<Rightarrow> ('lb, 'c, 'p) proxy_router \<Rightarrow> router_ctx \<Rightarrow> 's
   \<Rightarrow> 's outcome" where
  "request_cache_filter G enable R x s =
     bind_outcome (chosen_cluster R x) (\<lambda>cl.
       (if pg_method G s = ''GET''
        then (case cm_cache_storage cl of Some b \<Rightarrow> Ok (enable b s) | None \<Rightarrow> Ok s)
        else Ok s))"

datatype 's cache_key = CacheKeyOf string string string | CacheKeyDefault 's

definition cache_key_callback ::
  "('lb, 'c, 'p) proxy_router \<Rightarrow> router_ctx \<Rightarrow> 's \<Rightarrow> 's cache_key outcome" where
  "cache_key_callback R x s =
     bind_outcome (chosen_cluster R x) (\<lambda>cl.
       (case rx_uri_origin x of
          Some origin \<Rightarrow> Ok (CacheKeyOf (cm_name cl) origin [])
        | None \<Rightarrow> Ok (CacheKeyDefault s)))"

text \<open>Every response is cacheable: fresh until now plus the time to live, two seconds by default.\<close>

definition response_cache_filter ::
  "(nat \<Rightarrow> nat \<Rightarrow> 'r \<Rightarrow> 'm) \<Rightarrow> nat \<Rightarrow> ('lb, 'c, 'p) proxy_router \<Rightarrow> router_ctx \<Rightarrow> 'r \<Rightarrow> 'm outcome" where
  "response_cache_filter new_meta now R x resp =
     bind_outcome (chosen_cluster R x) (\<lambda>cl. Ok (new_meta (now + unwrap_or 2 (cm_cache_ttl cl)) now resp))"

section \<open>Rewriting headers\<close>

text \<open>The header operations of pingora's request and response types.\<close>

record 'm message_ops =
  mo_append :: "string \<Rightarrow> bytes \<Rightarrow> 'm \<Rightarrow> io_error + 'm"
  mo_insert :: "string \<Rightarrow> bytes \<Rightarrow> 'm \<Rightarrow> io_error + 'm"
  mo_remove :: "string \<Rightarrow> 'm \<Rightarrow> 'm"
  mo_get :: "string \<Rightarrow> 'm \<Rightarrow> bytes option"

text \<open>What is relied on: an inserted value is the one found, and other names are left alone.\<close>

definition message_laws :: "'m message_ops \<Rightarrow> bool" where
  "message_laws M \<longleftrightarrow>
     (\<forall>k v m m'. mo_insert M k v m = Inr m' \<longrightarrow> mo_get M k m' = Some v) \<and>
     (\<forall>k v m m' j. mo_insert M k v m = Inr m' \<longrightarrow> \<not> eq_ignore_ascii_case j k \<longrightarrow> mo_get M j m' = mo_get M j m)"

definition of_sum :: "io_error + 'a \<Rightarrow> 'a outcome" where
  "of_sum r = (case r of Inl e \<Rightarrow> Err e | Inr x \<Rightarrow> Ok x)"

fun append_headers ::
  "('h, 'u, 's, 'l) pingora \<Rightarrow> 'm message_ops \<Rightarrow> (string \<times> string) list \<Rightarrow> 'm \<Rightarrow> 'm outcome" where
  "append_headers G M [] m = Ok m"
| "append_headers G M ((k, v) # hs) m =
     (case hv_name G (dash_spaces k) of
        None \<Rightarrow> Panic ''invalid header name''
      | Some n \<Rightarrow>
          (case hv_value G v of
             None \<Rightarrow> Panic ''invalid header value''
           | Some b \<Rightarrow> bind_outcome (of_sum (mo_append M n b m)) (append_headers G M hs)))"

fun remove_headers :: "'m message_ops \<Rightarrow> string list \<Rightarrow> 'm \<Rightarrow> 'm" where
  "remove_headers M [] m = m"
| "remove_headers M (k # ks) m = remove_headers M ks (mo_remove M (dash_spaces k) m)"

definition rewrite_headers ::
  "('h, 'u, 's, 'l) pingora \<Rightarrow> 'm message_ops \<Rightarrow> message_conf option \<Rightarrow> 'm \<Rightarrow> 'm outcome" where
  "rewrite_headers G M conf m =
     (case conf of
        Some (Some hc) \<Rightarrow>
          bind_outcome (case hc_insert hc of Some l \<Rightarrow> append_headers G M l m | None \<Rightarrow> Ok m) (\<lambda>m1.
            Ok (case hc_remove hc of Some ks \<Rightarrow> remove_headers M ks m1 | None \<Rightarrow> m1))
      | _ \<Rightarrow> Ok m)"

definition upstream_request_filter ::
  "('h, 'u, 's, 'l) pingora \<Rightarrow> 'm message_ops \<Rightarrow> ('lb, 'c, 'p) proxy_router \<Rightarrow> router_ctx \<Rightarrow> 'm \<Rightarrow> 'm outcome" where
  "upstream_request_filter G M R x m =
     bind_outcome (chosen_cluster R x) (\<lambda>cl. rewrite_headers G M (cm_request cl) m)"

datatype no_cache_reason = Deferred | OtherReason string

datatype cache_phase = PhaseHit | PhaseMiss | PhaseStale | PhaseExpired | PhaseRevalidated
  | PhaseRevalidatedNoCache no_cache_reason | PhaseDisabled no_cache_reason | PhaseOther string

fun cache_status :: "bool \<Rightarrow> cache_phase \<Rightarrow> string" where
  "cache_status True PhaseHit = ''hit''"
| "cache_status True PhaseMiss = ''miss''"
| "cache_status True PhaseStale = ''stale''"
| "cache_status True PhaseExpired = ''expired''"
| "cache_status True PhaseRevalidated = ''revalidated''"
| "cache_status True (PhaseRevalidatedNoCache r) = ''revalidated''"
| "cache_status True p = ''invalid''"
| "cache_status False (PhaseDisabled Deferred) = ''deferred''"
| "cache_status False p = ''no-cache''"

text \<open>The session's cache: enabled or not, its phase, and how long it waited for the lock (ms).\<close>

record http_cache =
  hc_enabled :: bool
  hc_phase :: cache_phase
  hc_lock_duration :: "nat option"

definition response_filter ::
  "('h, 'u, 's, 'l) pingora \<Rightarrow> 'm message_ops \<Rightarrow> http_cache \<Rightarrow> ('lb, 'c, 'p) proxy_router \<Rightarrow> router_ctx \<Rightarrow> 'm
   \<Rightarrow> 'm outcome" where
  "response_filter G M cache R x m =
     bind_outcome (chosen_cluster R x) (\<lambda>cl.
     bind_outcome (rewrite_headers G M (cm_response cl) m) (\<lambda>m1.
     bind_outcome (of_sum (mo_insert M ''Server'' ''Glaive Gateway'' m1)) (\<lambda>m2.
     bind_outcome (of_sum (mo_insert M ''x-cache-status'' (cache_status (hc_enabled cache) (hc_phase cache)) m2)) (\<lambda>m3.
     (case hc_lock_duration cache of
        Some d \<Rightarrow> of_sum (mo_insert M ''x-cache-lock-time-ms'' (show_nat d) m3)
      | None \<Rightarrow> Ok m3)))))"

section \<open>Retrying a connection\<close>

text \<open>The error's retry mark, and the count of retries in the context.\<close>

definition fail_to_connect ::
  "('lb, 'c, 'p) cluster_metadata \<Rightarrow> bool \<times> router_ctx \<Rightarrow> bool \<times> router_ctx" where
  "fail_to_connect cl e =
     (let (retry, x) = e
      in if unwrap_or 1 (cm_retry cl) < rx_proxy_retry x then (retry, x)
         else (True, x\<lparr>rx_proxy_retry := uadd (rx_proxy_retry x) 1\<rparr>))"

text \<open>A request whose connections all fail: the contexts after each failure, every error unmarked at first.\<close>

fun failures :: "('lb, 'c, 'p) cluster_metadata \<Rightarrow> nat \<Rightarrow> router_ctx \<Rightarrow> bool list" where
  "failures cl 0 x = []"
| "failures cl (Suc n) x = (let (r, x') = fail_to_connect cl (False, x) in r # failures cl n x')"

section \<open>Start and defaults\<close>

text \<open>The default proxy: its answer to every request, and a peer it never comes to ask for.\<close>

record default_answer =
  da_server :: string
  da_version :: string
  da_message :: string
  da_github :: string

definition default_message :: default_answer where
  "default_message = \<lparr>da_server = ''Glaive Gateway'', da_version = ''2.0.0'',
     da_message = ''start configuring your gateway!'', da_github = ''https://github.com/MMADUs/Glaive''\<rparr>"

definition default_upstream_peer :: "(string \<Rightarrow> bool \<Rightarrow> string \<Rightarrow> 'p) \<Rightarrow> 'p outcome" where
  "default_upstream_peer http_peer = Ok (http_peer [] False [])"

definition default_request_filter ::
  "('h, 'u, 's, 'l) pingora \<Rightarrow> (default_answer \<Rightarrow> bytes option) \<Rightarrow> 's \<Rightarrow> bool outcome \<times> 's" where
  "default_request_filter G to_json s =
     (case rh_build G 200 of
        None \<Rightarrow> (Err (Other ''ResponseHeader::build''), s)
      | Some h \<Rightarrow>
          (case rh_insert G ''Content-Type'' ''application/json'' h of
             Inl e \<Rightarrow> (Err e, s)
           | Inr h1 \<Rightarrow>
               (case to_json default_message of
                  None \<Rightarrow> (Panic ''called `Result::unwrap()` on an `Err` value'', s)
                | Some body \<Rightarrow>
                    (case pg_write_header G h1 True (pg_set_keepalive G None s) of
                       (Inl e, s1) \<Rightarrow> (Err e, s1)
                     | (Inr _, s1) \<Rightarrow>
                         (case pg_write_body G (Some body) True s1 of
                            (Inl e, s2) \<Rightarrow> (Err e, s2)
                          | (Inr _, s2) \<Rightarrow> (Ok True, s2))))))"

text \<open>
  \<open>main\<close>: what is served, and the background services added before it. The port is read from the
  environment, 6188 by default.
\<close>

datatype ('lb, 'upd, 'c, 'p) served =
  ServeRouter "'lb list" "'upd list" "('lb, 'c, 'p) proxy_router" string
| ServeDefault string

definition listen_address :: "string option \<Rightarrow> string" where
  "listen_address port = ''0.0.0.0:'' @ unwrap_or ''6188'' port"

definition start_gateway ::
  "('k, 'c) scc \<Rightarrow> ('d, 'lb, 'upd) balancers \<Rightarrow> (string \<Rightarrow> 'f option) \<Rightarrow> ('f \<Rightarrow> system_config option) \<Rightarrow> string option
   \<Rightarrow> server_conf \<Rightarrow> (('lb, 'upd, 'c, 'p) served \<times> server_conf) outcome" where
  "start_gateway C B open_file parse_yaml port server =
     bind_outcome (load_config open_file parse_yaml server) (\<lambda>(conf, server').
       (case gc_clusters conf of
          Some cs \<Rightarrow>
            bind_outcome (build_cluster C B cs) (\<lambda>b.
              Ok (ServeRouter (bl_cluster_bg b) (bl_updater_bg b)
                    \<lparr>pr_clusters = bl_clusters b, pr_prefix_map = bl_prefix_map b, pr_consumers = gc_consumers conf\<rparr>
                    (listen_address port), server'))
        | None \<Rightarrow> Ok (ServeDefault (listen_address port), server')))"

section \<open>Lemmas\<close>

lemma of_sum_Ok [simp]: "of_sum r = Ok x \<longleftrightarrow> r = Inr x"
  by (auto simp: of_sum_def split: sum.splits)

text \<open>Splitting a path at its slashes.\<close>

lemma split_slashes: "filter (\<lambda>s. s \<noteq> []) (split_on c (replicate k c @ xs)) = filter (\<lambda>s. s \<noteq> []) (split_on c xs)"
  by (induction k) auto

lemma base_path_of:
  assumes "base \<noteq> []" "CHR ''/'' \<notin> set base" "rest = [] \<or> hd rest = CHR ''/''"
  shows "base_path (replicate k CHR ''/'' @ base @ rest) = CHR ''/'' # base"
proof -
  obtain ps where "split_on CHR ''/'' (base @ rest) = base # ps"
    using assms by (cases rest) (auto simp: split_on_no_char split_on_append)
  then show ?thesis using assms(1) by (simp add: base_path_def split_slashes)
qed

lemma base_path_segment: "\<exists>base. base_path uri = CHR ''/'' # base \<and> CHR ''/'' \<notin> set base"
proof (cases "filter (\<lambda>s. s \<noteq> []) (split_on CHR ''/'' uri)")
  case (Cons base rest)
  then have "base \<in> set (split_on CHR ''/'' uri)" using filter_eq_ConsD [OF Cons] by auto
  then show ?thesis using Cons split_on_no_sep by (auto simp: base_path_def)
qed (simp add: base_path_def)

lemma remove_base:
  assumes "base \<noteq> []" "CHR ''/'' \<notin> set base"
  shows "remove_first (CHR ''/'' # base) (replicate (Suc k) CHR ''/'' @ base @ rest) = replicate k CHR ''/'' @ rest"
proof -
  have "remove_first (CHR ''/'' # base) (replicate k CHR ''/'' @ (CHR ''/'' # base) @ rest) = replicate k CHR ''/'' @ rest"
  proof (rule remove_first_at)
    fix j
    assume "j < length (replicate k CHR ''/'')"
    then obtain i where "k - j = Suc i" by (metis Suc_diff_Suc length_replicate)
    then show "\<not> prefix (CHR ''/'' # base) (drop j (replicate k CHR ''/'') @ (CHR ''/'' # base) @ rest)"
      using assms by (cases base; cases i) auto
  qed simp
  then show ?thesis by (simp add: replicate_app_Cons_same)
qed

lemma select_cluster_passes:
  assumes "select_cluster G pmap uri w = (Ok False, w')"
  obtains i u where "pmap (base_path uri) = Some i"
    "w' = w\<lparr>wd_ctx := (wd_ctx w)\<lparr>rx_cluster_address := i\<rparr>, wd_session := pg_set_uri G u (wd_session w)\<rparr>"
    "pg_parse_uri G (if remove_first (base_path uri) uri = [] then ''/'' else remove_first (base_path uri) uri) = Some u"
  using assms that by (auto simp: select_cluster_def Let_def split: filter_splits)

end
