(* ===== verification/GatewayProperties.thy ===== *)
theory GatewayProperties
  imports GatewayProxy
begin

text \<open>
  The properties of the gateway's filters: what a stopped and a passed request have in common, access
  control, the choice of the cluster and the path sent on, rate limits, retries and response headers.
\<close>

section \<open>An instance for the witnesses\<close>

text \<open>
  A session is a URI, its headers and the log of what was written; a URI is a text that starts with a
  slash; a token is valid if it starts with the secret, and the rest names its consumer; the rates are
  the observations made.
\<close>

type_synonym demo_session = "string \<times> (string \<times> string) list \<times> sent list"

definition demo_count :: "string \<Rightarrow> (string \<times> int) list \<Rightarrow> int" where
  "demo_count k l = int (length (filter (\<lambda>e. fst e = k) l))"

definition demo :: "(nat, string, demo_session, (string \<times> int) list) pingora" where
  "demo = \<lparr>pg_path = (\<lambda>s. before_text ''?'' (fst s)), pg_uri_text = fst, pg_query = (\<lambda>s. None), pg_host = (\<lambda>s. None),
     pg_method = (\<lambda>s. ''GET''), pg_header = (\<lambda>k s. map_of (fst (snd s)) k), pg_client_addr = (\<lambda>s. Some (Some (''10.0.0.1'', 5000))),
     pg_parse_uri = (\<lambda>t. if starts_with CHR ''/'' t then Some t else None), pg_set_uri = (\<lambda>u s. (u, snd s)),
     pg_write_header = (\<lambda>h e s. (Inr (), (fst s, fst (snd s), snd (snd s) @ [SentHead h e]))),
     pg_write_body = (\<lambda>b e s. (Inr (), (fst s, fst (snd s), snd (snd s) @ [SentBody b e]))),
     pg_set_keepalive = (\<lambda>k s. s), rh_build = Some, rh_insert = (\<lambda>k v h. Inr h), rh_status = (\<lambda>h. h),
     hv_name = Some, hv_value = Some, hv_to_str = Some, error_json = (\<lambda>n m. m), hash_order = (\<lambda>l. l),
     rate_observe = (\<lambda>k n l. (demo_count k l + n, (k, n) # l)),
     jwt_decode = (\<lambda>secret t. if prefix secret t then Inr (drop (length secret) t) else Inl ''InvalidSignature'')\<rparr>"

lemma demo_sel:
  "pg_path demo s = before_text ''?'' (fst s)" "pg_uri_text demo s = fst s" "pg_header demo k s = map_of (fst (snd s)) k"
  "pg_client_addr demo s = Some (Some (''10.0.0.1'', 5000))"
  "pg_parse_uri demo t = (if starts_with CHR ''/'' t then Some t else None)" "pg_set_uri demo u s = (u, snd s)"
  "pg_write_header demo h e s = (Inr (), (fst s, fst (snd s), snd (snd s) @ [SentHead h e]))"
  "pg_write_body demo b e s = (Inr (), (fst s, fst (snd s), snd (snd s) @ [SentBody b e]))"
  "pg_set_keepalive demo ka s = s" "rh_build demo n = Some n" "rh_insert demo k v h = Inr h" "hv_to_str demo v = Some v"
  by (simp_all add: demo_def)

abbreviation demo_log :: "demo_session \<Rightarrow> sent list" where
  "demo_log \<equiv> \<lambda>s. snd (snd s)"

lemma demo_laws: "pingora_laws demo demo_log"
  by (auto simp: pingora_laws_def demo_def)

definition demo_cluster :: "auth_type option \<Rightarrow> string list option \<Rightarrow> (string, unit, unit) cluster_metadata" where
  "demo_cluster auth ips =
     \<lparr>cm_name = ''one'', cm_host = ''localhost'', cm_tls = False, cm_limiter = None, cm_cache_storage = None, cm_cache_ttl = None,
      cm_retry = None, cm_timeout = None, cm_request = None, cm_response = None, cm_auth = auth, cm_ip = ips,
      cm_consumers = None, cm_routes = None, cm_upstream = ''h:1''\<rparr>"

definition demo_router :: "auth_type option \<Rightarrow> string list option \<Rightarrow> (string, unit, unit) proxy_router" where
  "demo_router auth ips = \<lparr>pr_clusters = [demo_cluster auth ips], pr_prefix_map = [''/a'' \<mapsto> 0], pr_consumers = None\<rparr>"

definition demo_request :: "string \<Rightarrow> (string \<times> string) list \<Rightarrow> (demo_session, (string \<times> int) list) world" where
  "demo_request uri hs = \<lparr>wd_ctx = new_ctx, wd_session = (uri, hs, []), wd_rates = []\<rparr>"

lemmas demo_eval = request_filter_def filter_then_def note_ctx_def selected_filter_def cluster_filter_def
  demo_sel demo_router_def demo_cluster_def demo_request_def new_ctx_def rate_filter_def auth_filter_def pass_def
  select_cluster_def base_path_def starts_with_def ip_filter_def get_client_ip_def get_remote_addr_def
  note_credential_def get_req_header_value_def endpoint_filter_def basic_key_def reject_def error_response_def error_header_def

section \<open>Properties\<close>

text \<open>
  C2 (invariant). A request is answered or passed on, never both and never neither: when the request
  filter stops it, exactly one error response has been written, a header and a JSON body that ends the
  stream; when it lets it pass, nothing has been written and the headers are the client's.
\<close>

theorem request_filter_answers:
  assumes "pingora_laws G log" "request_filter G R w = (Ok stopped, w')"
  shows "if stopped then answered G log w w' else untouched G log w w'"
  using whole.stops [OF assms(1)] whole.passes [OF assms(1)] assms(2) by (cases stopped) auto

lemma request_filter_answers_witness:
  "\<exists>w'. request_filter demo (demo_router None None) (demo_request ''/b/x'' []) = (Ok True, w') \<and>
     answered demo demo_log (demo_request ''/b/x'' []) w'"
proof -
  obtain w' where w': "request_filter demo (demo_router None None) (demo_request ''/b/x'' []) = (Ok True, w')"
    by (simp add: demo_eval)
  from request_filter_answers [OF demo_laws this] w' show ?thesis by auto
qed

text \<open>What a request has shown that passes all filters of its cluster.\<close>

lemma cluster_filter_passes:
  assumes "cluster_filter G R cl w = (Ok False, w')"
  shows "rx_cluster_address (wd_ctx w') = rx_cluster_address (wd_ctx w)"
    and "get_client_ip G (wd_session w) = Some a \<Longrightarrow> cm_ip cl = Some wl \<Longrightarrow> a \<in> set wl"
    and "cm_auth cl = Some (AuthKey keys) \<Longrightarrow>
      \<exists>v t. pg_header G ''Authorization'' (wd_session w) = Some v \<and> from_utf8 v = Some t \<and> bearer t \<in> set keys"
    and "cm_auth cl = Some (AuthJwt secret) \<Longrightarrow>
      \<exists>v t. pg_header G ''Authorization'' (wd_session w) = Some v \<and> from_utf8 v = Some t \<and>
      (\<exists>claimed. jwt_decode G secret (bearer t) = Inr claimed \<and>
       (\<forall>cs. cm_consumers cl = Some cs \<longrightarrow> (\<exists>ds d. \<exists>a\<in>set cs. pr_consumers R = Some ds \<and> d \<in> set ds \<and>
          cn_name a = claimed \<and> cn_name d = claimed \<and> set (cn_acl a) \<inter> set (cn_acl d) \<noteq> {})))"
proof -
  let ?w3 = "w\<lparr>wd_ctx := (wd_ctx w)\<lparr>rx_cluster_identity := Some (cm_name cl)\<rparr>\<rparr>"
  from assms obtain w4 w5 w6 w7 where ip: "ip_filter G cl ?w3 = (Ok False, w4)"
      and cred: "note_credential G w4 = (Ok False, w5)" and rate: "rate_filter G cl w5 = (Ok False, w6)"
      and auth: "auth_filter G R cl w6 = (Ok False, w7)" and fin: "endpoint_filter G cl w7 = (Ok False, w')"
    by (auto simp: cluster_filter_def filter_then_passes note_ctx_def)
  have w4: "wd_session w4 = wd_session w" "rx_cluster_address (wd_ctx w4) = rx_cluster_address (wd_ctx w)"
      "\<And>a wl. get_client_ip G (wd_session w) = Some a \<Longrightarrow> cm_ip cl = Some wl \<Longrightarrow> a \<in> set wl"
    using ip by (auto simp: ip_filter_def list_ex_iff Let_def split: filter_splits)
  have w5: "wd_session w5 = wd_session w" "rx_cluster_address (wd_ctx w5) = rx_cluster_address (wd_ctx w)"
    using cred w4(1,2) by (auto simp: note_credential_def note_ctx_def pass_def split: option.splits)
  then have w6: "wd_session w6 = wd_session w" "rx_cluster_address (wd_ctx w6) = rx_cluster_address (wd_ctx w)"
    using rate_filter_passes [OF rate] by simp_all
  have w7: "w7 = w6"
    using auth basic_key_passes [of G _ w6 w7] basic_jwt_passes [of G "pr_consumers R" "cm_consumers cl" _ w6 w7]
    by (auto simp: auth_filter_def pass_def split: option.splits auth_type.splits)
  show "rx_cluster_address (wd_ctx w') = rx_cluster_address (wd_ctx w)"
    using fin w6 w7 by (auto simp: endpoint_filter_def note_ctx_def pass_def split: option.splits)
  show "get_client_ip G (wd_session w) = Some a \<Longrightarrow> cm_ip cl = Some wl \<Longrightarrow> a \<in> set wl" by (rule w4(3))
  show "\<exists>v t. pg_header G ''Authorization'' (wd_session w) = Some v \<and> from_utf8 v = Some t \<and> bearer t \<in> set keys"
    if "cm_auth cl = Some (AuthKey keys)"
    using auth that basic_key_passes [of G keys w6 w7] w6 by (simp add: auth_filter_def)
  assume "cm_auth cl = Some (AuthJwt secret)"
  with auth have "basic_jwt G (pr_consumers R) (cm_consumers cl) secret w6 = (Ok False, w7)" by (simp add: auth_filter_def)
  from basic_jwt_passes [OF this] show "\<exists>v t. pg_header G ''Authorization'' (wd_session w) = Some v \<and> from_utf8 v = Some t \<and>
      (\<exists>claimed. jwt_decode G secret (bearer t) = Inr claimed \<and>
       (\<forall>cs. cm_consumers cl = Some cs \<longrightarrow> (\<exists>ds d. \<exists>a\<in>set cs. pr_consumers R = Some ds \<and> d \<in> set ds \<and>
          cn_name a = claimed \<and> cn_name d = claimed \<and> set (cn_acl a) \<inter> set (cn_acl d) \<noteq> {})))"
    unfolding w6 by blast
qed

text \<open>
  C1 (safety). Access control: a request that passes belongs to a cluster of the router, and passed what
  that cluster asks for. With an IP list, the client's address, if it is known, is on it; with key authentication,
  the Authorization header without its Bearer prefix is an allowed key; with tokens, it decodes under the
  cluster's secret, and if the cluster names consumers, the token's consumer is one of them, is known to the
  gateway, and the two access lists share an entry.
\<close>

theorem access_control:
  assumes "pingora_laws G log" "request_filter G R w = (Ok False, w')"
  shows "rx_cluster_address (wd_ctx w') < length (pr_clusters R) \<and>
    (let cl = pr_clusters R ! rx_cluster_address (wd_ctx w'); s = wd_session w;
         credential = (\<lambda>p. \<exists>v t. pg_header G ''Authorization'' s = Some v \<and> from_utf8 v = Some t \<and> p (bearer t))
     in (\<forall>ip wl. get_client_ip G s = Some ip \<longrightarrow> cm_ip cl = Some wl \<longrightarrow> ip \<in> set wl) \<and>
        (\<forall>keys. cm_auth cl = Some (AuthKey keys) \<longrightarrow> credential (\<lambda>k. k \<in> set keys)) \<and>
        (\<forall>secret. cm_auth cl = Some (AuthJwt secret) \<longrightarrow> credential (\<lambda>k. \<exists>claimed. jwt_decode G secret k = Inr claimed \<and>
           (\<forall>cs. cm_consumers cl = Some cs \<longrightarrow> (\<exists>ds d. \<exists>a\<in>set cs. pr_consumers R = Some ds \<and> d \<in> set ds \<and>
              cn_name a = claimed \<and> cn_name d = claimed \<and> set (cn_acl a) \<inter> set (cn_acl d) \<noteq> {})))))"
proof -
  let ?w1 = "w\<lparr>wd_ctx := (wd_ctx w)\<lparr>rx_uri_origin := Some (pg_uri_text G (wd_session w))\<rparr>\<rparr>"
  obtain w2 where sel: "select_cluster G (pr_prefix_map R) (pg_path G (wd_session w)) ?w1 = (Ok False, w2)"
      and rest: "selected_filter G R w2 = (Ok False, w')"
    using assms(2) by (auto simp: request_filter_def filter_then_passes note_ctx_def)
  define i where "i = rx_cluster_address (wd_ctx w2)"
  define cl where "cl = pr_clusters R ! i"
  have i: "i < length (pr_clusters R)" and chain: "cluster_filter G R cl w2 = (Ok False, w')"
    using rest by (auto simp: selected_filter_def i_def cl_def split: if_splits)
  note passes = cluster_filter_passes [OF chain]
  have addr: "rx_cluster_address (wd_ctx w') = i" by (simp add: passes(1) i_def)
  have same_request: "get_client_ip G (wd_session w2) = get_client_ip G (wd_session w)"
      "pg_header G n (wd_session w2) = pg_header G n (wd_session w)" for n
    using untouched_client_ip [OF select.passes [OF assms(1) sel]] select.passes [OF assms(1) sel]
    by (simp_all add: untouched_def)
  show ?thesis
    unfolding addr Let_def cl_def [symmetric]
    by (intro conjI allI impI i) (rule passes(2-4) [unfolded same_request]; assumption)+
qed

lemma access_control_witness:
  "\<exists>w'. request_filter demo (demo_router (Some (AuthKey [''k1''])) (Some [''10.0.0.1'']))
       (demo_request ''/a/x'' [(''Authorization'', ''Bearer k1'')]) = (Ok False, w') \<and>
     rx_cluster_address (wd_ctx w') < 1 \<and> fst (wd_session w') = ''/x''"
proof -
  let ?R = "demo_router (Some (AuthKey [''k1''])) (Some [''10.0.0.1''])"
  let ?w = "demo_request ''/a/x'' [(''Authorization'', ''Bearer k1'')]"
  let ?cl = "demo_cluster (Some (AuthKey [''k1''])) (Some [''10.0.0.1''])"
  let ?hs = "[(''Authorization'', ''Bearer k1'')]"
  have bearer: "bearer ''Bearer k1'' = ''k1''" and utf8: "from_utf8 ''Bearer k1'' = Some ''Bearer k1''"
    by (simp_all add: bearer_def trim_start_matches_def strip_all.simps trim_visible between_def from_utf8_def utf8_valid_ascii byte_def)
  have ip: "get_client_ip demo (u, ?hs, []) = Some ''10.0.0.1''" for u
    by (simp add: get_client_ip_def get_remote_addr_def demo_sel)
  have key: "basic_key demo [''k1''] \<lparr>wd_ctx = x, wd_session = (u, ?hs, []), wd_rates = l\<rparr>
      = (Ok False, \<lparr>wd_ctx = x, wd_session = (u, ?hs, []), wd_rates = l\<rparr>)" for x u l
    by (simp add: basic_key_def demo_sel bearer utf8)
  have sel: "select_cluster demo [''/a'' \<mapsto> 0] ''/a/x'' \<lparr>wd_ctx = x, wd_session = (u, ?hs, []), wd_rates = l\<rparr>
      = (Ok False, \<lparr>wd_ctx = x\<lparr>rx_cluster_address := 0\<rparr>, wd_session = (''/x'', ?hs, []), wd_rates = l\<rparr>)" for x u l
    by (simp add: select_cluster_def base_path_def demo_sel starts_with_def)
  have path: "pg_path demo (''/a/x'', ?hs, []) = ''/a/x''" by (simp add: demo_sel)
  have chain: "\<exists>w'. cluster_filter demo ?R ?cl \<lparr>wd_ctx = x, wd_session = (u, ?hs, []), wd_rates = l\<rparr> = (Ok False, w') \<and>
      wd_session w' = (u, ?hs, [])" for x u l
    by (simp add: cluster_filter_def filter_then_def note_ctx_def ip_filter_def ip rate_filter_def auth_filter_def key
        pass_def note_credential_def get_req_header_value_def endpoint_filter_def demo_sel(3,12) demo_cluster_def)
  have "\<exists>w'. request_filter demo ?R ?w = (Ok False, w') \<and> fst (wd_session w') = ''/x''"
    using chain [of _ "''/x''" "[]"]
    by (fastforce simp: request_filter_def filter_then_def note_ctx_def demo_request_def path sel selected_filter_def
        demo_router_def)
  then obtain w' where w': "request_filter demo ?R ?w = (Ok False, w')" "fst (wd_session w') = ''/x''" by blast
  from access_control [OF demo_laws w'(1)] w' show ?thesis by (auto simp: demo_router_def)
qed

text \<open>
  C10 (functional). Routing: the first segment of the path, any number of slashes before it, chooses
  the cluster, and the request goes on with exactly that segment and its slash taken out, or with the root if
  nothing is left.
\<close>

theorem select_cluster_rewrites:
  assumes "path = replicate (Suc k) CHR ''/'' @ base @ rest" "base \<noteq> []" "CHR ''/'' \<notin> set base"
    and "rest = [] \<or> hd rest = CHR ''/''" "pmap (CHR ''/'' # base) = Some i" "pg_parse_uri G path \<noteq> None"
    and "pg_parse_uri G (if replicate k CHR ''/'' @ rest = [] then ''/'' else replicate k CHR ''/'' @ rest) = Some u"
  shows "select_cluster G pmap path w =
    (Ok False, w\<lparr>wd_ctx := (wd_ctx w)\<lparr>rx_cluster_address := i\<rparr>, wd_session := pg_set_uri G u (wd_session w)\<rparr>)"
proof -
  have "base_path path = CHR ''/'' # base" using base_path_of [OF assms(2-4)] assms(1) by metis
  moreover have "remove_first (CHR ''/'' # base) path = replicate k CHR ''/'' @ rest"
    using remove_base [OF assms(2,3)] assms(1) by simp
  ultimately show ?thesis
    using assms(5-7) by (auto simp: select_cluster_def split: if_splits)
qed

lemma select_cluster_rewrites_witness:
  "fst (wd_session (snd (select_cluster demo [''/a'' \<mapsto> 3] ''//a/b/c'' (demo_request ''//a/b/c'' [])))) = ''//b/c'' \<and>
   fst (wd_session (snd (select_cluster demo [''/a'' \<mapsto> 3] ''/a'' (demo_request ''/a'' [])))) = ''/''"
  using select_cluster_rewrites [of "''//a/b/c''" 1 "''a''" "''/b/c''" "[''/a'' \<mapsto> 3]" 3 demo "''//b/c''" "demo_request ''//a/b/c'' []"]
    select_cluster_rewrites [of "''/a''" 0 "''a''" "[]" "[''/a'' \<mapsto> 3]" 3 demo "''/''" "demo_request ''/a'' []"]
  by (simp add: demo_def starts_with_def)

text \<open>
  A cluster whose prefix has more than one segment is unreachable: the configuration is
  accepted, but the router compares the prefix with the first segment of the path only.
\<close>

theorem nested_prefix_unreachable:
  assumes "build_cluster C B cs = Ok b" "i < length cs" "cc_prefix (cs ! i) = Some (CHR ''/'' # p)" "CHR ''/'' \<in> set p"
    and "select_cluster G (bl_prefix_map b) path w = (Ok False, w')"
  shows "rx_cluster_address (wd_ctx w') \<noteq> i"
proof -
  from assms(5) obtain j u where j: "bl_prefix_map b (base_path path) = Some j" "rx_cluster_address (wd_ctx w') = j"
    by (elim select_cluster_passes) simp
  obtain base where base: "base_path path = CHR ''/'' # base" "CHR ''/'' \<notin> set base"
    using base_path_segment by blast
  then have "cc_prefix (cs ! j) = Some (CHR ''/'' # base)"
    using routes_toD(2) [OF build_cluster_routes [OF assms(1)] j(1)] by simp
  then show ?thesis using assms(3,4) base(2) j(2) by auto
qed

lemma nested_prefix_unreachable_witness:
  "\<exists>b :: (string, string, (nat \<times> cache_object) list, unit) built_clusters.
     \<exists>w'. build_cluster list_scc text_balancers
        [plain_cluster ''one'' ''/api'' (Some [''h:1'']), plain_cluster ''two'' ''/api/v1'' (Some [''h:2''])] = Ok b \<and>
     select_cluster demo (bl_prefix_map b) ''/api/v1/x'' (demo_request ''/api/v1/x'' []) = (Ok False, w') \<and>
     rx_cluster_address (wd_ctx w') \<noteq> 1"
proof -
  let ?c1 = "plain_cluster ''one'' ''/api'' (Some [''h:1''])" and ?c2 = "plain_cluster ''two'' ''/api/v1'' (Some [''h:2''])"
  have "list_all (buildable text_balancers None) [?c1, ?c2]" by (simp add: buildable_def build_eval)
  from iffD2 [OF build_from_Ok this, of list_scc 0 "\<lparr>bl_clusters = [], bl_prefix_map = Map.empty, bl_cluster_bg = [],
      bl_updater_bg = []\<rparr> :: (string, string, (nat \<times> cache_object) list, unit) built_clusters"]
  obtain b where "build_from list_scc text_balancers None 0 [?c1, ?c2] \<lparr>bl_clusters = [], bl_prefix_map = Map.empty,
      bl_cluster_bg = [], bl_updater_bg = []\<rparr> = Ok (b :: (string, string, (nat \<times> cache_object) list, unit) built_clusters)"
    by blast
  moreover have "\<not> validate_duplicated_prefix [?c1, ?c2]" "\<not> has_discovery_enabled [?c1, ?c2]"
    by (simp_all add: validate_duplicated_prefix_iff has_discovery_enabled_def plain_cluster_def)
  ultimately have b: "build_cluster list_scc text_balancers [?c1, ?c2] = Ok b"
    by (simp add: build_cluster_def del: build_from.simps)
  have p1: "cc_prefix ([?c1, ?c2] ! 0) = Some ''/api''" and p2: "cc_prefix ([?c1, ?c2] ! 1) = Some (CHR ''/'' # ''api/v1'')"
    by (simp_all add: plain_cluster_def)
  have "bl_prefix_map b ''/api'' = Some 0"
    using build_cluster_routes [OF b] p1 unfolding routes_to_def by fastforce
  then obtain w' where w': "select_cluster demo (bl_prefix_map b) ''/api/v1/x'' (demo_request ''/api/v1/x'' []) = (Ok False, w')"
    by (simp add: select_cluster_def base_path_def demo_def starts_with_def)
  from nested_prefix_unreachable [OF b _ p2 _ w'] b w' show ?thesis by auto
qed

text \<open>
  The query string is lost: the target sent on is a function of the path alone. Two
  requests that differ only in what the path does not show, such as the query, are sent on with the
  same URI.
\<close>

theorem query_forgotten:
  assumes "pg_path G (wd_session w1) = pg_path G (wd_session w2)"
    and "select_cluster G pmap (pg_path G (wd_session w1)) w1 = (Ok False, w1')"
    and "select_cluster G pmap (pg_path G (wd_session w2)) w2 = (Ok False, w2')"
  shows "\<exists>u. wd_session w1' = pg_set_uri G u (wd_session w1) \<and> wd_session w2' = pg_set_uri G u (wd_session w2)"
proof -
  obtain i u where 1: "w1' = w1\<lparr>wd_ctx := (wd_ctx w1)\<lparr>rx_cluster_address := i\<rparr>, wd_session := pg_set_uri G u (wd_session w1)\<rparr>"
      "pg_parse_uri G (let r = remove_first (base_path (pg_path G (wd_session w1))) (pg_path G (wd_session w1))
        in if r = [] then ''/'' else r) = Some u"
    using assms(2) by (rule select_cluster_passes) (simp add: Let_def)
  obtain j v where 2: "w2' = w2\<lparr>wd_ctx := (wd_ctx w2)\<lparr>rx_cluster_address := j\<rparr>, wd_session := pg_set_uri G v (wd_session w2)\<rparr>"
      "pg_parse_uri G (let r = remove_first (base_path (pg_path G (wd_session w2))) (pg_path G (wd_session w2))
        in if r = [] then ''/'' else r) = Some v"
    using assms(3) by (rule select_cluster_passes) (simp add: Let_def)
  from 1(2) 2(2) assms(1) have "u = v" by simp
  then show ?thesis using 1(1) 2(1) by (intro exI [of _ u]) simp
qed

lemma query_forgotten_witness:
  "\<exists>w1 w2. select_cluster demo [''/a'' \<mapsto> 0] ''/a/x'' (demo_request ''/a/x?page=2'' []) = (Ok False, w1) \<and>
     select_cluster demo [''/a'' \<mapsto> 0] ''/a/x'' (demo_request ''/a/x'' []) = (Ok False, w2) \<and> wd_session w1 = wd_session w2"
proof -
  let ?w1 = "demo_request ''/a/x?page=2'' []" and ?w2 = "demo_request ''/a/x'' []"
  have path: "pg_path demo (wd_session ?w1) = ''/a/x''" "pg_path demo (wd_session ?w2) = ''/a/x''"
    by (simp_all add: demo_def demo_request_def)
  obtain w1 w2 where w: "select_cluster demo [''/a'' \<mapsto> 0] ''/a/x'' ?w1 = (Ok False, w1)"
      "select_cluster demo [''/a'' \<mapsto> 0] ''/a/x'' ?w2 = (Ok False, w2)"
    by (simp add: select_cluster_def base_path_def demo_def starts_with_def)
  from query_forgotten [of demo ?w1 ?w2 "[''/a'' \<mapsto> 0]" w1 w2] w path have "wd_session w1 = wd_session w2"
    by (auto simp: demo_def demo_request_def)
  then show ?thesis using w by blast
qed

text \<open>
  The limiters run one after the other, on any requests: a call is one of the global limiter or one of the client
  limiter, with its limit; its outcome is the verdict and the table of rates after it. Both count in the same
  table, under the key of the call.
\<close>

type_synonym 's limiter_call = "bool \<times> int \<times> router_ctx \<times> 's"

fun limiter_key :: "'s limiter_call \<Rightarrow> string option" where
  "limiter_key (client, limit, x, s) =
     (if client then (case rx_client_credentials x of Some c \<Rightarrow> Some c | None \<Rightarrow> rx_client_address x) else rx_cluster_identity x)"

fun call_limit :: "'s limiter_call \<Rightarrow> int" where
  "call_limit (client, limit, x, s) = limit"

fun limiter_call :: "('h, 'u, 's, 'l) pingora \<Rightarrow> 's limiter_call \<Rightarrow> 'l \<Rightarrow> bool outcome \<times> 'l" where
  "limiter_call G (client, limit, x, s) l =
     (let (r, w) = (if client then client_limiter G limit else global_limiter G limit) \<lparr>wd_ctx = x, wd_session = s, wd_rates = l\<rparr>
      in (r, wd_rates w))"

fun limiter_run :: "('h, 'u, 's, 'l) pingora \<Rightarrow> 's limiter_call list \<Rightarrow> 'l \<Rightarrow> (bool outcome \<times> 'l) list" where
  "limiter_run G [] l = []"
| "limiter_run G (c # cs) l = limiter_call G c l # limiter_run G cs (snd (limiter_call G c l))"

definition rates_before :: "('h, 'u, 's, 'l) pingora \<Rightarrow> 's limiter_call list \<Rightarrow> 'l \<Rightarrow> nat \<Rightarrow> 'l" where
  "rates_before G cs l i = (case i of 0 \<Rightarrow> l | Suc j \<Rightarrow> snd (limiter_run G cs l ! j))"

text \<open>
  What a count-min sketch over time windows promises, the table including the clock: with \<open>window\<close> the window of the
  last observation and \<open>cnt\<close> the true counts in it, an observation falls into the same window, where it adds to its
  key's count, or into a later one, where it is the first; its answer may be too high, as keys share
  counters, but never below the true count.
\<close>

definition rate_laws :: "('h, 'u, 's, 'l) pingora \<Rightarrow> ('l \<Rightarrow> nat) \<Rightarrow> ('l \<Rightarrow> string \<Rightarrow> nat) \<Rightarrow> bool" where
  "rate_laws G window cnt \<longleftrightarrow>
     (\<forall>k l n l'. rate_observe G k 1 l = (n, l') \<longrightarrow>
        window l \<le> window l' \<and> int (cnt l' k) \<le> n \<and>
        cnt l' = (if window l' = window l then cnt l else (\<lambda>j. 0))(k := Suc (if window l' = window l then cnt l k else 0)))"

abbreviation (input) demo_true_count :: "(string \<times> int) list \<Rightarrow> string \<Rightarrow> nat" where
  "demo_true_count l k \<equiv> length (filter (\<lambda>e. fst e = k) l)"

lemma demo_rate_laws: "rate_laws demo (\<lambda>l. 0) demo_true_count"
  by (auto simp: rate_laws_def demo_def demo_count_def)

lemma reject_rates: "wd_rates (snd (reject G code msg hs w)) = wd_rates w"
  by (cases rule: error_response_cases [of G code msg hs "wd_session w"]) (simp_all add: reject_def)

lemma limit_by_observes:
  "wd_rates (snd (limit_by G (Some k) limit w)) = snd (rate_observe G k 1 (wd_rates w))"
  "fst (limit_by G (Some k) limit w) = Ok False \<longleftrightarrow> fst (rate_observe G k 1 (wd_rates w)) \<le> limit"
  using reject_stops(1) [of G 429 "''Too many request''" "Some (limit_headers limit)" "w\<lparr>wd_rates := snd (rate_observe G k 1 (wd_rates w))\<rparr>"]
  by (auto simp: limit_by_def case_prod_unfold Let_def reject_rates prod_eq_iff)

text \<open>A call observes its key, if it has one, and passes when the estimate is within the limit.\<close>

lemma limiter_call_observes:
  "snd (limiter_call G c l) = (case limiter_key c of None \<Rightarrow> l | Some k \<Rightarrow> snd (rate_observe G k 1 l))"
  "limiter_key c = Some k \<Longrightarrow> fst (limiter_call G c l) = Ok False \<longleftrightarrow> fst (rate_observe G k 1 l) \<le> call_limit c"
proof -
  obtain b n x s where c: "c = (b, n, x, s)" by (metis prod_cases4)
  have run: "limiter_call G c l = (fst (limit_by G (limiter_key c) n \<lparr>wd_ctx = x, wd_session = s, wd_rates = l\<rparr>),
      wd_rates (snd (limit_by G (limiter_key c) n \<lparr>wd_ctx = x, wd_session = s, wd_rates = l\<rparr>)))"
    by (simp add: c case_prod_unfold Let_def client_limiter_def global_limiter_def cong: option.case_cong)
  show "snd (limiter_call G c l) = (case limiter_key c of None \<Rightarrow> l | Some k \<Rightarrow> snd (rate_observe G k 1 l))"
  proof (cases "limiter_key c")
    case None
    then show ?thesis unfolding run by (simp add: limit_by_def)
  qed (simp add: run limit_by_observes)
  show "fst (limiter_call G c l) = Ok False \<longleftrightarrow> fst (rate_observe G k 1 l) \<le> call_limit c" if "limiter_key c = Some k"
    unfolding run that by (simp add: limit_by_observes c)
qed

lemma limiter_run_length [simp]: "length (limiter_run G cs l) = length cs"
  by (induction cs arbitrary: l) simp_all

lemma limiter_run_nth: "i < length cs \<Longrightarrow> limiter_run G cs l ! i = limiter_call G (cs ! i) (rates_before G cs l i)"
proof (induction cs arbitrary: l i)
  case (Cons c cs)
  show ?case
  proof (cases i)
    case (Suc j)
    have "rates_before G (c # cs) l i = rates_before G cs (snd (limiter_call G c l)) j"
      by (cases j) (simp_all add: Suc rates_before_def)
    with Suc Cons show ?thesis by simp
  qed (simp add: rates_before_def)
qed simp

text \<open>The calls up to \<open>i\<close> that counted under \<open>k\<close> in the window of the call \<open>i\<close>.\<close>

definition counted :: "('l \<Rightarrow> nat) \<Rightarrow> ('h, 'u, 's, 'l) pingora \<Rightarrow> 's limiter_call list \<Rightarrow> 'l \<Rightarrow> nat \<Rightarrow> string \<Rightarrow> nat set" where
  "counted window G cs l i k =
     {j. j \<le> i \<and> limiter_key (cs ! j) = Some k \<and> window (snd (limiter_run G cs l ! j)) = window (snd (limiter_run G cs l ! i))}"

lemma counted_finite: "finite (counted window G cs l i k)"
  by (rule finite_subset [of _ "{..i}"]) (auto simp: counted_def)

lemma windows_grow:
  assumes "rate_laws G window cnt" "i < length cs" "j \<le> i"
  shows "window (snd (limiter_run G cs l ! j)) \<le> window (snd (limiter_run G cs l ! i))"
  using assms(3,2)
proof (induction rule: dec_induct)
  case (step i)
  have "snd (limiter_run G cs l ! Suc i) = (case limiter_key (cs ! Suc i) of None \<Rightarrow> snd (limiter_run G cs l ! i)
      | Some k \<Rightarrow> snd (rate_observe G k 1 (snd (limiter_run G cs l ! i))))"
    using limiter_run_nth [OF step.prems, of G l] by (simp add: limiter_call_observes(1) rates_before_def)
  moreover have "window m \<le> window (snd (rate_observe G k 1 m))" for k m
    using assms(1) unfolding rate_laws_def by (metis prod.collapse)
  ultimately show ?case using step.IH step.prems by (auto split: option.splits intro: le_trans)
qed simp

lemma counted_le:
  assumes R: "rate_laws G window cnt" and "i < length cs"
  shows "card (counted window G cs l i k) \<le> cnt (snd (limiter_run G cs l ! i)) k"
  using assms(2)
proof (induction i)
  case 0
  have step: "snd (limiter_run G cs l ! 0) = (case limiter_key (cs ! 0) of None \<Rightarrow> l | Some k \<Rightarrow> snd (rate_observe G k 1 l))"
    using limiter_run_nth [OF 0, of G l] by (simp add: limiter_call_observes(1) rates_before_def)
  have "counted window G cs l 0 k = (if limiter_key (cs ! 0) = Some k then {0} else {})" by (auto simp: counted_def)
  moreover obtain n l' where o: "rate_observe G k 1 l = (n, l')" by fastforce
  then have "0 < cnt l' k" using R unfolding rate_laws_def by (metis fun_upd_same zero_less_Suc)
  ultimately show ?case using step o by simp
next
  case (Suc i)
  let ?L = "\<lambda>i. snd (limiter_run G cs l ! i)"
  have IH: "card (counted window G cs l i k) \<le> cnt (?L i) k" using Suc by simp
  have step: "?L (Suc i) = (case limiter_key (cs ! Suc i) of None \<Rightarrow> ?L i | Some k \<Rightarrow> snd (rate_observe G k 1 (?L i)))"
    using limiter_run_nth [OF Suc.prems, of G l] by (simp add: limiter_call_observes(1) rates_before_def)
  have grow: "window (?L j) \<le> window (?L i)" if "j \<le> i" for j
    using windows_grow [OF R _ that] Suc.prems by simp
  have set: "counted window G cs l (Suc i) k =
      (if limiter_key (cs ! Suc i) = Some k then {Suc i} else {}) \<union>
      (if window (?L (Suc i)) = window (?L i) then counted window G cs l i k else {})"
    if "window (?L i) \<le> window (?L (Suc i))"
  proof (rule set_eqI)
    fix j
    consider "j = Suc i" | "j \<le> i" | "Suc i < j" by linarith
    then show "j \<in> counted window G cs l (Suc i) k \<longleftrightarrow> j \<in> (if limiter_key (cs ! Suc i) = Some k then {Suc i} else {}) \<union>
        (if window (?L (Suc i)) = window (?L i) then counted window G cs l i k else {})"
      by cases (use that grow [of j] in \<open>auto simp: counted_def\<close>)
  qed
  show ?case
  proof (cases "limiter_key (cs ! Suc i)")
    case None
    with step set IH show ?thesis by simp
  next
    case (Some k')
    obtain n l' where o: "rate_observe G k' 1 (?L i) = (n, l')" by fastforce
    with Some step have L: "?L (Suc i) = l'" by simp
    have laws: "window (?L i) \<le> window l'"
        "cnt l' = (if window l' = window (?L i) then cnt (?L i) else (\<lambda>j. 0))(k' := Suc (if window l' = window (?L i) then cnt (?L i) k' else 0))"
      using R o unfolding rate_laws_def by metis+
    have "card (counted window G cs l (Suc i) k) \<le> (if k' = k then 1 else 0) +
        (if window l' = window (?L i) then card (counted window G cs l i k) else 0)"
      unfolding set [unfolded L, OF laws(1)] Some using card_Un_le [of "{Suc i}" "counted window G cs l i k"] by auto
    with IH show ?thesis unfolding L by (auto simp: laws(2))
  qed
qed

text \<open>
  C12 (bounds). The rate limits hold: whatever requests come, of whatever clusters and clients and in whatever order, a call
  of either limiter lets its request pass only if it is among the first \<open>limit\<close> calls that count under its key in its
  window, also when keys share counters of the sketch; so no more than \<open>limit\<close> of them pass. And a
  request whose estimate is within the limit does pass.
\<close>

theorem rate_limit_bound:
  assumes "rate_laws G window cnt" "i < length cs" "limiter_key (cs ! i) = Some k"
  shows "(fst (limiter_run G cs l ! i) = Ok False \<longrightarrow> int (card (counted window G cs l i k)) \<le> call_limit (cs ! i)) \<and>
    (fst (rate_observe G k 1 (rates_before G cs l i)) \<le> call_limit (cs ! i) \<longrightarrow> fst (limiter_run G cs l ! i) = Ok False)"
proof -
  obtain n l' where o: "rate_observe G k 1 (rates_before G cs l i) = (n, l')" by fastforce
  note run = limiter_run_nth [OF assms(2), of G l]
  have after: "snd (limiter_run G cs l ! i) = l'" using run assms(3) o by (simp add: limiter_call_observes(1))
  have verdict: "fst (limiter_run G cs l ! i) = Ok False \<longleftrightarrow> n \<le> call_limit (cs ! i)"
    using run limiter_call_observes(2) [OF assms(3), of G "rates_before G cs l i"] o by simp
  have "int (cnt l' k) \<le> n" using assms(1) o unfolding rate_laws_def by blast
  with counted_le [OF assms(1,2), of l k] have "int (card (counted window G cs l i k)) \<le> n" unfolding after by linarith
  with verdict o show ?thesis by auto
qed

lemma rate_limit_bound_witness:
  "let cs = replicate 3 (False, 2, new_ctx\<lparr>rx_cluster_identity := Some ''one''\<rparr>, (''/a'', [], []))
   in map (\<lambda>r. fst r = Ok False) (limiter_run demo cs []) = [True, True, False] \<and>
      int (card (counted (\<lambda>l. 0) demo cs [] 1 ''one'')) \<le> 2"
proof -
  let ?cs = "replicate 3 (False, 2, new_ctx\<lparr>rx_cluster_identity := Some ''one''\<rparr>, (''/a'', [], [] :: sent list)) ::
      demo_session limiter_call list"
  have run: "map (\<lambda>r. fst r = Ok False) (limiter_run demo ?cs []) = [True, True, False]"
    by (simp add: numeral_3_eq_3 limiter_call_observes limiter_call_observes(2) [where k = "''one''"] demo_def demo_count_def
          del: limiter_call.simps)
  have "fst (limiter_run demo ?cs [] ! 1) = Ok False"
    using arg_cong [OF run, of "\<lambda>v. v ! 1"] by simp
  with rate_limit_bound [OF demo_rate_laws, of 1 ?cs "''one''" "[]"]
  have "int (card (counted (\<lambda>l. 0) demo ?cs [] 1 ''one'')) \<le> 2" by simp
  with run show ?thesis by simp
qed

text \<open>
  Both limiters count in the same table under plain texts: a client whose Authorization header is the
  cluster's name uses up the cluster's limit twice as fast.
\<close>

lemma shared_counter:
  assumes "rate_laws G window cnt" "cm_limiter cl = Some \<lparr>lm_global = Some (Basic n), lm_client = Some (Basic m)\<rparr>"
    and "rx_cluster_identity (wd_ctx w) = Some name" "rx_client_credentials (wd_ctx w) = Some name"
    and "rate_filter G cl w = (Ok False, w')" "window (wd_rates w') = window (wd_rates w)"
  shows "cnt (wd_rates w') name = cnt (wd_rates w) name + 2"
proof -
  from assms obtain w1 where "limit_by G (Some name) n w = (Ok False, w1)" "client_limiter G m w1 = (Ok False, w')"
    by (auto simp: rate_filter_def filter_then_passes global_limiter_def)
  moreover from this(1) have "wd_ctx w1 = wd_ctx w" by (rule limit_by_passes)
  ultimately have w: "wd_rates w1 = snd (rate_observe G name 1 (wd_rates w))" "wd_rates w' = snd (rate_observe G name 1 (wd_rates w1))"
    using limit_by_observes(1) [of G name n w] limit_by_observes(1) [of G name m w1] assms(4) by (simp_all add: client_limiter_def)
  have laws: "window l \<le> window (snd (rate_observe G name 1 l)) \<and>
      (window (snd (rate_observe G name 1 l)) = window l \<longrightarrow> cnt (snd (rate_observe G name 1 l)) name = Suc (cnt l name))" for l
  proof -
    obtain n l' where o: "rate_observe G name 1 l = (n, l')" by fastforce
    with assms(1) have "window l \<le> window l'"
        "cnt l' = (if window l' = window l then cnt l else (\<lambda>j. 0))(name := Suc (if window l' = window l then cnt l name else 0))"
      unfolding rate_laws_def by blast+
    with o show ?thesis by simp
  qed
  from laws [of "wd_rates w"] laws [of "wd_rates w1"] assms(6) show ?thesis unfolding w by auto
qed

text \<open>
  C22 (termination, code bug). Retrying ends: of the connections of a request that all fail, the first
  failures are marked for a retry and no later one is. The count is one more than the configured
  maximum, as the context is compared before it is incremented and the comparison is strict.
\<close>

theorem retries_end:
  assumes "unwrap_or 1 (cm_retry cl) + 1 < usize_mod"
  shows "failures cl n new_ctx =
    replicate (min n (unwrap_or 1 (cm_retry cl) + 1)) True @ replicate (n - (unwrap_or 1 (cm_retry cl) + 1)) False"
proof -
  let ?m = "unwrap_or 1 (cm_retry cl)"
  have "failures cl n x = replicate (min n (?m + 1 - rx_proxy_retry x)) True @ replicate (n - (?m + 1 - rx_proxy_retry x)) False"
    if "rx_proxy_retry x \<le> ?m + 1" for x
    using that
  proof (induction n arbitrary: x)
    case (Suc n)
    show ?case
    proof (cases "?m < rx_proxy_retry x")
      case True
      then show ?thesis using Suc by (simp add: fail_to_connect_def)
    next
      case False
      let ?x = "x\<lparr>rx_proxy_retry := rx_proxy_retry x + 1\<rparr>"
      obtain d where d: "?m + 1 - rx_proxy_retry x = Suc d" "?m + 1 - rx_proxy_retry ?x = d"
        using False by (cases "?m + 1 - rx_proxy_retry x") auto
      have "fail_to_connect cl (False, x) = (True, ?x)"
        using False assms by (simp add: fail_to_connect_def)
      moreover have "failures cl n ?x = replicate (min n d) True @ replicate (n - d) False"
        using Suc.IH [of ?x] False unfolding d(2) by simp
      ultimately show ?thesis unfolding d(1) by simp
    qed
  qed simp
  from this [of new_ctx] show ?thesis by (simp add: new_ctx_def)
qed

lemma retries_end_witness:
  "failures (demo_cluster None None) 5 new_ctx = [True, True, False, False, False]"
proof -
  have "unwrap_or 1 (cm_retry (demo_cluster None None)) = 1" by (simp add: demo_cluster_def unwrap_or_def)
  then have "failures (demo_cluster None None) 5 new_ctx = True # True # replicate 3 False"
    using retries_end [of "demo_cluster None None" 5] by (simp add: usize_mod_def numeral_2_eq_2)
  then show ?thesis by (simp add: numeral_eq_Suc)
qed

text \<open>
  Every response that is passed on names the gateway as its server and says how the cache was
  used, whatever the configuration inserts or removes: these headers are set after it.
\<close>

theorem response_headers_set:
  assumes "message_laws M" "response_filter G M cache R x m = Ok m'"
  shows "mo_get M ''Server'' m' = Some ''Glaive Gateway'' \<and>
    mo_get M ''x-cache-status'' m' = Some (cache_status (hc_enabled cache) (hc_phase cache)) \<and>
    (\<forall>d. hc_lock_duration cache = Some d \<longrightarrow> mo_get M ''x-cache-lock-time-ms'' m' = Some (show_nat d))"
proof -
  from assms(2) obtain m1 m2 m3 where m: "mo_insert M ''Server'' ''Glaive Gateway'' m1 = Inr m2"
      "mo_insert M ''x-cache-status'' (cache_status (hc_enabled cache) (hc_phase cache)) m2 = Inr m3"
      "(case hc_lock_duration cache of Some d \<Rightarrow> of_sum (mo_insert M ''x-cache-lock-time-ms'' (show_nat d) m3) | None \<Rightarrow> Ok m3) = Ok m'"
    by (auto simp: response_filter_def)
  have names: "\<not> eq_ignore_ascii_case ''Server'' ''x-cache-status''" "\<not> eq_ignore_ascii_case ''Server'' ''x-cache-lock-time-ms''"
      "\<not> eq_ignore_ascii_case ''x-cache-status'' ''x-cache-lock-time-ms''"
    by (code_simp)+
  have hit: "mo_get M k b = Some v" and other: "\<not> eq_ignore_ascii_case j k \<Longrightarrow> mo_get M j b = mo_get M j a"
    if "mo_insert M k v a = Inr b" for a b j k v
    using assms(1) that by (auto simp: message_laws_def)
  have "mo_get M ''Server'' m3 = Some ''Glaive Gateway''"
      "mo_get M ''x-cache-status'' m3 = Some (cache_status (hc_enabled cache) (hc_phase cache))"
    using hit [OF m(1)] hit [OF m(2)] other [OF m(2) names(1)] by simp_all
  then show ?thesis
    using m(3) other names(2,3) hit by (cases "hc_lock_duration cache") auto
qed

definition list_message :: "(string \<times> bytes) list message_ops" where
  "list_message = \<lparr>mo_append = \<lambda>k v m. Inr (m @ [(k, v)]), mo_insert = \<lambda>k v m. Inr ((k, v) # m),
     mo_remove = \<lambda>k m. filter (\<lambda>e. \<not> eq_ignore_ascii_case (fst e) k) m,
     mo_get = \<lambda>k m. map_option snd (find (\<lambda>e. eq_ignore_ascii_case k (fst e)) m)\<rparr>"

lemma list_message_laws: "message_laws list_message"
  by (auto simp: message_laws_def list_message_def)

lemma response_headers_set_witness:
  "\<exists>m'. response_filter demo list_message \<lparr>hc_enabled = True, hc_phase = PhaseHit, hc_lock_duration = None\<rparr>
      (demo_router None None) new_ctx [(''Server'', ''nginx'')] = Ok m' \<and> mo_get list_message ''x-cache-status'' m' = Some ''hit''"
proof -
  let ?c = "\<lparr>hc_enabled = True, hc_phase = PhaseHit, hc_lock_duration = None\<rparr>"
  obtain m' where m': "response_filter demo list_message ?c (demo_router None None) new_ctx [(''Server'', ''nginx'')] = Ok m'"
    by (simp add: response_filter_def chosen_cluster_def demo_router_def demo_cluster_def new_ctx_def rewrite_headers_def
        of_sum_def list_message_def)
  from response_headers_set [OF list_message_laws m'] m' show ?thesis by auto
qed

end
