(* ===== verification/GatewayDiscovery.thy ===== *)
theory GatewayDiscovery
  imports GatewayConfig
begin

text \<open>
  Service discovery (glaive/src/discovery.rs): the connection to Consul, the load balancer built for a
  cluster with its updater, one discovery, and the updater's loop. The clients of Consul and the load
  balancer of pingora are records of operations.
\<close>

section \<open>The registry\<close>

text \<open>
  The fields of the client's configuration, of the registration and of the query that the code sets;
  what it leaves at its default is behind the record extension or absent.
\<close>

record consul_config =
  cfg_address :: string
  cfg_token :: "string option"

record register_service =
  sv_id :: "string option"
  sv_service :: string
  sv_tags :: "string list"
  sv_port :: "nat option"
  sv_namespace :: "string option"

record register_payload =
  rp_id :: "string option"
  rp_node :: string
  rp_address :: string
  rp_datacenter :: "string option"
  rp_service :: "register_service option"
  rp_skip_node_update :: "bool option"

record nodes_request =
  nr_service :: string
  nr_passing :: bool

record 'w consul_ops =
  con_register :: "register_payload \<Rightarrow> 'w \<Rightarrow> (string + unit) \<times> 'w"
  con_nodes :: "nodes_request \<Rightarrow> 'w \<Rightarrow> (string + (string \<times> nat) list) \<times> 'w"

text \<open>\<open>Discovery::new_consul_discovery\<close>: \<open>consul_new\<close> is the client's constructor.\<close>

definition new_consul_discovery :: "('x consul_config_scheme \<Rightarrow> 'c) \<Rightarrow> 'x consul_config_scheme \<Rightarrow> 'c" where
  "new_consul_discovery consul_new default_config =
     consul_new (default_config\<lparr>cfg_address := ''http://localhost:8500'',
       cfg_token := Some ''71c1eb41-5777-7698-96e5-426a325000ea''\<rparr>)"

record 'c consul_discovery =
  cd_consul :: 'c
  cd_service_name :: string
  cd_passing :: bool

definition consul_service_discovery_new :: "'c \<Rightarrow> string \<Rightarrow> bool \<Rightarrow> 'c consul_discovery" where
  "consul_service_discovery_new consul service_name passing =
     \<lparr>cd_consul = consul, cd_service_name = service_name, cd_passing = passing\<rparr>"

definition gateway_payload :: register_payload where
  "gateway_payload =
     \<lparr>rp_id = None, rp_node = ''server-1'', rp_address = ''172.25.207.30'', rp_datacenter = None,
      rp_service = Some \<lparr>sv_id = None, sv_service = ''Glaive-Gateway'', sv_tags = [], sv_port = Some 6188, sv_namespace = None\<rparr>,
      rp_skip_node_update = None\<rparr>"

section \<open>One discovery\<close>

record backend =
  bk_ip :: "nat list"
  bk_port :: nat
  bk_weight :: nat

definition discovered_backend :: "(string \<Rightarrow> nat list option) \<Rightarrow> string \<times> nat \<Rightarrow> backend outcome" where
  "discovered_backend parse_ip node =
     bind_outcome
       (if fst node = ''localhost'' then Ok [127, 0, 0, 1]
        else (case parse_ip (fst node) of
                None \<Rightarrow> Panic ''Failed to parse discovery address, to ipv4 address.''
              | Some ip \<Rightarrow> Ok ip))
       (\<lambda>ip. Ok \<lparr>bk_ip = ip, bk_port = snd node, bk_weight = 1\<rparr>)"

fun backends_of :: "(string \<Rightarrow> nat list option) \<Rightarrow> (string \<times> nat) list \<Rightarrow> backend list outcome" where
  "backends_of parse_ip [] = Ok []"
| "backends_of parse_ip (n # ns) =
     bind_outcome (discovered_backend parse_ip n) (\<lambda>b. bind_outcome (backends_of parse_ip ns) (\<lambda>bs. Ok (b # bs)))"

definition discover_backends ::
  "(string \<Rightarrow> nat list option) \<Rightarrow> 'w consul_ops consul_discovery \<Rightarrow> 'w \<Rightarrow> backend list outcome \<times> 'w" where
  "discover_backends parse_ip D w =
     (case con_register (cd_consul D) gateway_payload w of
        (Inl e, w1) \<Rightarrow> (Panic ''Failed to connect to consul'', w1)
      | (Inr _, w1) \<Rightarrow>
          (case con_nodes (cd_consul D) \<lparr>nr_service = cd_service_name D, nr_passing = cd_passing D\<rparr> w1 of
             (Inl e, w2) \<Rightarrow> (Panic e, w2)
           | (Inr nodes, w2) \<Rightarrow> (backends_of parse_ip nodes, w2)))"

text \<open>A set of backends, and no word on which of them are ready.\<close>

definition discover ::
  "(string \<Rightarrow> nat list option) \<Rightarrow> 'w consul_ops consul_discovery \<Rightarrow> 'w \<Rightarrow> (backend set \<times> (nat \<Rightarrow> bool option)) outcome \<times> 'w" where
  "discover parse_ip D w =
     (case discover_backends parse_ip D w of (r, w') \<Rightarrow> (bind_outcome r (\<lambda>bs. Ok (set bs, Map.empty)), w'))"

section \<open>The balancer and its updater\<close>

record ('d, 'bs, 'hc, 'lb) pingora_lb =
  pl_backends :: "'d \<Rightarrow> 'bs"
  pl_from_backends :: "'bs \<Rightarrow> 'lb"
  pl_tcp_health_check :: 'hc
  pl_set_health_check :: "'hc \<Rightarrow> 'lb \<Rightarrow> 'lb"
  pl_set_frequency :: "nat option \<Rightarrow> 'lb \<Rightarrow> 'lb"

text \<open>\<open>background_service\<close>: a name and the task, which is shared with whoever asks for it.\<close>

record 't background =
  bg_name :: string
  bg_task :: 't

record 'lb updater_service =
  up_lb :: 'lb

definition build_cluster_discovery ::
  "('c consul_discovery, 'bs, 'hc, 'lb) pingora_lb \<Rightarrow> 'c \<Rightarrow> string \<Rightarrow> bool \<Rightarrow> 'lb background \<times> 'lb updater_service background" where
  "build_cluster_discovery PL consul service_name passing =
     (let consul_discovery = consul_service_discovery_new consul service_name passing;
          consul_backends = pl_backends PL consul_discovery;
          consul_upstream = pl_from_backends PL consul_backends;
          hc = pl_tcp_health_check PL;
          consul_upstream = pl_set_health_check PL hc consul_upstream;
          consul_upstream = pl_set_frequency PL (Some 1) consul_upstream;
          background = \<lparr>bg_name = ''discovery cluster healthcheck'', bg_task = consul_upstream\<rparr>;
          updater = \<lparr>bg_name = ''discovery updater'', bg_task = \<lparr>up_lb = bg_task background\<rparr>\<rparr>
      in (background, updater))"

text \<open>
  The updater: every ten seconds the load balancer is asked to update, which pingora does by calling
  \<open>discover\<close>; it stops at the shutdown. \<open>Ok False\<close> means it is still waiting for its next event.
\<close>

datatype updater_event = UpdateDue | ShutdownChanged

definition update_backends :: "('w \<Rightarrow> unit outcome \<times> 'w) \<Rightarrow> 'w \<Rightarrow> unit outcome \<times> 'w" where
  "update_backends lb_update w =
     (case lb_update w of
        (Ok u, w') \<Rightarrow> (Ok (), w')
      | (Err e, w') \<Rightarrow> (Panic ''Failed to update backends'', w')
      | (Panic p, w') \<Rightarrow> (Panic p, w'))"

fun updater_start :: "('w \<Rightarrow> unit outcome \<times> 'w) \<Rightarrow> updater_event list \<Rightarrow> 'w \<Rightarrow> bool outcome \<times> 'w" where
  "updater_start lb_update [] w = (Ok False, w)"
| "updater_start lb_update (ShutdownChanged # es) w = (Ok True, w)"
| "updater_start lb_update (UpdateDue # es) w =
     (case update_backends lb_update w of
        (Ok u, w') \<Rightarrow> updater_start lb_update es w'
      | (Err e, w') \<Rightarrow> (Err e, w')
      | (Panic p, w') \<Rightarrow> (Panic p, w'))"

section \<open>The router's balancers\<close>

text \<open>What \<open>build_cluster\<close> takes from here: the clusters with discovery get the balancers built above.\<close>

definition discovery_balancers ::
  "('c consul_discovery, 'bs, 'hc, 'lb) pingora_lb \<Rightarrow> ('x consul_config_scheme \<Rightarrow> 'c) \<Rightarrow> 'x consul_config_scheme
   \<Rightarrow> (string list \<Rightarrow> 'lb background option) \<Rightarrow> ('c, 'lb background, 'lb updater_service background) balancers" where
  "discovery_balancers PL consul_new default_config from_addresses =
     \<lparr>lb_from_addresses = from_addresses, lb_new_discovery = new_consul_discovery consul_new default_config,
      lb_from_discovery = build_cluster_discovery PL\<rparr>"

section \<open>Lemmas\<close>

text \<open>
  A node registered under a host name is enough to end a discovery, because only \<open>localhost\<close> and IPv4
  addresses are understood; and one failed update is the last one, the updater panics.
\<close>

definition understood :: "(string \<Rightarrow> nat list option) \<Rightarrow> string \<Rightarrow> bool" where
  "understood parse_ip address \<longleftrightarrow> address = ''localhost'' \<or> parse_ip address \<noteq> None"

definition node_backend :: "(string \<Rightarrow> nat list option) \<Rightarrow> string \<times> nat \<Rightarrow> backend" where
  "node_backend parse_ip n =
     \<lparr>bk_ip = (if fst n = ''localhost'' then [127, 0, 0, 1] else the (parse_ip (fst n))), bk_port = snd n, bk_weight = 1\<rparr>"

lemma discovered_backend_cases:
  "discovered_backend parse_ip n =
     (if understood parse_ip (fst n) then Ok (node_backend parse_ip n)
      else Panic ''Failed to parse discovery address, to ipv4 address.'')"
  by (auto simp: discovered_backend_def understood_def node_backend_def split: option.splits)

lemma backends_of_cases:
  "backends_of parse_ip nodes =
     (if \<forall>n\<in>set nodes. understood parse_ip (fst n) then Ok (map (node_backend parse_ip) nodes)
      else Panic ''Failed to parse discovery address, to ipv4 address.'')"
  by (induction nodes) (auto simp: discovered_backend_cases)

lemma discover_nodes:
  assumes "con_register (cd_consul D) gateway_payload w = (Inr u, w1)"
    and "con_nodes (cd_consul D) \<lparr>nr_service = cd_service_name D, nr_passing = cd_passing D\<rparr> w1 = (Inr nodes, w2)"
  shows "discover parse_ip D w =
    (if \<forall>n\<in>set nodes. understood parse_ip (fst n) then Ok (node_backend parse_ip ` set nodes, Map.empty)
     else Panic ''Failed to parse discovery address, to ipv4 address.'', w2)"
  using assms by (simp add: discover_def discover_backends_def backends_of_cases)

lemma host_name_ends_discovery:
  assumes "con_register (cd_consul D) gateway_payload w = (Inr u, w1)"
    and "con_nodes (cd_consul D) \<lparr>nr_service = cd_service_name D, nr_passing = cd_passing D\<rparr> w1 = (Inr nodes, w2)"
    and "n \<in> set nodes" "fst n \<noteq> ''localhost''" "parse_ip (fst n) = None"
  shows "\<exists>p. discover parse_ip D w = (Panic p, w2)"
  using discover_nodes [OF assms(1,2)] assms(3-5) by (auto simp: understood_def)

lemma failed_update_is_last:
  assumes "update_backends lb_update w = (Panic p, w')"
  shows "updater_start lb_update (UpdateDue # es) w = (Panic p, w')"
  by (simp add: assms)

text \<open>
  A load balancer's update, as pingora documents it: the result of one discovery replaces the backends
  it holds, an error changes nothing.
\<close>

definition update_laws :: "('s \<Rightarrow> unit outcome \<times> 's) \<Rightarrow> ('s \<Rightarrow> backend set) \<Rightarrow> ('s \<Rightarrow> 'w) \<Rightarrow>
    ('w \<Rightarrow> (backend set \<times> (nat \<Rightarrow> bool option)) outcome \<times> 'w) \<Rightarrow> bool" where
  "update_laws lb_update held world disc \<longleftrightarrow>
     (\<forall>s. \<exists>r s'. lb_update s = (r, s') \<and> world s' = snd (disc (world s)) \<and>
        (case fst (disc (world s)) of
           Ok (bs, ready) \<Rightarrow> r = Ok () \<and> held s' = bs
         | Err e \<Rightarrow> r = Err e \<and> held s' = held s
         | Panic p \<Rightarrow> r = Panic p \<and> held s' = held s))"

text \<open>The answers to \<open>n\<close> discoveries in a row, and the good ones before the first failure.\<close>

fun answers :: "('w \<Rightarrow> 'a outcome \<times> 'w) \<Rightarrow> nat \<Rightarrow> 'w \<Rightarrow> 'a outcome list" where
  "answers disc 0 w = []"
| "answers disc (Suc n) w = fst (disc w) # answers disc n (snd (disc w))"

fun good :: "'a outcome list \<Rightarrow> 'a list" where
  "good (Ok x # rs) = x # good rs"
| "good rs = []"

text \<open>The updates before the shutdown.\<close>

definition updates :: "updater_event list \<Rightarrow> nat" where
  "updates es = length (takeWhile (\<lambda>e. e = UpdateDue) es)"

lemma updates_simps [simp]:
  "updates [] = 0" "updates (UpdateDue # es) = Suc (updates es)" "updates (ShutdownChanged # es) = 0"
  by (simp_all add: updates_def)

lemma updater_run:
  assumes "update_laws lb_update held world disc" "updater_start lb_update es s = (r, s')"
  shows "held s' = last (held s # map fst (good (answers disc (updates es) (world s)))) \<and>
    (if length (good (answers disc (updates es) (world s))) = updates es then r = Ok (ShutdownChanged \<in> set es) else is_panic r)"
  using assms(2)
proof (induction es arbitrary: s)
  case (Cons e es)
  obtain q t where upd: "lb_update s = (q, t)" "world t = snd (disc (world s))"
      "case fst (disc (world s)) of Ok (bs, ready) \<Rightarrow> q = Ok () \<and> held t = bs
       | Err e \<Rightarrow> q = Err e \<and> held t = held s | Panic p \<Rightarrow> q = Panic p \<and> held t = held s"
    using assms(1) unfolding update_laws_def by blast
  show ?case
  proof (cases e)
    case UpdateDue
    show ?thesis
    proof (cases "fst (disc (world s))")
      case (Ok a)
      with upd UpdateDue Cons.prems have "updater_start lb_update es t = (r, s')" "held t = fst a"
        by (auto simp: update_backends_def split: prod.splits)
      from Cons.IH [OF this(1)] this(2) UpdateDue Ok upd(2) show ?thesis by (cases "good (answers disc (updates es) (world t))") auto
    next
      case (Err x)
      with upd UpdateDue Cons.prems show ?thesis by (auto simp: update_backends_def)
    next
      case (Panic x)
      with upd UpdateDue Cons.prems show ?thesis by (auto simp: update_backends_def)
    qed
  qed (use Cons.prems in auto)
qed simp

text \<open>
  What a balancer should hold after each of \<open>n\<close> updates, told over the registry alone: the gateway is
  registered, the passing nodes of the service are asked for, and every node of the answer is a backend.
  A refused registration, a refused query or an address that is not understood ends the list.
\<close>

fun registry_sets ::
  "(string \<Rightarrow> nat list option) \<Rightarrow> 'w consul_ops \<Rightarrow> nodes_request \<Rightarrow> nat \<Rightarrow> 'w \<Rightarrow> backend set list" where
  "registry_sets parse_ip R q 0 w = []"
| "registry_sets parse_ip R q (Suc n) w =
     (case con_register R gateway_payload w of
        (Inl e, w1) \<Rightarrow> []
      | (Inr u, w1) \<Rightarrow>
          (case con_nodes R q w1 of
             (Inl e, w2) \<Rightarrow> []
           | (Inr nodes, w2) \<Rightarrow>
               if \<forall>a\<in>set nodes. understood parse_ip (fst a)
               then node_backend parse_ip ` set nodes # registry_sets parse_ip R q n w2
               else []))"

lemma good_discoveries:
  "map fst (good (answers (discover parse_ip D) n w))
     = registry_sets parse_ip (cd_consul D) \<lparr>nr_service = cd_service_name D, nr_passing = cd_passing D\<rparr> n w"
  by (induction n arbitrary: w)
     (auto simp: discover_def discover_backends_def backends_of_cases split: prod.splits sum.splits)

text \<open>Building a router, one updater is added for each cluster with discovery, on that cluster's balancer.\<close>

lemma build_cluster_discovery_shares:
  "build_cluster_discovery PL d name passing = (lb, u) \<Longrightarrow> up_lb (bg_task u) = bg_task lb"
  by (auto simp: build_cluster_discovery_def Let_def)

lemma build_from_updaters:
  assumes "build_from C (discovery_balancers PL consul_new dc fa) d idx cs b = Ok b'"
  shows "\<exists>lbs. length lbs = length cs \<and> bl_cluster_bg b' = bl_cluster_bg b @ lbs \<and>
    map (\<lambda>u. up_lb (bg_task u)) (bl_updater_bg b') = map (\<lambda>u. up_lb (bg_task u)) (bl_updater_bg b) @
      map (\<lambda>(c, lb). bg_task lb) (filter (\<lambda>(c, lb). cc_discovery c \<noteq> None) (zip cs lbs))"
  using assms
proof (induction cs arbitrary: idx b)
  case (Cons c cs)
  then obtain b1 where b1: "build_one C (discovery_balancers PL consul_new dc fa) d idx c b = Ok b1"
      "build_from C (discovery_balancers PL consul_new dc fa) d (Suc idx) cs b1 = Ok b'" by auto
  from b1(1) obtain lb upds where one: "cluster_service (discovery_balancers PL consul_new dc fa) d c (bl_updater_bg b) = Ok (lb, upds)"
      "bl_cluster_bg b1 = bl_cluster_bg b @ [lb]" "bl_updater_bg b1 = upds"
    by (auto simp: build_one_def split: if_splits option.splits)
  have "map (\<lambda>u. up_lb (bg_task u)) upds = map (\<lambda>u. up_lb (bg_task u)) (bl_updater_bg b) @
      (if cc_discovery c = None then [] else [bg_task lb])"
    using one(1) by (auto simp: cluster_service_def consul_build_cluster_def discovery_balancers_def
        dest!: build_cluster_discovery_shares split: option.splits discovery_type.splits prod.splits)
  moreover from Cons.IH [OF b1(2)] obtain lbs where "length lbs = length cs" "bl_cluster_bg b' = bl_cluster_bg b1 @ lbs"
      "map (\<lambda>u. up_lb (bg_task u)) (bl_updater_bg b') = map (\<lambda>u. up_lb (bg_task u)) (bl_updater_bg b1) @
        map (\<lambda>(c, lb). bg_task lb) (filter (\<lambda>(c, lb). cc_discovery c \<noteq> None) (zip cs lbs))" by blast
  ultimately show ?case using one(2,3) by (intro exI [of _ "lb # lbs"]) auto
qed simp

lemma router_updaters:
  assumes "build_cluster C (discovery_balancers PL consul_new dc fa) cs = Ok b"
  shows "length (bl_cluster_bg b) = length cs \<and> map (\<lambda>u. up_lb (bg_task u)) (bl_updater_bg b) =
    map (\<lambda>(c, lb). bg_task lb) (filter (\<lambda>(c, lb). cc_discovery c \<noteq> None) (zip cs (bl_cluster_bg b)))"
  using assms by (auto simp: build_cluster_def split: if_splits dest!: build_from_updaters)

section \<open>Properties\<close>

text \<open>A registry that plays back its answers, and a balancer over it, for the witness.\<close>

definition demo_registry :: "(string \<times> nat) list list consul_ops" where
  "demo_registry = \<lparr>con_register = \<lambda>p w. (Inr (), w), con_nodes = \<lambda>q w. (case w of [] \<Rightarrow> (Inl ''down'', []) | ns # w' \<Rightarrow> (Inr ns, w'))\<rparr>"

definition demo_update :: "('w \<Rightarrow> (backend set \<times> (nat \<Rightarrow> bool option)) outcome \<times> 'w) \<Rightarrow> backend set \<times> 'w \<Rightarrow> unit outcome \<times> (backend set \<times> 'w)" where
  "demo_update disc s =
     (case disc (snd s) of
        (Ok (bs, ready), w) \<Rightarrow> (Ok (), bs, w)
      | (Err e, w) \<Rightarrow> (Err e, fst s, w)
      | (Panic p, w) \<Rightarrow> (Panic p, fst s, w))"

lemma demo_update_laws: "update_laws (demo_update disc) fst snd disc"
  by (auto simp: update_laws_def demo_update_def split: prod.splits outcome.splits)

text \<open>
  C23 (functional, code bug). The updater's loop follows the registry: each update registers the gateway, asks for
  the nodes of the service and replaces the backends held by exactly those of the latest answer, one for
  every node with its port, \<open>localhost\<close> as 127.0.0.1 and any other node by its IPv4 address. A refused
  registration, a refused query or a node whose address is neither is a failure: the updater panics, the
  backends of the last good answer stay, and no later event is handled. Without a failure it stops at the
  shutdown, and only then. So one moment without Consul, or one node under a host name, ends the following for good.
\<close>

theorem updater_follows_registry:
  assumes "update_laws lb_update held world (discover parse_ip D)" "updater_start lb_update es s = (r, s')"
  shows "let seen = registry_sets parse_ip (cd_consul D)
           \<lparr>nr_service = cd_service_name D, nr_passing = cd_passing D\<rparr> (updates es) (world s) in
    held s' = last (held s # seen) \<and>
    (if length seen = updates es then r = Ok (ShutdownChanged \<in> set es)
     else is_panic r \<and> (\<forall>es'. updater_start lb_update (takeWhile (\<lambda>e. e = UpdateDue) es @ es') s = (r, s')))"
proof -
  have "updater_start lb_update (takeWhile (\<lambda>e. e = UpdateDue) es @ es') s = (r, s')" if "is_panic r" for es'
    using that assms(2)
  proof (induction es arbitrary: s)
    case (Cons e es)
    then show ?case by (cases e) (auto split: prod.splits outcome.splits)
  qed auto
  with updater_run [OF assms] show ?thesis by (simp add: Let_def flip: good_discoveries)
qed

lemma updater_follows_registry_witness:
  "\<exists>r s'. updater_start (demo_update (discover (\<lambda>a. None) \<lparr>cd_consul = demo_registry, cd_service_name = ''catalog'', cd_passing = True\<rparr>))
      [UpdateDue, UpdateDue] ({}, [[(''localhost'', 80)], [(''node-2'', 81)]]) = (r, s') \<and>
    is_panic r \<and> fst s' = {\<lparr>bk_ip = [127, 0, 0, 1], bk_port = 80, bk_weight = 1\<rparr>}"
proof -
  let ?D = "\<lparr>cd_consul = demo_registry, cd_service_name = ''catalog'', cd_passing = True\<rparr>"
  let ?s = "({}, [[(''localhost'', 80)], [(''node-2'', 81)]]) :: backend set \<times> (string \<times> nat) list list"
  obtain r s' where run: "updater_start (demo_update (discover (\<lambda>a. None) ?D)) [UpdateDue, UpdateDue] ?s = (r, s')" by (metis surj_pair)
  have "registry_sets (\<lambda>a. None) demo_registry q 2 (snd ?s) = [{\<lparr>bk_ip = [127, 0, 0, 1], bk_port = 80, bk_weight = 1\<rparr>}]" for q
    by (simp add: numeral_2_eq_2 understood_def node_backend_def demo_registry_def)
  with updater_follows_registry [OF demo_update_laws run] run show ?thesis by (auto simp: numeral_2_eq_2)
qed

end
