(* ===== verification/GatewayRedis.thy ===== *)
theory GatewayRedis
  imports GatewaySession SessionUtils
begin

text \<open>
  The rate limits kept in Redis (glaive/src/redis.rs): a fixed window, a sliding log and a semaphore. The
  server is a record of commands on a state \<open>'r\<close>, whose documented behaviour, the expiry of keys included, is
  \<open>redis_laws\<close>; a script runs its commands without interruption.
\<close>

section \<open>The commands\<close>

type_synonym 'a reply = "string + 'a"

record 'r redis =
  rd_set :: "string \<Rightarrow> string \<Rightarrow> 'r \<Rightarrow> unit reply \<times> 'r"
  rd_set_ex :: "string \<Rightarrow> string \<Rightarrow> nat \<Rightarrow> 'r \<Rightarrow> unit reply \<times> 'r"
  rd_get :: "string \<Rightarrow> 'r \<Rightarrow> string option reply \<times> 'r"
  rd_incr :: "string \<Rightarrow> int \<Rightarrow> 'r \<Rightarrow> int reply \<times> 'r"
  rd_expire :: "string \<Rightarrow> int \<Rightarrow> 'r \<Rightarrow> unit reply \<times> 'r"
  rd_zrevrangebyscore :: "string \<Rightarrow> string \<Rightarrow> int \<Rightarrow> 'r \<Rightarrow> unit reply \<times> 'r"
  rd_zadd :: "string \<Rightarrow> int \<Rightarrow> int \<Rightarrow> 'r \<Rightarrow> unit reply \<times> 'r"
  rd_zcard :: "string \<Rightarrow> 'r \<Rightarrow> nat reply \<times> 'r"

text \<open>\<open>self.client.command(...)?\<close>\<close>

definition and_then :: "'a reply \<times> 'r \<Rightarrow> ('a \<Rightarrow> 'r \<Rightarrow> 'b reply \<times> 'r) \<Rightarrow> 'b reply \<times> 'r" where
  "and_then x f = (case x of (Inl e, r) \<Rightarrow> (Inl e, r) | (Inr v, r) \<Rightarrow> f v r)"

definition set_with_expiration :: "'r redis \<Rightarrow> string \<Rightarrow> string \<Rightarrow> nat \<Rightarrow> 'r \<Rightarrow> unit reply \<times> 'r" where
  "set_with_expiration D key v ttl r = and_then (rd_set_ex D key v ttl r) (\<lambda>u r. (Inr (), r))"

definition get_cache :: "'r redis \<Rightarrow> string \<Rightarrow> 'r \<Rightarrow> string option reply \<times> 'r" where
  "get_cache D key r = and_then (rd_get D key r) (\<lambda>v r. (Inr v, r))"

definition fixed_window :: "'r redis \<Rightarrow> string \<Rightarrow> int \<Rightarrow> int \<Rightarrow> 'r \<Rightarrow> bool reply \<times> 'r" where
  "fixed_window D key limit period r =
     and_then (rd_incr D key 1 r) (\<lambda>n r.
       (if n = 1 then and_then (rd_expire D key period r) (\<lambda>u r. (Inr (n \<le> limit), r))
        else (Inr (n \<le> limit), r)))"

text \<open>
  The pipeline of the sliding log at the second \<open>now\<close>: all four commands run, and the first error, if
  any, is the result.
\<close>

definition sliding_window :: "'r redis \<Rightarrow> string \<Rightarrow> nat \<Rightarrow> int \<Rightarrow> int \<Rightarrow> 'r \<Rightarrow> bool reply \<times> 'r" where
  "sliding_window D key limit window now r =
     (let (a, r1) = rd_zrevrangebyscore D key ''-inf'' (now - window) r;
          (b, r2) = rd_zadd D key now now r1;
          (c, r3) = rd_zcard D key r2;
          (d, r4) = rd_expire D key window r3
      in case (a, b, c, d) of
           (Inr _, Inr _, Inr count, Inr _) \<Rightarrow> (Inr (count \<le> limit), r4)
         | (Inl e, _, _, _) \<Rightarrow> (Inl e, r4)
         | (_, Inl e, _, _) \<Rightarrow> (Inl e, r4)
         | (_, _, Inl e, _) \<Rightarrow> (Inl e, r4)
         | (_, _, _, Inl e) \<Rightarrow> (Inl e, r4))"

text \<open>The script of the semaphore, \<open>tonumber\<close> of the stored text, and its release.\<close>

definition semaphore :: "'r redis \<Rightarrow> string \<Rightarrow> int \<Rightarrow> 'r \<Rightarrow> bool reply \<times> 'r" where
  "semaphore D key max_concurrency r =
     and_then (rd_get D key r) (\<lambda>v r.
       (case parse_i64 (unwrap_or ''0'' v) of
          None \<Rightarrow> (Inl ''attempt to compare nil with number'', r)
        | Some current \<Rightarrow>
            if current < max_concurrency
            then and_then (rd_incr D key 1 r) (\<lambda>n r. (Inr True, r))
            else (Inr False, r)))"

definition release_semaphore :: "'r redis \<Rightarrow> string \<Rightarrow> 'r \<Rightarrow> unit reply \<times> 'r" where
  "release_semaphore D key r = and_then (rd_incr D key (- 1) r) (\<lambda>n r. (Inr (), r))"

section \<open>The server\<close>

text \<open>
  The keys of a server: a text (a counter is a decimal text) or the members of a log, and the second at which the
  key expires, if it does.
\<close>

datatype redis_value = RText string | RLog "int set"

type_synonym key_space = "string \<Rightarrow> (redis_value \<times> nat option) option"

definition text_at :: "key_space \<Rightarrow> string \<Rightarrow> string option" where
  "text_at m k = (case m k of Some (RText s, d) \<Rightarrow> Some s | _ \<Rightarrow> None)"

definition log_at :: "key_space \<Rightarrow> string \<Rightarrow> int set" where
  "log_at m k = (case m k of Some (RLog l, d) \<Rightarrow> l | _ \<Rightarrow> {})"

definition deadline_at :: "key_space \<Rightarrow> string \<Rightarrow> nat option" where
  "deadline_at m k = (case m k of Some (v, d) \<Rightarrow> d | None \<Rightarrow> None)"

definition no_log :: "key_space \<Rightarrow> string \<Rightarrow> bool" where
  "no_log m k \<longleftrightarrow> (case m k of Some (RLog l, d) \<Rightarrow> False | _ \<Rightarrow> True)"

definition no_text :: "key_space \<Rightarrow> string \<Rightarrow> bool" where
  "no_text m k \<longleftrightarrow> (case m k of Some (RText s, d) \<Rightarrow> False | _ \<Rightarrow> True)"

definition counter_at :: "key_space \<Rightarrow> string \<Rightarrow> int \<Rightarrow> bool" where
  "counter_at m k i \<longleftrightarrow> (case m k of None \<Rightarrow> i = 0 | Some (RText s, d) \<Rightarrow> s = show_int i | _ \<Rightarrow> False)"

definition expiring :: "string \<Rightarrow> nat \<Rightarrow> key_space \<Rightarrow> key_space" where
  "expiring k d m = (case m k of None \<Rightarrow> m | Some (v, d') \<Rightarrow> m(k \<mapsto> (v, Some d)))"

text \<open>
  A key by the second \<open>t\<close>: one that expires at \<open>d\<close> is there before \<open>d\<close> and gone after it; in the second \<open>d\<close> itself
  it may be either, as the server counts milliseconds.
\<close>

definition key_by :: "nat \<Rightarrow> (redis_value \<times> nat option) option \<Rightarrow> (redis_value \<times> nat option) option \<Rightarrow> bool" where
  "key_by t v v' \<longleftrightarrow>
     (case v of
        Some (x, Some d) \<Rightarrow> (t < d \<longrightarrow> v' = v) \<and> (d < t \<longrightarrow> v' = None) \<and> (v' = v \<or> v' = None)
      | _ \<Rightarrow> v' = v)"

definition max_expire :: int where
  "max_expire = 1000000000000000"

text \<open>
  A working server: \<open>keys r\<close> is what it holds and \<open>clock r\<close> its second, which is also the second the clients read.
  \<open>SET\<close> takes a deadline away, \<open>EXPIRE\<close> sets one, the other commands keep it. A member added again to a log is only
  given its new score; reading a range removes nothing.
\<close>

definition command_sets :: "('r \<Rightarrow> key_space) \<Rightarrow> ('r \<Rightarrow> nat) \<Rightarrow> 'r \<Rightarrow> 'a \<Rightarrow> key_space \<Rightarrow> 'a reply \<times> 'r \<Rightarrow> bool" where
  "command_sets keys clock r v m x \<longleftrightarrow> fst x = Inr v \<and> keys (snd x) = m \<and> clock (snd x) = clock r"

definition text_commands :: "'r redis \<Rightarrow> ('r \<Rightarrow> key_space) \<Rightarrow> ('r \<Rightarrow> nat) \<Rightarrow> bool" where
  "text_commands D keys clock \<longleftrightarrow>
     (\<forall>k r. no_log (keys r) k \<longrightarrow> command_sets keys clock r (text_at (keys r) k) (keys r) (rd_get D k r)) \<and>
     (\<forall>k v r. command_sets keys clock r () ((keys r)(k \<mapsto> (RText v, None))) (rd_set D k v r)) \<and>
     (\<forall>k i n r. counter_at (keys r) k i \<and> 0 \<le> i \<and> i < 2 ^ 63 \<and> 0 \<le> i + n \<and> i + n < 2 ^ 63 \<longrightarrow>
        command_sets keys clock r (i + n) ((keys r)(k \<mapsto> (RText (show_int (i + n)), deadline_at (keys r) k))) (rd_incr D k n r))"

definition log_commands :: "'r redis \<Rightarrow> ('r \<Rightarrow> key_space) \<Rightarrow> ('r \<Rightarrow> nat) \<Rightarrow> bool" where
  "log_commands D keys clock \<longleftrightarrow>
     (\<forall>k r. no_text (keys r) k \<longrightarrow>
        (\<forall>a b. command_sets keys clock r () (keys r) (rd_zrevrangebyscore D k a b r)) \<and>
        (\<forall>m s. command_sets keys clock r () ((keys r)(k \<mapsto> (RLog (insert m (log_at (keys r) k)), deadline_at (keys r) k)))
           (rd_zadd D k m s r)) \<and>
        command_sets keys clock r (card (log_at (keys r) k)) (keys r) (rd_zcard D k r))"

definition expire_command :: "'r redis \<Rightarrow> ('r \<Rightarrow> key_space) \<Rightarrow> ('r \<Rightarrow> nat) \<Rightarrow> bool" where
  "expire_command D keys clock \<longleftrightarrow>
     (\<forall>k p r. 0 < p \<and> p < max_expire \<longrightarrow>
        command_sets keys clock r () (expiring k (clock r + nat p) (keys r)) (rd_expire D k p r))"

text \<open>\<open>elapse t r\<close> is the server at the second \<open>t\<close>.\<close>

definition time_passes :: "(nat \<Rightarrow> 'r \<Rightarrow> 'r) \<Rightarrow> ('r \<Rightarrow> key_space) \<Rightarrow> ('r \<Rightarrow> nat) \<Rightarrow> bool" where
  "time_passes elapse keys clock \<longleftrightarrow>
     (\<forall>t r. clock r \<le> t \<longrightarrow> clock (elapse t r) = t \<and> (\<forall>k. key_by t (keys r k) (keys (elapse t r) k)))"

definition redis_laws :: "'r redis \<Rightarrow> (nat \<Rightarrow> 'r \<Rightarrow> 'r) \<Rightarrow> ('r \<Rightarrow> key_space) \<Rightarrow> ('r \<Rightarrow> nat) \<Rightarrow> bool" where
  "redis_laws D elapse keys clock \<longleftrightarrow>
     text_commands D keys clock \<and> log_commands D keys clock \<and> expire_command D keys clock \<and> time_passes elapse keys clock"

lemma command_setsE:
  assumes "command_sets keys clock r v m x"
  obtains r' where "x = (Inr v, r')" "keys r' = m" "clock r' = clock r"
  using assms that by (cases x) (simp add: command_sets_def)

lemma redis_texts:
  assumes "redis_laws D elapse keys clock"
  shows "no_log (keys r) k \<Longrightarrow> command_sets keys clock r (text_at (keys r) k) (keys r) (rd_get D k r)"
    and "command_sets keys clock r () ((keys r)(k \<mapsto> (RText v, None))) (rd_set D k v r)"
    and "counter_at (keys r) k i \<Longrightarrow> 0 \<le> i \<Longrightarrow> i < 2 ^ 63 \<Longrightarrow> 0 \<le> i + n \<Longrightarrow> i + n < 2 ^ 63 \<Longrightarrow>
      command_sets keys clock r (i + n) ((keys r)(k \<mapsto> (RText (show_int (i + n)), deadline_at (keys r) k))) (rd_incr D k n r)"
  using assms by (simp_all add: redis_laws_def text_commands_def)

lemma redis_logs:
  assumes "redis_laws D elapse keys clock" "no_text (keys r) k"
  shows "command_sets keys clock r () (keys r) (rd_zrevrangebyscore D k a b r)"
    and "command_sets keys clock r () ((keys r)(k \<mapsto> (RLog (insert m (log_at (keys r) k)), deadline_at (keys r) k))) (rd_zadd D k m s r)"
    and "command_sets keys clock r (card (log_at (keys r) k)) (keys r) (rd_zcard D k r)"
  using assms by (simp_all add: redis_laws_def log_commands_def)

lemma redis_expires:
  assumes "redis_laws D elapse keys clock" "0 < p" "p < max_expire"
  shows "command_sets keys clock r () (expiring k (clock r + nat p) (keys r)) (rd_expire D k p r)"
  using assms by (simp add: redis_laws_def expire_command_def)

lemma redis_elapses:
  assumes "redis_laws D elapse keys clock" "clock r \<le> t"
  shows "clock (elapse t r) = t" "key_by t (keys r k) (keys (elapse t r) k)"
  using assms by (simp_all add: redis_laws_def time_passes_def)

text \<open>A key that is before its deadline, or has none, is unchanged.\<close>

lemma key_kept:
  assumes "redis_laws D elapse keys clock" "clock r \<le> t" "\<And>v d. keys r k = Some (v, Some d) \<Longrightarrow> t < d"
  shows "keys (elapse t r) k = keys r k"
  using redis_elapses(2) [OF assms(1,2), of k] assms(3) by (auto simp: key_by_def split: option.splits prod.splits)

text \<open>Calls one after the other.\<close>

fun replies :: "('x \<Rightarrow> 'r \<Rightarrow> 'a reply \<times> 'r) \<Rightarrow> 'x list \<Rightarrow> 'r \<Rightarrow> 'a reply list" where
  "replies f [] r = []"
| "replies f (x # xs) r = (let (a, r') = f x r in a # replies f xs r')"

section \<open>The fixed window\<close>

text \<open>A counter at \<open>i\<close> calls in a window that ends at \<open>e\<close>.\<close>

definition window_at :: "key_space \<Rightarrow> string \<Rightarrow> int \<Rightarrow> nat \<Rightarrow> bool" where
  "window_at m k i e \<longleftrightarrow> 0 < i \<and> m k = Some (RText (show_int i), Some e)"

lemma fixed_window_opens:
  assumes "redis_laws D elapse keys clock" "0 < period" "period < max_expire" "keys r key = None"
  obtains r' where "fixed_window D key limit period r = (Inr (1 \<le> limit), r')" "clock r' = clock r"
    "window_at (keys r') key 1 (clock r + nat period)"
proof -
  have "counter_at (keys r) key 0" using assms(4) by (simp add: counter_at_def)
  then obtain r1 where r1: "rd_incr D key 1 r = (Inr (0 + 1), r1)"
      "keys r1 = (keys r)(key \<mapsto> (RText (show_int (0 + 1)), deadline_at (keys r) key))" "clock r1 = clock r"
    using redis_texts(3) [OF assms(1), of r key 0 1] by (auto elim: command_setsE)
  obtain r2 where r2: "rd_expire D key period r1 = (Inr (), r2)" "keys r2 = expiring key (clock r1 + nat period) (keys r1)"
      "clock r2 = clock r1"
    by (rule command_setsE [OF redis_expires [OF assms(1-3)]])
  show ?thesis
    by (rule that [of r2]) (use r1 r2 in \<open>simp_all add: fixed_window_def and_then_def window_at_def expiring_def\<close>)
qed

lemma fixed_window_goes_on:
  assumes "redis_laws D elapse keys clock" "window_at (keys r) key i e" "i + 1 < 2 ^ 63"
  obtains r' where "fixed_window D key limit period r = (Inr (i + 1 \<le> limit), r')" "clock r' = clock r" "window_at (keys r') key (i + 1) e"
proof -
  have c: "counter_at (keys r) key i" "0 < i" "deadline_at (keys r) key = Some e"
    using assms(2) by (simp_all add: window_at_def counter_at_def deadline_at_def)
  obtain r1 where r1: "rd_incr D key 1 r = (Inr (i + 1), r1)"
      "keys r1 = (keys r)(key \<mapsto> (RText (show_int (i + 1)), deadline_at (keys r) key))" "clock r1 = clock r"
    by (rule command_setsE [OF redis_texts(3) [OF assms(1) c(1), of 1]]) (use c(2) assms(3) in simp_all)
  show ?thesis by (rule that [of r1]) (use r1 c in \<open>simp_all add: fixed_window_def and_then_def window_at_def\<close>)
qed

text \<open>In the window that its first call opens, the fixed window admits exactly the first \<open>limit\<close> calls.\<close>

lemma fixed_window_goes_on_exact:
  assumes "redis_laws D elapse keys clock"
    and "window_at (keys r) key c e" "sorted (clock r # ts)" "\<forall>t\<in>set ts. t < e" "c + int (length ts) < 2 ^ 63" "i < length ts"
  shows "replies (\<lambda>t r. fixed_window D key limit period (elapse t r)) ts r ! i = Inr (c + int i + 1 \<le> limit)"
  using assms(2-)
proof (induction ts arbitrary: r c i)
  case (Cons t ts)
  have t: "clock r \<le> t" using Cons.prems(2) by simp
  have "keys (elapse t r) key = keys r key"
    by (rule key_kept [OF assms(1) t]) (use Cons.prems(1,3) in \<open>auto simp: window_at_def\<close>)
  then have "window_at (keys (elapse t r)) key c e" using Cons.prems(1) by (simp add: window_at_def)
  then obtain r' where r': "fixed_window D key limit period (elapse t r) = (Inr (c + 1 \<le> limit), r')"
      "clock r' = clock (elapse t r)" "window_at (keys r') key (c + 1) e"
    by (rule fixed_window_goes_on [OF assms(1)]) (use Cons.prems(4) in simp)
  show ?case
  proof (cases i)
    case (Suc j)
    then have "replies (\<lambda>t r. fixed_window D key limit period (elapse t r)) ts r' ! j = Inr (c + 1 + int j + 1 \<le> limit)"
      using Cons.prems redis_elapses(1) [OF assms(1) t] r'(2) by (intro Cons.IH r'(3)) simp_all
    then show ?thesis using r'(1) Suc by (simp add: algebra_simps)
  qed (use r'(1) in simp)
qed simp

lemma fixed_window_exact:
  assumes "redis_laws D elapse keys clock" "0 < period" "period < max_expire" "keys r key = None" "sorted (clock r # t # ts)"
    and "\<forall>u\<in>set ts. u < t + nat period" "int (length ts) + 1 < 2 ^ 63" "i \<le> length ts"
  shows "replies (\<lambda>t r. fixed_window D key limit period (elapse t r)) (t # ts) r ! i = Inr (int i + 1 \<le> limit)"
proof -
  have t: "clock r \<le> t" using assms(5) by simp
  have "keys (elapse t r) key = None" using key_kept [OF assms(1) t, of key] assms(4) by simp
  then obtain r' where r': "fixed_window D key limit period (elapse t r) = (Inr (1 \<le> limit), r')" "clock r' = clock (elapse t r)"
      "window_at (keys r') key 1 (clock (elapse t r) + nat period)"
    by (rule fixed_window_opens [OF assms(1-3)])
  show ?thesis
  proof (cases i)
    case (Suc j)
    then have "replies (\<lambda>t r. fixed_window D key limit period (elapse t r)) ts r' ! j = Inr (1 + int j + 1 \<le> limit)"
      using assms(5-8) redis_elapses(1) [OF assms(1) t] r'(2) by (intro fixed_window_goes_on_exact [OF assms(1) r'(3)]) simp_all
    then show ?thesis using r'(1) Suc by (simp add: algebra_simps)
  qed (use r'(1) in simp)
qed

section \<open>An in-memory server\<close>

text \<open>The commands on a key space and a clock, for the witnesses; a key is gone from the second of its deadline on.\<close>

definition on_key ::
  "((redis_value \<times> nat option) option \<Rightarrow> nat \<Rightarrow> 'a reply \<times> (redis_value \<times> nat option) option) \<Rightarrow> string
   \<Rightarrow> key_space \<times> nat \<Rightarrow> 'a reply \<times> key_space \<times> nat" where
  "on_key f k r = (case f (fst r k) (snd r) of (a, v) \<Rightarrow> (a, (fst r)(k := v), snd r))"

definition demo_redis :: "(key_space \<times> nat) redis" where
  "demo_redis =
     \<lparr>rd_set = (\<lambda>k s. on_key (\<lambda>v c. (Inr (), Some (RText s, None))) k),
      rd_set_ex = (\<lambda>k s ttl. on_key (\<lambda>v c. (Inr (), Some (RText s, Some (c + ttl)))) k),
      rd_get = on_key (\<lambda>v c. (case v of None \<Rightarrow> Inr None | Some (RText s, d) \<Rightarrow> Inr (Some s) | _ \<Rightarrow> Inl ''WRONGTYPE'', v)),
      rd_incr = (\<lambda>k n. on_key (\<lambda>v c.
        (case v of
           None \<Rightarrow> (Inr n, Some (RText (show_int n), None))
         | Some (RText s, d) \<Rightarrow>
             (case parse_i64 s of None \<Rightarrow> (Inl ''not an integer'', v) | Some i \<Rightarrow> (Inr (i + n), Some (RText (show_int (i + n)), d)))
         | _ \<Rightarrow> (Inl ''WRONGTYPE'', v))) k),
      rd_expire = (\<lambda>k p. on_key (\<lambda>v c. (Inr (), map_option (\<lambda>x. (fst x, Some (c + nat p))) v)) k),
      rd_zrevrangebyscore = (\<lambda>k a b. on_key (\<lambda>v c. (Inr (), v)) k),
      rd_zadd = (\<lambda>k m s. on_key (\<lambda>v c.
        (case v of
           None \<Rightarrow> (Inr (), Some (RLog {m}, None))
         | Some (RLog l, d) \<Rightarrow> (Inr (), Some (RLog (insert m l), d))
         | _ \<Rightarrow> (Inl ''WRONGTYPE'', v))) k),
      rd_zcard = on_key (\<lambda>v c. (case v of None \<Rightarrow> Inr 0 | Some (RLog l, d) \<Rightarrow> Inr (card l) | _ \<Rightarrow> Inl ''WRONGTYPE'', v))\<rparr>"

definition demo_elapse :: "nat \<Rightarrow> key_space \<times> nat \<Rightarrow> key_space \<times> nat" where
  "demo_elapse t r = (\<lambda>k. case fst r k of Some (v, Some d) \<Rightarrow> if d \<le> t then None else Some (v, Some d) | v \<Rightarrow> v, t)"

lemma parse_i64_show:
  assumes "n < 9223372036854775808"
  shows "parse_i64 (show_nat n) = Some (int n)"
proof -
  obtain c cs where s: "show_nat n = c # cs" by (cases "show_nat n") (auto simp: show_nat_def)
  then have "c \<noteq> CHR ''-''" "c \<noteq> CHR ''+''" using show_nat_digits [of c n] by (auto simp: between_def byte_def)
  moreover have "digits_value 0 (c # cs) = Some n" using digits_value_show [of 0 n "[]"] s by (simp add: show_nat_def)
  ultimately show ?thesis using assms s by (simp add: parse_i64_def del: digits_value.simps)
qed

lemma demo_redis_laws: "redis_laws demo_redis demo_elapse fst snd"
proof -
  have parse: "parse_i64 (show_int i) = Some i" if "0 \<le> i" "i < 2 ^ 63" for i
    using that parse_i64_show [of "nat i"] by (simp add: show_int_def)
  note defs = command_sets_def demo_redis_def on_key_def
  have "text_commands demo_redis fst snd"
    unfolding text_commands_def
    by (auto simp: defs no_log_def text_at_def counter_at_def deadline_at_def parse split: option.splits prod.splits redis_value.splits)
  moreover have "log_commands demo_redis fst snd"
    by (auto simp: log_commands_def defs no_text_def log_at_def deadline_at_def split: option.splits prod.splits redis_value.splits)
  moreover have "expire_command demo_redis fst snd"
    by (auto simp: expire_command_def defs expiring_def split: option.splits prod.splits)
  moreover have "time_passes demo_elapse fst snd"
    by (auto simp: time_passes_def demo_elapse_def key_by_def split: option.splits)
  ultimately show ?thesis by (simp add: redis_laws_def)
qed

section \<open>The sliding log\<close>

text \<open>A log of the seconds \<open>S\<close> that expires at \<open>e\<close>; an absent key is an empty one.\<close>

definition seconds_at :: "key_space \<Rightarrow> string \<Rightarrow> nat set \<Rightarrow> nat \<Rightarrow> bool" where
  "seconds_at m k S e \<longleftrightarrow> (case m k of None \<Rightarrow> S = {} | Some (RLog l, d) \<Rightarrow> l = int ` S \<and> d = Some e | _ \<Rightarrow> False)"

lemma seconds_atD:
  assumes "seconds_at m k S e"
  shows "no_text m k" "log_at m k = int ` S"
  using assms by (auto simp: seconds_at_def no_text_def log_at_def split: option.splits prod.splits redis_value.splits)

lemma sliding_window_step:
  assumes "redis_laws D elapse keys clock" "0 < window" "window < max_expire" "seconds_at (keys r) key S e"
  obtains r' where "sliding_window D key limit window (int now) r = (Inr (card (insert now S) \<le> limit), r')"
    "clock r' = clock r" "seconds_at (keys r') key (insert now S) (clock r + nat window)"
proof -
  note s = seconds_atD [OF assms(4)]
  obtain r1 where 1: "rd_zrevrangebyscore D key ''-inf'' (int now - window) r = (Inr (), r1)" "keys r1 = keys r" "clock r1 = clock r"
    by (rule command_setsE [OF redis_logs(1) [OF assms(1) s(1)]])
  obtain r2 where 2: "rd_zadd D key (int now) (int now) r1 = (Inr (), r2)" "clock r2 = clock r1"
      "keys r2 = (keys r1)(key \<mapsto> (RLog (int ` insert now S), deadline_at (keys r1) key))"
    using redis_logs(2) [OF assms(1), of r1 key "int now" "int now"] s 1(2) by (auto elim: command_setsE)
  have log2: "no_text (keys r2) key" "log_at (keys r2) key = int ` insert now S"
    using 2(3) by (simp_all add: no_text_def log_at_def)
  obtain r3 where 3: "rd_zcard D key r2 = (Inr (card (int ` insert now S)), r3)" "keys r3 = keys r2" "clock r3 = clock r2"
    using redis_logs(3) [OF assms(1) log2(1)] log2(2) by (auto elim: command_setsE)
  obtain r4 where 4: "rd_expire D key window r3 = (Inr (), r4)" "keys r4 = expiring key (clock r3 + nat window) (keys r3)"
      "clock r4 = clock r3"
    by (rule command_setsE [OF redis_expires [OF assms(1-3)]])
  have "card (int ` insert now S) = card (insert now S)" by (intro card_image inj_onI) simp
  then have "sliding_window D key limit window (int now) r = (Inr (card (insert now S) \<le> limit), r4)"
    using 1(1) 2(1) 3(1) 4(1) by (simp add: sliding_window_def del: image_insert)
  moreover have "clock r4 = clock r" "seconds_at (keys r4) key (insert now S) (clock r + nat window)"
    using 1 2 3 4 by (simp_all add: seconds_at_def expiring_def)
  ultimately show ?thesis by (rule that)
qed

text \<open>Calls that come before the log of the last one expires.\<close>

fun gaps_below :: "nat \<Rightarrow> nat list \<Rightarrow> bool" where
  "gaps_below w (s # t # ts) \<longleftrightarrow> s \<le> t \<and> t < s + w \<and> gaps_below w (t # ts)"
| "gaps_below w ts \<longleftrightarrow> True"

lemma sliding_window_runs:
  assumes "redis_laws D elapse keys clock" "0 < window" "window < max_expire"
    and "seconds_at (keys r) key S (clock r + nat window)" "gaps_below (nat window) (clock r # secs)" "i < length secs"
  shows "replies (\<lambda>now r. sliding_window D key limit window (int now) (elapse now r)) secs r ! i =
    Inr (card (S \<union> set (take (Suc i) secs)) \<le> limit)"
  using assms(4-)
proof (induction secs arbitrary: r i S)
  case (Cons t secs)
  have t: "clock r \<le> t" "t < clock r + nat window" using Cons.prems(2) by simp_all
  have "keys (elapse t r) key = keys r key"
    by (rule key_kept [OF assms(1) t(1)])
      (use Cons.prems(1) t(2) in \<open>auto simp: seconds_at_def split: redis_value.splits\<close>)
  then have "seconds_at (keys (elapse t r)) key S (clock r + nat window)" using Cons.prems(1) by (simp add: seconds_at_def)
  then obtain r' where r': "sliding_window D key limit window (int t) (elapse t r) = (Inr (card (insert t S) \<le> limit), r')"
      "clock r' = clock (elapse t r)" "seconds_at (keys r') key (insert t S) (clock (elapse t r) + nat window)"
    by (rule sliding_window_step [OF assms(1-3)])
  show ?case
  proof (cases i)
    case (Suc j)
    then have "replies (\<lambda>now r. sliding_window D key limit window (int now) (elapse now r)) secs r' ! j =
        Inr (card (insert t S \<union> set (take (Suc j) secs)) \<le> limit)"
      using Cons.prems(2,3) r'(2,3) redis_elapses(1) [OF assms(1) t(1)] by (intro Cons.IH) simp_all
    then show ?thesis using Suc r'(1) by simp
  qed (use r'(1) in simp)
qed simp

section \<open>Properties\<close>

text \<open>
  C30 (safety, code bug). The sliding log neither slides nor counts requests. On a key that is not there before, for calls that
  each come before the log of the call before them expires, a call is admitted exactly when the distinct seconds of all calls so
  far are at most the limit, however long ago they are: the command meant to cut off those before the window only reads them. So
  any number of calls within one second count as one, and once
  its calls have fallen into \<open>limit\<close> different seconds, however far apart, a client that goes on calling is not
  admitted in any further second.
\<close>

theorem sliding_window_counts_seconds:
  assumes "redis_laws D elapse keys clock" "0 < window" "window < max_expire"
    and "keys r key = None" "clock r \<le> t" "gaps_below (nat window) (t # secs)" "i \<le> length secs"
  shows "replies (\<lambda>now r. sliding_window D key limit window (int now) (elapse now r)) (t # secs) r ! i =
    Inr (card (set (take (Suc i) (t # secs))) \<le> limit)"
proof -
  have "keys (elapse t r) key = None" using key_kept [OF assms(1,5), of key] assms(4) by simp
  then have "seconds_at (keys (elapse t r)) key {} t" by (simp add: seconds_at_def)
  then obtain r' where r': "sliding_window D key limit window (int t) (elapse t r) = (Inr (card {t} \<le> limit), r')"
      "clock r' = clock (elapse t r)" "seconds_at (keys r') key {t} (clock (elapse t r) + nat window)"
    by (rule sliding_window_step [OF assms(1-3)])
  show ?thesis
  proof (cases i)
    case (Suc j)
    then have "replies (\<lambda>now r. sliding_window D key limit window (int now) (elapse now r)) secs r' ! j =
        Inr (card ({t} \<union> set (take (Suc j) secs)) \<le> limit)"
      using assms(6,7) r'(2,3) redis_elapses(1) [OF assms(1,5)] by (intro sliding_window_runs [OF assms(1-3)]) simp_all
    then show ?thesis using Suc r'(1) by simp
  qed (use r'(1) in simp)
qed

lemma sliding_window_counts_seconds_witness:
  "replies (\<lambda>now r. sliding_window demo_redis ''k'' 1 60 (int now) (demo_elapse now r)) [100, 100, 100] (Map.empty, 90) ! 2 = Inr True \<and>
   replies (\<lambda>now r. sliding_window demo_redis ''k'' 2 60 (int now) (demo_elapse now r)) [100, 130, 170] (Map.empty, 90) ! 2 = Inr False"
  using sliding_window_counts_seconds [OF demo_redis_laws, of 60 "(Map.empty, 90)" "''k''" 100 "[100, 100]" 2 1]
    sliding_window_counts_seconds [OF demo_redis_laws, of 60 "(Map.empty, 90)" "''k''" 100 "[130, 170]" 2 2]
  by (simp add: max_expire_def numeral_2_eq_2)

end
