(* ===== verification/GatewayBuckets.thy ===== *)
theory GatewayBuckets
  imports GatewayRedis
begin

text \<open>
  The token bucket and the leaky bucket of glaive/src/redis.rs: two Lua scripts that keep decimal texts in
  Redis. The numbers of Lua are a parameter, exact on integers as far as \<open>tostring\<close> prints all
  digits. Both scripts implement the same bucket of credit, an instance of the locale \<open>credit_bucket\<close>.
\<close>

section \<open>Lua\<close>

text \<open>
  What the scripts use of the interpreter: \<open>lua_lit\<close> is a number written in a script, \<open>lua_whole\<close> the integer
  a command reads from a number given as its argument, if it is one.
\<close>

record 'n lua =
  lua_lit :: "int \<Rightarrow> 'n"
  lua_tonumber :: "string \<Rightarrow> 'n option"
  lua_tostring :: "'n \<Rightarrow> string"
  lua_add :: "'n \<Rightarrow> 'n \<Rightarrow> 'n"
  lua_sub :: "'n \<Rightarrow> 'n \<Rightarrow> 'n"
  lua_mul :: "'n \<Rightarrow> 'n \<Rightarrow> 'n"
  lua_min :: "'n \<Rightarrow> 'n \<Rightarrow> 'n"
  lua_max :: "'n \<Rightarrow> 'n \<Rightarrow> 'n"
  lua_less :: "'n \<Rightarrow> 'n \<Rightarrow> bool"
  lua_le :: "'n \<Rightarrow> 'n \<Rightarrow> bool"
  lua_whole :: "'n \<Rightarrow> int option"

text \<open>\<open>tostring\<close> of a value that may be \<open>nil\<close>, and an operation that raises an error on \<open>nil\<close>.\<close>

definition text_of :: "'n lua \<Rightarrow> 'n option \<Rightarrow> string" where
  "text_of L v = (case v of None \<Rightarrow> ''nil'' | Some n \<Rightarrow> lua_tostring L n)"

definition number :: "'n option \<Rightarrow> ('n \<Rightarrow> 'r \<Rightarrow> 'a reply \<times> 'r) \<Rightarrow> 'r \<Rightarrow> 'a reply \<times> 'r" where
  "number v f r = (case v of None \<Rightarrow> (Inl ''attempt to use a nil value as a number'', r) | Some n \<Rightarrow> f n r)"

definition expire_in :: "'n lua \<Rightarrow> 'r redis \<Rightarrow> string \<Rightarrow> 'n option \<Rightarrow> 'r \<Rightarrow> unit reply \<times> 'r" where
  "expire_in L D key v r =
     number v (\<lambda>n r. (case lua_whole L n of
       None \<Rightarrow> (Inl ''value is not an integer or out of range'', r)
     | Some s \<Rightarrow> rd_expire D key s r)) r"

text \<open>\<open>RedisClient::new\<close>: the address is a URL, opened and connected by the client library.\<close>

definition redis_client_new :: "(string \<Rightarrow> string + 'c) \<Rightarrow> ('c \<Rightarrow> string + 'conn) \<Rightarrow> string \<Rightarrow> string \<Rightarrow> string + 'conn" where
  "redis_client_new open_url connect host port =
     (case open_url (''redis://'' @ host @ '':'' @ port) of Inl e \<Rightarrow> Inl e | Inr client \<Rightarrow> connect client)"

section \<open>The scripts\<close>

definition token_script :: "'n lua \<Rightarrow> 'r redis \<Rightarrow> string \<Rightarrow> string \<Rightarrow> string \<Rightarrow> string \<Rightarrow> string \<Rightarrow> 'r \<Rightarrow> int reply \<times> 'r" where
  "token_script L D key arg1 arg2 arg3 arg4 r =
     (let capacity = lua_tonumber L arg1; refill_rate = lua_tonumber L arg2;
          period_seconds = lua_tonumber L arg3; now = lua_tonumber L arg4
      in and_then (rd_get D (key @ '':last_refill'') r) (\<lambda>v r.
         let last_refill = lua_tonumber L (unwrap_or ''0'' v)
         in and_then (rd_get D key r) (\<lambda>v r.
         let tokens = lua_tonumber L (unwrap_or (text_of L capacity) v)
         in number now (\<lambda>now. number last_refill (\<lambda>last_refill.
         let elapsed = lua_sub L now last_refill
         in number refill_rate (\<lambda>refill_rate. number tokens (\<lambda>tokens. number capacity (\<lambda>capacity r.
         let refill = lua_min L capacity (lua_add L tokens (lua_mul L elapsed refill_rate))
         in if lua_le L (lua_lit L 1) refill
            then and_then (rd_set D key (lua_tostring L (lua_sub L refill (lua_lit L 1))) r) (\<lambda>u r.
                 and_then (rd_set D (key @ '':last_refill'') (lua_tostring L now) r) (\<lambda>u r.
                 and_then (expire_in L D key period_seconds r) (\<lambda>u r.
                 and_then (expire_in L D (key @ '':last_refill'') period_seconds r) (\<lambda>u r.
                 (Inr 1, r)))))
            else (Inr 0, r)))))) r)))"

definition token_bucket :: "'n lua \<Rightarrow> ('f \<Rightarrow> string) \<Rightarrow> 'r redis \<Rightarrow> string \<Rightarrow> int \<Rightarrow> 'f \<Rightarrow> nat \<Rightarrow> nat \<Rightarrow> 'r \<Rightarrow> bool reply \<times> 'r" where
  "token_bucket L show_float D key capacity refill_rate period_seconds now r =
     and_then (token_script L D key (show_int capacity) (show_float refill_rate) (show_nat period_seconds) (show_nat now) r)
       (\<lambda>result r. (Inr (result = 1), r))"

definition leaky_script :: "'n lua \<Rightarrow> 'r redis \<Rightarrow> string \<Rightarrow> string \<Rightarrow> string \<Rightarrow> string \<Rightarrow> 'r \<Rightarrow> int reply \<times> 'r" where
  "leaky_script L D key arg1 arg2 arg3 r =
     (let capacity = lua_tonumber L arg1; leak_rate = lua_tonumber L arg2; now = lua_tonumber L arg3
      in and_then (rd_get D (key @ '':last_check'') r) (\<lambda>v r.
         let last_check = lua_tonumber L (unwrap_or (text_of L now) v)
         in and_then (rd_get D key r) (\<lambda>v r.
         let level = lua_tonumber L (unwrap_or ''0'' v)
         in number now (\<lambda>now. number last_check (\<lambda>last_check.
         let elapsed = lua_sub L now last_check
         in number leak_rate (\<lambda>leak_rate. number level (\<lambda>level.
         let leaked = lua_max L (lua_lit L 0) (lua_sub L level (lua_mul L elapsed leak_rate))
         in number capacity (\<lambda>capacity r.
            if lua_less L leaked capacity
            then and_then (rd_set D key (lua_tostring L (lua_add L leaked (lua_lit L 1))) r) (\<lambda>u r.
                 and_then (rd_set D (key @ '':last_check'') (lua_tostring L now) r) (\<lambda>u r.
                 (Inr 1, r)))
            else and_then (rd_set D key (lua_tostring L capacity) r) (\<lambda>u r.
                 and_then (rd_set D (key @ '':last_check'') (lua_tostring L now) r) (\<lambda>u r.
                 (Inr 0, r)))))))) r)))"

definition leaky_bucket :: "'n lua \<Rightarrow> ('f \<Rightarrow> string) \<Rightarrow> 'r redis \<Rightarrow> string \<Rightarrow> int \<Rightarrow> 'f \<Rightarrow> nat \<Rightarrow> 'r \<Rightarrow> bool reply \<times> 'r" where
  "leaky_bucket L show_float D key capacity leak_rate now r =
     and_then (leaky_script L D key (show_int capacity) (show_float leak_rate) (show_nat now) r)
       (\<lambda>result r. (Inr (result = 1), r))"

section \<open>A bucket of credit\<close>

text \<open>
  The reference: \<open>c\<close> units of credit at the second \<open>t\<close>, \<open>rate\<close> more each second up to \<open>capacity\<close>; a call is
  admitted when there is a unit, and takes it.
\<close>

fun bucket_run :: "int \<Rightarrow> int \<Rightarrow> nat \<Rightarrow> int \<Rightarrow> nat list \<Rightarrow> bool list" where
  "bucket_run capacity rate t c [] = []"
| "bucket_run capacity rate t c (t' # ts) =
     (let c' = min capacity (c + rate * int (t' - t))
      in (1 \<le> c') # bucket_run capacity rate t' (if 1 \<le> c' then c' - 1 else c') ts)"

definition admitted :: "bool list \<Rightarrow> int" where
  "admitted as = int (length (filter (\<lambda>a. a) as))"

lemma admitted_simps [simp]: "admitted [] = 0" "admitted (a # as) = (if a then 1 else 0) + admitted as"
  by (simp_all add: admitted_def)

lemma admitted_bound:
  assumes "0 \<le> rate" "0 \<le> c" "0 \<le> capacity" "sorted (t # ts)"
  shows "admitted (bucket_run capacity rate t c ts) \<le> c + rate * int (last (t # ts) - t)"
  using assms(2,4)
proof (induction ts arbitrary: t c)
  case (Cons t' ts)
  have total: "R \<le> k + Y" if "A \<le> d + B" "X + B = Y" "R = e + A" "m \<le> k + X" "e + d = m" for A B X Y R d e k m :: int
    using that by linarith
  let ?c = "min capacity (c + rate * int (t' - t))"
  let ?d = "if 1 \<le> ?c then ?c - 1 else ?c"
  have "0 \<le> ?c" using Cons.prems(1) assms(1,3) by simp
  then have "admitted (bucket_run capacity rate t' ?d ts) \<le> ?d + rate * int (last (t' # ts) - t')"
    using Cons by (intro Cons.IH) simp_all
  moreover have "rate * int (t' - t) + rate * int (last (t' # ts) - t') = rate * int (last (t # t' # ts) - t)"
  proof -
    have "t' \<le> last (t' # ts)" using Cons.prems(2) by (cases ts rule: rev_cases) auto
    moreover have "t \<le> t'" using Cons.prems(2) by simp
    ultimately show ?thesis by (simp flip: distrib_left add: of_nat_diff)
  qed
  moreover have "admitted (bucket_run capacity rate t c (t' # ts)) = (if 1 \<le> ?c then 1 else 0) + admitted (bucket_run capacity rate t' ?d ts)"
    unfolding bucket_run.simps Let_def by (simp only: admitted_simps)
  moreover have "?c \<le> c + rate * int (t' - t)" by (rule min.cobounded2)
  moreover have "(if 1 \<le> ?c then 1 else 0) + ?d = ?c" by simp
  ultimately show ?case by (rule total)
qed simp

lemma length_bucket_run [simp]: "length (bucket_run capacity rate t c ts) = length ts"
  by (induction ts arbitrary: t c) (simp_all add: Let_def)

lemma bucket_run_append:
  assumes "0 \<le> c" "c \<le> capacity" "0 \<le> rate"
  shows "\<exists>c'. 0 \<le> c' \<and> c' \<le> capacity \<and>
    bucket_run capacity rate t c (xs @ ys) = bucket_run capacity rate t c xs @ bucket_run capacity rate (last (t # xs)) c' ys"
  using assms(1,2)
proof (induction xs arbitrary: t c)
  case (Cons t' xs)
  let ?c = "min capacity (c + rate * int (t' - t))"
  have taken: "0 \<le> (if 1 \<le> m then m - 1 else m)" "(if 1 \<le> m then m - 1 else m) \<le> capacity" if "0 \<le> m" "m \<le> capacity" for m
    using that by simp_all
  have "0 \<le> ?c" "?c \<le> capacity" using Cons.prems assms(3) by simp_all
  note taken = taken [OF this]
  from Cons.IH [OF taken, of t'] show ?case by (simp add: Let_def)
qed auto

text \<open>In every window of calls, whatever came before.\<close>

lemma window_bound:
  assumes "0 \<le> c" "c \<le> capacity" "0 \<le> rate" "sorted ys" "ys \<noteq> []"
  shows "admitted (take (length ys) (drop (length xs) (bucket_run capacity rate t c (xs @ ys @ zs)))) \<le>
    capacity + rate * int (last ys - hd ys)"
proof -
  obtain c1 where 1: "0 \<le> c1" "c1 \<le> capacity"
      "bucket_run capacity rate t c (xs @ ys @ zs) = bucket_run capacity rate t c xs @ bucket_run capacity rate (last (t # xs)) c1 (ys @ zs)"
    using bucket_run_append [OF assms(1-3)] by blast
  obtain c2 where 2: "bucket_run capacity rate (last (t # xs)) c1 (ys @ zs) =
      bucket_run capacity rate (last (t # xs)) c1 ys @ bucket_run capacity rate (last (last (t # xs) # ys)) c2 zs"
    using bucket_run_append [OF 1(1,2) assms(3)] by blast
  obtain y ys' where ys: "ys = y # ys'" using assms(5) by (cases ys) auto
  let ?c = "min capacity (c1 + rate * int (y - last (t # xs)))"
  have "bucket_run capacity rate (last (t # xs)) c1 ys = bucket_run capacity rate y ?c ys"
    unfolding ys bucket_run.simps Let_def by simp
  moreover have "admitted (bucket_run capacity rate y ?c ys) \<le> ?c + rate * int (last (y # ys) - y)"
    using assms(3,4) 1(1,2) ys by (intro admitted_bound) simp_all
  moreover have "?c \<le> capacity" by simp
  moreover have "last (y # ys) = last ys" "hd ys = y" using ys by simp_all
  moreover have "take (length ys) (drop (length xs) (bucket_run capacity rate t c (xs @ ys @ zs))) = bucket_run capacity rate (last (t # xs)) c1 ys"
    unfolding 1(3) 2 by simp
  ultimately show ?thesis by (simp only:)
qed

text \<open>A client that waits long enough for a unit between two calls is never turned away.\<close>

lemma paced_admitted:
  assumes "1 \<le> rate" "1 \<le> capacity" "0 \<le> c" "sorted_wrt (<) (t # ts)"
  shows "bucket_run capacity rate t c ts = replicate (length ts) True"
  using assms(3,4)
proof (induction ts arbitrary: t c)
  case (Cons t' ts)
  let ?c = "min capacity (c + rate * int (t' - t))"
  have "1 * 1 \<le> rate * int (t' - t)" using assms(1) Cons.prems(2) by (intro mult_mono) auto
  then have "1 \<le> c + rate * int (t' - t)" using Cons.prems(1) by linarith
  then have "1 \<le> ?c" using assms(2) by (simp only: min.bounded_iff)
  moreover from this have "bucket_run capacity rate t' (?c - 1) ts = replicate (length ts) True"
    using Cons by (intro Cons.IH) simp_all
  ultimately show ?case by (simp add: Let_def)
qed simp

locale credit_bucket =
  fixes call :: "nat \<Rightarrow> 'r \<Rightarrow> bool reply \<times> 'r"
    and capacity rate :: int and horizon :: nat
    and credit :: "nat \<Rightarrow> int \<Rightarrow> 'r \<Rightarrow> bool"
    and elapse :: "nat \<Rightarrow> 'r \<Rightarrow> 'r"
  assumes range: "credit t c r \<Longrightarrow> 0 \<le> c \<and> 0 \<le> capacity \<and> 0 \<le> rate"
    and waits: "credit t c r \<Longrightarrow> t \<le> t' \<Longrightarrow> t' \<le> horizon \<Longrightarrow> 
      credit t' (min capacity (c + rate * int (t' - t))) (elapse t' r)"
    and takes: "credit t c r \<Longrightarrow> \<exists>r'. call t r = (Inr (1 \<le> c), r') \<and> credit t (if 1 \<le> c then c - 1 else c) r'"
begin

lemma replies_reference:
  assumes "credit t c r" "sorted (t # ts)" "\<forall>t\<in>set ts. t \<le> horizon"
  shows "replies (\<lambda>t r. call t (elapse t r)) ts r = map Inr (bucket_run capacity rate t c ts)"
  using assms
proof (induction ts arbitrary: t c r)
  case (Cons t' ts)
  let ?c = "min capacity (c + rate * int (t' - t))"
  have "credit t' ?c (elapse t' r)" using Cons.prems by (intro waits) simp_all
  from takes [OF this] obtain r' where
    r': "call t' (elapse t' r) = (Inr (1 \<le> ?c), r')" "credit t' (if 1 \<le> ?c then ?c - 1 else ?c) r'" by blast
  from Cons.IH [OF r'(2)] Cons.prems(2,3) r'(1) show ?case by (simp add: Let_def)
qed simp

end

section \<open>Lua and Redis at work\<close>

text \<open>
  Lua on integers (IEEE doubles printed with \<open>%.14g\<close>): exact as long as the values and results are below
  10^14, printed without an exponent; \<open>emb\<close> is the number of an integer.
\<close>

definition small :: "int \<Rightarrow> bool" where
  "small i \<longleftrightarrow> \<bar>i\<bar> < 100000000000000"

definition lua_laws :: "'n lua \<Rightarrow> (int \<Rightarrow> 'n) \<Rightarrow> bool" where
  "lua_laws L emb \<longleftrightarrow>
     (\<forall>i. 0 \<le> i \<and> small i \<longrightarrow>
        lua_tonumber L (show_int i) = Some (emb i) \<and> lua_tostring L (emb i) = show_int i \<and> lua_whole L (emb i) = Some i) \<and>
     lua_lit L 0 = emb 0 \<and> lua_lit L 1 = emb 1 \<and>
     (\<forall>i j. small i \<and> small j \<longrightarrow>
        lua_min L (emb i) (emb j) = emb (min i j) \<and> lua_max L (emb i) (emb j) = emb (max i j) \<and>
        lua_less L (emb i) (emb j) = (i < j) \<and> lua_le L (emb i) (emb j) = (i \<le> j) \<and>
        (small (i + j) \<longrightarrow> lua_add L (emb i) (emb j) = emb (i + j)) \<and>
        (small (i - j) \<longrightarrow> lua_sub L (emb i) (emb j) = emb (i - j)) \<and>
        (0 \<le> i \<and> 0 \<le> j \<and> small (i * j) \<longrightarrow> lua_mul L (emb i) (emb j) = emb (i * j)))"

lemma lua_text:
  assumes "lua_laws L emb" "0 \<le> i" "small i"
  shows "lua_tonumber L (show_int i) = Some (emb i)" "lua_tostring L (emb i) = show_int i" "lua_whole L (emb i) = Some i"
  using assms unfolding lua_laws_def by blast+

lemma lua_literals:
  assumes "lua_laws L emb"
  shows "lua_lit L 0 = emb 0" "lua_lit L 1 = emb 1"
  using assms unfolding lua_laws_def by blast+

lemma lua_order:
  assumes "lua_laws L emb" "small i" "small j"
  shows "lua_min L (emb i) (emb j) = emb (min i j)" "lua_max L (emb i) (emb j) = emb (max i j)"
    "lua_less L (emb i) (emb j) = (i < j)" "lua_le L (emb i) (emb j) = (i \<le> j)"
  using assms unfolding lua_laws_def by blast+

lemma lua_arith:
  assumes "lua_laws L emb" "small i" "small j"
  shows "small (i + j) \<Longrightarrow> lua_add L (emb i) (emb j) = emb (i + j)"
    "small (i - j) \<Longrightarrow> lua_sub L (emb i) (emb j) = emb (i - j)"
    "0 \<le> i \<Longrightarrow> 0 \<le> j \<Longrightarrow> small (i * j) \<Longrightarrow> lua_mul L (emb i) (emb j) = emb (i * j)"
  using assms unfolding lua_laws_def by blast+

lemma show_int_nat: "show_int (int n) = show_nat n"
  by (simp add: show_int_def)

text \<open>The sizes under which all numbers of a script stay exact.\<close>

definition exact :: "int \<Rightarrow> int \<Rightarrow> nat \<Rightarrow> bool" where
  "exact capacity rate horizon \<longleftrightarrow>
     0 \<le> capacity \<and> 0 \<le> rate \<and> small rate \<and> small (int horizon) \<and> small (capacity + rate * int horizon + 1)"

lemma exactD:
  assumes "exact capacity rate horizon" "0 \<le> x" "x \<le> capacity" "past \<le> t" "t \<le> horizon"
  defines "g \<equiv> (int t - int past) * rate"
  shows "0 \<le> g" "small g" "small (x + g)" "small (x - g)" "small x" "small (x + 1)" "small capacity" "small rate"
    "small (int t)" "small (int past)" "small (int t - int past)"
proof -
  have "g \<le> int horizon * rate" unfolding g_def using assms(1,4,5) by (intro mult_right_mono) (auto simp: exact_def)
  moreover show "0 \<le> g" unfolding g_def using assms(1,4) by (intro mult_nonneg_nonneg) (auto simp: exact_def)
  moreover have "0 \<le> rate * int horizon" using assms(1) by (simp add: exact_def)
  ultimately show "small g" "small (x + g)" "small (x - g)" "small x" "small (x + 1)" "small capacity"
    using assms(1-3) by (auto simp: exact_def small_def mult.commute)
  show "small rate" using assms(1) by (simp add: exact_def)
  show "small (int t)" "small (int past)" "small (int t - int past)"
    using assms(1,4,5) by (auto simp: exact_def small_def)
qed

section \<open>The scripts keep a bucket\<close>

text \<open>
  The credit at second \<open>t\<close> of a token bucket with \<open>tokens\<close> in it at second \<open>past\<close>, and of a leaky bucket
  filled to \<open>level\<close>; an absent key is the script's default. A key of the token bucket may have a deadline, by which
  the bucket is full again, so that it does not matter whether the key is still there; those of the leaky
  bucket have none.
\<close>

definition token_credit :: "'n lua \<Rightarrow> (int \<Rightarrow> 'n) \<Rightarrow> 'r redis \<Rightarrow> (nat \<Rightarrow> 'r \<Rightarrow> 'r) \<Rightarrow> ('r \<Rightarrow> key_space) \<Rightarrow> ('r \<Rightarrow> nat) \<Rightarrow> ('f \<Rightarrow> string) \<Rightarrow>
    string \<Rightarrow> int \<Rightarrow> int \<Rightarrow> 'f \<Rightarrow> nat \<Rightarrow> nat \<Rightarrow> nat \<Rightarrow> int \<Rightarrow> 'r \<Rightarrow> bool" where
  "token_credit L emb D elapse keys clock show_float key capacity rate f period horizon t c r \<longleftrightarrow>
     lua_laws L emb \<and> redis_laws D elapse keys clock \<and> lua_tonumber L (show_float f) = Some (emb rate) \<and>
     0 < period \<and> small (int period) \<and> capacity \<le> rate * int period \<and> exact capacity rate horizon \<and> t \<le> horizon \<and> clock r = t \<and>
     (\<exists>tokens past. 0 \<le> tokens \<and> tokens \<le> capacity \<and> past \<le> t \<and> c = min capacity (tokens + (int t - int past) * rate) \<and>
        unwrap_or (show_int capacity) (text_at (keys r) key) = show_int tokens \<and>
        unwrap_or (show_int 0) (text_at (keys r) (key @ '':last_refill'')) = show_int (int past) \<and>
        (\<forall>k\<in>{key, key @ '':last_refill''}. no_log (keys r) k \<and>
           (\<forall>d. deadline_at (keys r) k = Some d \<longrightarrow> capacity \<le> tokens + (int d - int past) * rate)))"

definition leaky_credit :: "'n lua \<Rightarrow> (int \<Rightarrow> 'n) \<Rightarrow> 'r redis \<Rightarrow> (nat \<Rightarrow> 'r \<Rightarrow> 'r) \<Rightarrow> ('r \<Rightarrow> key_space) \<Rightarrow> ('r \<Rightarrow> nat) \<Rightarrow> ('f \<Rightarrow> string) \<Rightarrow>
    string \<Rightarrow> int \<Rightarrow> int \<Rightarrow> 'f \<Rightarrow> nat \<Rightarrow> nat \<Rightarrow> int \<Rightarrow> 'r \<Rightarrow> bool" where
  "leaky_credit L emb D elapse keys clock show_float key capacity rate f horizon t c r \<longleftrightarrow>
     lua_laws L emb \<and> redis_laws D elapse keys clock \<and> lua_tonumber L (show_float f) = Some (emb rate) \<and>
     exact capacity rate horizon \<and> t \<le> horizon \<and> clock r = t \<and>
     (\<exists>level past. 0 \<le> level \<and> level \<le> capacity \<and> past \<le> t \<and> c = capacity - max 0 (level - (int t - int past) * rate) \<and>
        unwrap_or (show_int 0) (text_at (keys r) key) = show_int level \<and>
        (text_at (keys r) (key @ '':last_check'') = Some (show_int (int past)) \<or>
         text_at (keys r) (key @ '':last_check'') = None \<and> level = 0) \<and>
        (\<forall>k\<in>{key, key @ '':last_check''}. no_log (keys r) k \<and> deadline_at (keys r) k = None))"

lemma show_int_0: "show_int 0 = ''0''"
  by code_simp

lemma expire_in_ok:
  assumes "lua_laws L emb" "redis_laws D elapse keys clock" "0 < period" "small (int period)"
  obtains r' where "expire_in L D key (Some (emb (int period))) r = (Inr (), r')"
    "keys r' = expiring key (clock r + period) (keys r)" "clock r' = clock r"
proof -
  have p: "0 < int period" "int period < max_expire" using assms(3,4) by (simp_all add: small_def max_expire_def)
  obtain r' where "rd_expire D key (int period) r = (Inr (), r')" "keys r' = expiring key (clock r + nat (int period)) (keys r)"
      "clock r' = clock r"
    by (rule command_setsE [OF redis_expires [OF assms(2) p]])
  then show ?thesis
    using that lua_text(3) [OF assms(1) _ assms(4)] by (simp add: expire_in_def number_def)
qed

text \<open>The two reads and the two writes of a script.\<close>

lemma two_reads:
  assumes "redis_laws D elapse keys clock" "no_log (keys r) k" "no_log (keys r) k'"
  obtains r1 r2 where "rd_get D k r = (Inr (text_at (keys r) k), r1)" "rd_get D k' r1 = (Inr (text_at (keys r) k'), r2)"
    "keys r2 = keys r" "clock r2 = clock r"
proof -
  obtain r1 where 1: "rd_get D k r = (Inr (text_at (keys r) k), r1)" "keys r1 = keys r" "clock r1 = clock r"
    by (rule command_setsE [OF redis_texts(1) [OF assms(1,2)]])
  have "no_log (keys r1) k'" using assms(3) 1(2) by simp
  then obtain r2 where 2: "rd_get D k' r1 = (Inr (text_at (keys r1) k'), r2)" "keys r2 = keys r1" "clock r2 = clock r1"
    by (rule command_setsE [OF redis_texts(1) [OF assms(1)]])
  have get2: "rd_get D k' r1 = (Inr (text_at (keys r) k'), r2)" using 1(2) 2(1) by simp
  show ?thesis by (rule that [OF 1(1) get2]) (use 1 2 in simp_all)
qed

lemma two_writes:
  assumes "redis_laws D elapse keys clock"
  obtains r1 r2 where "rd_set D k v r = (Inr (), r1)" "rd_set D k' v' r1 = (Inr (), r2)"
    "keys r2 = (keys r)(k \<mapsto> (RText v, None), k' \<mapsto> (RText v', None))" "clock r2 = clock r"
proof -
  obtain r1 where 1: "rd_set D k v r = (Inr (), r1)" "keys r1 = (keys r)(k \<mapsto> (RText v, None))" "clock r1 = clock r"
    by (rule command_setsE [OF redis_texts(2) [OF assms]])
  obtain r2 where 2: "rd_set D k' v' r1 = (Inr (), r2)" "keys r2 = (keys r1)(k' \<mapsto> (RText v', None))" "clock r2 = clock r1"
    by (rule command_setsE [OF redis_texts(2) [OF assms]])
  show ?thesis by (rule that [OF 1(1) 2(1)]) (use 1 2 in simp_all)
qed

lemma lua_inputs:
  assumes "lua_laws L emb" "exact capacity rate horizon" "0 \<le> x" "x \<le> capacity" "past \<le> t" "t \<le> horizon"
  shows "lua_tonumber L (show_int capacity) = Some (emb capacity)" "lua_tonumber L (show_nat t) = Some (emb (int t))"
    "lua_tonumber L (show_int (int t)) = Some (emb (int t))" "lua_tonumber L (show_int x) = Some (emb x)"
    "lua_tonumber L (show_int (int past)) = Some (emb (int past))"
    "text_of L (Some (emb capacity)) = show_int capacity" "text_of L (Some (emb (int t))) = show_int (int t)"
    "lua_tostring L (emb (int t)) = show_int (int t)" "lua_tostring L (emb capacity) = show_int capacity"
  using lua_text [OF assms(1)] exactD [OF assms(2-6)] assms(2,3)
  by (simp_all add: text_of_def exact_def flip: show_int_nat)

lemma token_sums:
  assumes "lua_laws L emb" "exact capacity rate horizon" "0 \<le> tokens" "tokens \<le> capacity" "past \<le> t" "t \<le> horizon"
    and "c = min capacity (tokens + (int t - int past) * rate)"
  shows "lua_sub L (emb (int t)) (emb (int past)) = emb (int t - int past)"
    "lua_mul L (emb (int t - int past)) (emb rate) = emb ((int t - int past) * rate)"
    "lua_add L (emb tokens) (emb ((int t - int past) * rate)) = emb (tokens + (int t - int past) * rate)"
    "lua_min L (emb capacity) (emb (tokens + (int t - int past) * rate)) = emb c"
    "lua_le L (lua_lit L 1) (emb c) = (1 \<le> c)" "lua_sub L (emb c) (lua_lit L 1) = emb (c - 1)"
    "1 \<le> c \<Longrightarrow> lua_tostring L (emb (c - 1)) = show_int (c - 1)"
proof -
  note sizes = exactD [OF assms(2-6)]
  have pos: "0 \<le> capacity" "0 \<le> rate" using assms(2) by (simp_all add: exact_def)
  have "0 \<le> c" "c \<le> capacity" using assms(3,7) sizes(1) pos(1) by simp_all
  then have small: "small c" "small (c - 1)" "small 1" using sizes(7) by (auto simp: small_def)
  show "lua_min L (emb capacity) (emb (tokens + (int t - int past) * rate)) = emb c"
    unfolding assms(7) using sizes by (simp add: lua_order [OF assms(1)])
  show "lua_le L (lua_lit L 1) (emb c) = (1 \<le> c)" "lua_sub L (emb c) (lua_lit L 1) = emb (c - 1)"
    using small by (simp_all add: lua_literals [OF assms(1)] lua_order [OF assms(1)] lua_arith [OF assms(1)])
  show "1 \<le> c \<Longrightarrow> lua_tostring L (emb (c - 1)) = show_int (c - 1)" using small(2) by (simp add: lua_text [OF assms(1)])
qed (use exactD [OF assms(2-6)] assms(2,5) lua_literals [OF assms(1)] in
      \<open>simp_all add: exact_def lua_arith [OF assms(1)] lua_order [OF assms(1)]\<close>)

lemma token_creditE:
  assumes "token_credit L emb D elapse keys clock show_float key capacity rate f period horizon t c r"
  obtains tokens past where "lua_laws L emb" "redis_laws D elapse keys clock" "lua_tonumber L (show_float f) = Some (emb rate)"
      "0 < period" "small (int period)" "capacity \<le> rate * int period" "exact capacity rate horizon" "t \<le> horizon" "clock r = t"
    and "0 \<le> tokens" "tokens \<le> capacity" "past \<le> t" "c = min capacity (tokens + (int t - int past) * rate)"
      "unwrap_or (show_int capacity) (text_at (keys r) key) = show_int tokens"
      "unwrap_or (show_int 0) (text_at (keys r) (key @ '':last_refill'')) = show_int (int past)"
    and "\<And>k. k \<in> {key, key @ '':last_refill''} \<Longrightarrow> no_log (keys r) k"
      "\<And>k d. k \<in> {key, key @ '':last_refill''} \<Longrightarrow> deadline_at (keys r) k = Some d \<Longrightarrow> capacity \<le> tokens + (int d - int past) * rate"
  using assms unfolding token_credit_def by blast

text \<open>The keys that an admitted call leaves.\<close>

definition refilled :: "key_space \<Rightarrow> string \<Rightarrow> int \<Rightarrow> nat \<Rightarrow> nat \<Rightarrow> key_space" where
  "refilled m key tokens t period = m(key \<mapsto> (RText (show_int tokens), Some (t + period)),
     key @ '':last_refill'' \<mapsto> (RText (show_int (int t)), Some (t + period)))"

lemma refilled_at:
  "text_at (refilled m key tokens t period) key = Some (show_int tokens)"
  "text_at (refilled m key tokens t period) (key @ '':last_refill'') = Some (show_int (int t))"
  "k \<in> {key, key @ '':last_refill''} \<Longrightarrow> no_log (refilled m key tokens t period) k \<and> deadline_at (refilled m key tokens t period) k = Some (t + period)"
  by (auto simp: refilled_def text_at_def no_log_def deadline_at_def)

lemma token_writes:
  assumes "lua_laws L emb" "redis_laws D elapse keys clock" "0 < period" "small (int period)"
  obtains r1 r2 r3 r4 where "rd_set D key (show_int tokens) r = (Inr (), r1)"
    "rd_set D (key @ '':last_refill'') (show_int (int (clock r))) r1 = (Inr (), r2)"
    "expire_in L D key (Some (emb (int period))) r2 = (Inr (), r3)"
    "expire_in L D (key @ '':last_refill'') (Some (emb (int period))) r3 = (Inr (), r4)"
    "keys r4 = refilled (keys r) key tokens (clock r) period" "clock r4 = clock r"
proof -
  obtain r1 r2 where sets: "rd_set D key (show_int tokens) r = (Inr (), r1)"
      "rd_set D (key @ '':last_refill'') (show_int (int (clock r))) r1 = (Inr (), r2)" "clock r2 = clock r"
      "keys r2 = (keys r)(key \<mapsto> (RText (show_int tokens), None), key @ '':last_refill'' \<mapsto> (RText (show_int (int (clock r))), None))"
    by (rule two_writes [OF assms(2)])
  obtain r3 where r3: "expire_in L D key (Some (emb (int period))) r2 = (Inr (), r3)"
      "keys r3 = expiring key (clock r2 + period) (keys r2)" "clock r3 = clock r2"
    by (rule expire_in_ok [OF assms])
  obtain r4 where r4: "expire_in L D (key @ '':last_refill'') (Some (emb (int period))) r3 = (Inr (), r4)"
      "keys r4 = expiring (key @ '':last_refill'') (clock r3 + period) (keys r3)" "clock r4 = clock r3"
    by (rule expire_in_ok [OF assms])
  show ?thesis
    by (rule that [OF sets(1,2) r3(1) r4(1)]) (use sets(3,4) r3(2,3) r4(2,3) in \<open>auto simp: refilled_def expiring_def\<close>)
qed

text \<open>One call of the token bucket, whatever its period.\<close>

lemma token_call:
  assumes laws: "lua_laws L emb" "redis_laws D elapse keys clock" "lua_tonumber L (show_float f) = Some (emb rate)"
      "0 < period" "small (int period)" "exact capacity rate horizon" "clock r \<le> horizon"
    and T: "0 \<le> tokens" "tokens \<le> capacity" "past \<le> clock r" "c = min capacity (tokens + (int (clock r) - int past) * rate)"
      "unwrap_or (show_int capacity) (text_at (keys r) key) = show_int tokens"
      "unwrap_or (show_int 0) (text_at (keys r) (key @ '':last_refill'')) = show_int (int past)"
    and K: "no_log (keys r) key" "no_log (keys r) (key @ '':last_refill'')"
  obtains r' where "token_bucket L show_float D key capacity f period (clock r) r = (Inr (1 \<le> c), r')" "clock r' = clock r"
    "keys r' = (if 1 \<le> c then refilled (keys r) key (c - 1) (clock r) period else keys r)"
proof -
  have "lua_tonumber L (show_nat period) = Some (emb (int period))"
    using lua_text(1) [OF laws(1) _ laws(5)] by (simp flip: show_int_nat)
  note calc = lua_inputs [OF laws(1,6) T(1-3) laws(7)] token_sums [OF laws(1,6) T(1-3) laws(7) T(4)] laws(3) this T(5,6)
  obtain r1 r2 where reads: "rd_get D (key @ '':last_refill'') r = (Inr (text_at (keys r) (key @ '':last_refill'')), r1)"
      "rd_get D key r1 = (Inr (text_at (keys r) key), r2)" "keys r2 = keys r" "clock r2 = clock r"
    by (rule two_reads [OF laws(2) K(2,1)])
  show ?thesis
  proof (cases "1 \<le> c")
    case False
    then have "token_bucket L show_float D key capacity f period (clock r) r = (Inr False, r2)"
      using reads(1,2) calc by (simp add: token_bucket_def token_script_def and_then_def number_def show_int_0)
    with that [of r2] False reads(3,4) show ?thesis by simp
  next
    case True
    obtain r3 r4 r5 r6 where sets: "rd_set D key (show_int (c - 1)) r2 = (Inr (), r3)"
        "rd_set D (key @ '':last_refill'') (show_int (int (clock r))) r3 = (Inr (), r4)"
        "expire_in L D key (Some (emb (int period))) r4 = (Inr (), r5)"
        "expire_in L D (key @ '':last_refill'') (Some (emb (int period))) r5 = (Inr (), r6)"
        "keys r6 = refilled (keys r) key (c - 1) (clock r) period" "clock r6 = clock r"
      by (rule token_writes [OF laws(1,2,4,5), of key "c - 1" r2, unfolded reads(3,4)])
    have "token_bucket L show_float D key capacity f period (clock r) r = (Inr True, r6)"
      using True reads(1,2) sets(1-4) calc by (simp add: token_bucket_def token_script_def and_then_def number_def show_int_0)
    with that [of r6] True sets(5,6) show ?thesis by simp
  qed
qed

lemma token_takes:
  assumes "token_credit L emb D elapse keys clock show_float key capacity rate f period horizon t c r"
  shows "\<exists>r'. token_bucket L show_float D key capacity f period t r = (Inr (1 \<le> c), r') \<and>
    token_credit L emb D elapse keys clock show_float key capacity rate f period horizon t (if 1 \<le> c then c - 1 else c) r'"
proof -
  from assms obtain tokens past where laws: "lua_laws L emb" "redis_laws D elapse keys clock" "lua_tonumber L (show_float f) = Some (emb rate)"
      "0 < period" "small (int period)" "capacity \<le> rate * int period" "exact capacity rate horizon" "t \<le> horizon" "clock r = t"
    and T: "0 \<le> tokens" "tokens \<le> capacity" "past \<le> t" "c = min capacity (tokens + (int t - int past) * rate)"
      "unwrap_or (show_int capacity) (text_at (keys r) key) = show_int tokens"
      "unwrap_or (show_int 0) (text_at (keys r) (key @ '':last_refill'')) = show_int (int past)"
    and K: "\<And>k. k \<in> {key, key @ '':last_refill''} \<Longrightarrow> no_log (keys r) k"
    by (rule token_creditE) blast
  obtain r' where r': "token_bucket L show_float D key capacity f period t r = (Inr (1 \<le> c), r')" "clock r' = t"
      "keys r' = (if 1 \<le> c then refilled (keys r) key (c - 1) t period else keys r)"
    by (rule token_call [of L emb D elapse keys clock show_float f rate period capacity horizon r tokens past c key, unfolded laws(9)])
      (simp_all add: laws T K)
  show ?thesis
  proof (cases "1 \<le> c")
    case False
    then have "token_credit L emb D elapse keys clock show_float key capacity rate f period horizon t c r'"
      using assms r'(2,3) by (simp add: token_credit_def)
    with r'(1) False show ?thesis by auto
  next
    case True
    then have "token_credit L emb D elapse keys clock show_float key capacity rate f period horizon t (c - 1) r'"
      unfolding token_credit_def using laws T(4) refilled_at [where m = "keys r" and key = key and tokens = "c - 1" and t = t and period = period] r'(2,3)
      by (intro conjI exI [of _ "c - 1"] exI [of _ t]) (auto simp: unwrap_or_def mult.commute)
    with r'(1) True show ?thesis by auto
  qed
qed

lemma leaky_sums:
  assumes "lua_laws L emb" "exact capacity rate horizon" "0 \<le> level" "level \<le> capacity" "past \<le> t" "t \<le> horizon"
    and "leaked = max 0 (level - (int t - int past) * rate)"
  shows "lua_sub L (emb (int t)) (emb (int past)) = emb (int t - int past)"
    "lua_mul L (emb (int t - int past)) (emb rate) = emb ((int t - int past) * rate)"
    "lua_sub L (emb level) (emb ((int t - int past) * rate)) = emb (level - (int t - int past) * rate)"
    "lua_max L (lua_lit L 0) (emb (level - (int t - int past) * rate)) = emb leaked"
    "lua_less L (emb leaked) (emb capacity) = (leaked < capacity)"
    "lua_add L (emb leaked) (lua_lit L 1) = emb (leaked + 1)" "lua_tostring L (emb (leaked + 1)) = show_int (leaked + 1)"
proof -
  note sizes = exactD [OF assms(2-6)]
  have le: "0 \<le> leaked" "leaked \<le> level" using assms(3,7) sizes(1) by simp_all
  then have small: "small leaked" "small (leaked + 1)" "small 1" "small 0" using sizes(5,6) by (auto simp: small_def)
  show "lua_max L (lua_lit L 0) (emb (level - (int t - int past) * rate)) = emb leaked"
    unfolding assms(7) using sizes small(4) by (simp add: lua_literals [OF assms(1)] lua_order [OF assms(1)])
  show "lua_less L (emb leaked) (emb capacity) = (leaked < capacity)" "lua_add L (emb leaked) (lua_lit L 1) = emb (leaked + 1)"
    using small sizes(7) by (simp_all add: lua_literals [OF assms(1)] lua_order [OF assms(1)] lua_arith [OF assms(1)])
  show "lua_tostring L (emb (leaked + 1)) = show_int (leaked + 1)" using le small by (simp add: lua_text [OF assms(1)])
qed (use exactD [OF assms(2-6)] assms(2,5) in \<open>simp_all add: exact_def lua_arith [OF assms(1)]\<close>)

lemma leaky_creditE:
  assumes "leaky_credit L emb D elapse keys clock show_float key capacity rate f horizon t c r"
  obtains level past where "lua_laws L emb" "redis_laws D elapse keys clock" "lua_tonumber L (show_float f) = Some (emb rate)"
      "exact capacity rate horizon" "t \<le> horizon" "clock r = t"
    and "0 \<le> level" "level \<le> capacity" "past \<le> t" "c = capacity - max 0 (level - (int t - int past) * rate)"
      "unwrap_or (show_int 0) (text_at (keys r) key) = show_int level"
      "text_at (keys r) (key @ '':last_check'') = Some (show_int (int past)) \<or> text_at (keys r) (key @ '':last_check'') = None \<and> level = 0"
    and "\<And>k. k \<in> {key, key @ '':last_check''} \<Longrightarrow> no_log (keys r) k \<and> deadline_at (keys r) k = None"
  using assms unfolding leaky_credit_def by blast

text \<open>An absent last check is read as now.\<close>

lemma leaky_reads:
  assumes "leaky_credit L emb D elapse keys clock show_float key capacity rate f horizon t c r"
  obtains level past where "lua_laws L emb" "redis_laws D elapse keys clock" "lua_tonumber L (show_float f) = Some (emb rate)"
      "exact capacity rate horizon" "t \<le> horizon" "clock r = t"
    and "0 \<le> level" "level \<le> capacity" "past \<le> t" "c = capacity - max 0 (level - (int t - int past) * rate)"
      "unwrap_or (show_int 0) (text_at (keys r) key) = show_int level"
      "unwrap_or (show_int (int t)) (text_at (keys r) (key @ '':last_check'')) = show_int (int past)"
    and "\<And>k. k \<in> {key, key @ '':last_check''} \<Longrightarrow> no_log (keys r) k"
proof -
  from assms obtain level past where L: "lua_laws L emb" "redis_laws D elapse keys clock" "lua_tonumber L (show_float f) = Some (emb rate)"
      "exact capacity rate horizon" "t \<le> horizon" "clock r = t"
    and V: "0 \<le> level" "level \<le> capacity" "past \<le> t" "c = capacity - max 0 (level - (int t - int past) * rate)"
      "unwrap_or (show_int 0) (text_at (keys r) key) = show_int level"
      "text_at (keys r) (key @ '':last_check'') = Some (show_int (int past)) \<or> text_at (keys r) (key @ '':last_check'') = None \<and> level = 0"
    and K: "\<And>k. k \<in> {key, key @ '':last_check''} \<Longrightarrow> no_log (keys r) k \<and> deadline_at (keys r) k = None"
    by (rule leaky_creditE) blast
  from V(6) show thesis
  proof
    assume "text_at (keys r) (key @ '':last_check'') = None \<and> level = 0"
    moreover from this have "c = capacity" using V(3,4) L(4) by (simp add: exact_def)
    ultimately show thesis using that [OF L V(1,2), of t] V(5) K by (simp add: unwrap_or_def)
  qed (use that [OF L V(1-5)] K in \<open>simp add: unwrap_or_def\<close>)
qed

lemma leaky_takes:
  assumes "leaky_credit L emb D elapse keys clock show_float key capacity rate f horizon t c r"
  shows "\<exists>r'. leaky_bucket L show_float D key capacity f t r = (Inr (1 \<le> c), r') \<and>
    leaky_credit L emb D elapse keys clock show_float key capacity rate f horizon t (if 1 \<le> c then c - 1 else c) r'"
proof -
  from assms obtain level past where laws: "lua_laws L emb" "redis_laws D elapse keys clock" "lua_tonumber L (show_float f) = Some (emb rate)"
      "exact capacity rate horizon" "t \<le> horizon" "clock r = t"
    and T: "0 \<le> level" "level \<le> capacity" "past \<le> t" "c = capacity - max 0 (level - (int t - int past) * rate)"
      "unwrap_or (show_int 0) (text_at (keys r) key) = show_int level"
      "unwrap_or (show_int (int t)) (text_at (keys r) (key @ '':last_check'')) = show_int (int past)"
    and K: "\<And>k. k \<in> {key, key @ '':last_check''} \<Longrightarrow> no_log (keys r) k"
    by (rule leaky_reads) blast
  define leaked where "leaked = max 0 (level - (int t - int past) * rate)"
  have c: "c = capacity - leaked" by (simp add: T(4) leaked_def)
  note calc = lua_inputs [OF laws(1,4) T(1-3) laws(5)] leaky_sums [OF laws(1,4) T(1-3) laws(5) leaked_def] laws(3) T(5,6)
  obtain r1 r2 where reads: "rd_get D (key @ '':last_check'') r = (Inr (text_at (keys r) (key @ '':last_check'')), r1)"
      "rd_get D key r1 = (Inr (text_at (keys r) key), r2)" "keys r2 = keys r" "clock r2 = clock r"
    by (rule two_reads [OF laws(2), of r "key @ '':last_check''" key]) (simp_all add: K)
  define level' where "level' = (if leaked < capacity then leaked + 1 else capacity)"
  obtain r3 r4 where sets: "rd_set D key (show_int level') r2 = (Inr (), r3)"
      "rd_set D (key @ '':last_check'') (show_int (int t)) r3 = (Inr (), r4)"
      "keys r4 = (keys r2)(key \<mapsto> (RText (show_int level'), None), key @ '':last_check'' \<mapsto> (RText (show_int (int t)), None))"
      "clock r4 = clock r2"
    by (rule two_writes [OF laws(2)])
  have "leaky_bucket L show_float D key capacity f t r = (Inr (leaked < capacity), r4)"
    using reads(1,2) sets(1,2) calc
    by (cases "leaked < capacity") (simp_all add: leaky_bucket_def leaky_script_def and_then_def number_def show_int_0 level'_def Let_def)
  moreover have "leaked \<le> capacity" using T(1,2,3) exactD(1) [OF laws(4) T(1-3) laws(5)] by (simp add: leaked_def)
  then have "leaky_credit L emb D elapse keys clock show_float key capacity rate f horizon t (if 1 \<le> c then c - 1 else c) r4"
    unfolding leaky_credit_def using laws reads(3,4) sets(3,4)
    by (intro conjI exI [of _ level'] exI [of _ t])
      (auto simp: unwrap_or_def level'_def c leaked_def text_at_def no_log_def deadline_at_def)
  ultimately show ?thesis by (auto simp: c)
qed

lemma refill_sums:
  fixes rate :: int
  assumes "t \<le> t'" "0 \<le> rate"
  shows "min k (min k (x + (int t - past) * rate) + rate * int (t' - t)) = min k (x + (int t' - past) * rate)"
    "min k (k - max 0 (x - (int t - past) * rate) + rate * int (t' - t)) = k - max 0 (x - (int t' - past) * rate)"
proof -
  have refill: "min k (min k a + g) = min k (a + g)" "min k (k - max 0 a + g) = k - max 0 (a - g)" if "0 \<le> g" for a g :: int
    using that by (simp_all add: min_def max_def)
  have "(int t' - past) * rate = (int t - past) * rate + rate * int (t' - t)" using assms(1) by (simp add: of_nat_diff algebra_simps)
  moreover have "0 \<le> rate * int (t' - t)" using assms(2) by simp
  ultimately show "min k (min k (x + (int t - past) * rate) + rate * int (t' - t)) = min k (x + (int t' - past) * rate)"
      "min k (k - max 0 (x - (int t - past) * rate) + rate * int (t' - t)) = k - max 0 (x - (int t' - past) * rate)"
    by (simp_all only: refill add.assoc diff_diff_eq)
qed

text \<open>A key that has expired was that of a full bucket.\<close>

lemma kept_or_full:
  assumes "redis_laws D elapse keys clock" "clock r \<le> t'" "0 \<le> (rate :: int)"
    and "\<And>d. deadline_at (keys r) k = Some d \<Longrightarrow> capacity \<le> tokens + (int d - past) * rate"
  shows "keys (elapse t' r) k = keys r k \<or> keys (elapse t' r) k = None \<and> capacity \<le> tokens + (int t' - past) * rate"
proof (cases "keys (elapse t' r) k = keys r k")
  case False
  note by_t' = redis_elapses(2) [OF assms(1,2), of k]
  with False obtain v d where v: "keys r k = Some (v, Some d)" by (auto simp: key_by_def split: option.splits)
  with by_t' False have e: "d \<le> t'" "keys (elapse t' r) k = None" by (auto simp: key_by_def not_less)
  have "capacity \<le> tokens + (int d - past) * rate" using assms(4) v by (simp add: deadline_at_def)
  also have "\<dots> \<le> tokens + (int t' - past) * rate" using e(1) assms(3) by (intro add_left_mono mult_right_mono) simp_all
  finally show ?thesis using e(2) by simp
qed simp

lemma token_waits:
  assumes "token_credit L emb D elapse keys clock show_float key capacity rate f period horizon t c r" "t \<le> t'" "t' \<le> horizon"
  shows "token_credit L emb D elapse keys clock show_float key capacity rate f period horizon t'
    (min capacity (c + rate * int (t' - t))) (elapse t' r)"
proof -
  let ?last = "key @ '':last_refill''" and ?r = "elapse t' r"
  from assms(1) obtain tokens past where laws: "lua_laws L emb" "redis_laws D elapse keys clock" "lua_tonumber L (show_float f) = Some (emb rate)"
      "0 < period" "small (int period)" "capacity \<le> rate * int period" "exact capacity rate horizon" "t \<le> horizon" "clock r = t"
    and T: "0 \<le> tokens" "tokens \<le> capacity" "past \<le> t" "c = min capacity (tokens + (int t - int past) * rate)"
      "unwrap_or (show_int capacity) (text_at (keys r) key) = show_int tokens"
      "unwrap_or (show_int 0) (text_at (keys r) ?last) = show_int (int past)"
    and K: "\<And>k. k \<in> {key, ?last} \<Longrightarrow> no_log (keys r) k"
      "\<And>k d. k \<in> {key, ?last} \<Longrightarrow> deadline_at (keys r) k = Some d \<Longrightarrow> capacity \<le> tokens + (int d - int past) * rate"
    by (rule token_creditE) blast
  have rate: "0 \<le> rate" using laws(7) by (simp add: exact_def)
  have le: "clock r \<le> t'" using laws(9) assms(2) by simp
  define tokens' where "tokens' = (if keys ?r key = keys r key then tokens else capacity)"
  define past' where "past' = (if keys ?r ?last = keys r ?last then past else 0)"
  have either: "keys ?r k = keys r k \<or> keys ?r k = None \<and> capacity \<le> tokens + (int t' - int past) * rate" if "k \<in> {key, ?last}" for k
    by (rule kept_or_full [OF laws(2) le rate]) (use K(2) that in blast)
  have more: "tokens + (x - int past) * rate \<le> tokens' + (x - int past') * rate" for x
    using T(2) rate by (intro add_mono mult_right_mono) (simp_all add: tokens'_def past'_def)
  have c': "min capacity (c + rate * int (t' - t)) = min capacity (tokens + (int t' - int past) * rate)"
    unfolding T(4) by (rule refill_sums [OF assms(2) rate])
  have "min capacity (c + rate * int (t' - t)) = min capacity (tokens' + (int t' - int past') * rate)"
  proof (cases "keys ?r key = keys r key \<and> keys ?r ?last = keys r ?last")
    case False
    with either have "capacity \<le> tokens + (int t' - int past) * rate" by blast
    with more [of "int t'"] show ?thesis unfolding c' by simp
  qed (simp add: c' tokens'_def past'_def)
  moreover have "0 \<le> tokens'" "tokens' \<le> capacity" "past' \<le> t'" using T(1-3) assms(2) by (simp_all add: tokens'_def past'_def)
  moreover have "unwrap_or (show_int capacity) (text_at (keys ?r) key) = show_int tokens'"
    using either [of key] T(5) by (auto simp: tokens'_def text_at_def unwrap_or_def)
  moreover have "unwrap_or (show_int 0) (text_at (keys ?r) ?last) = show_int (int past')"
    using either [of ?last] T(6) by (auto simp: past'_def text_at_def unwrap_or_def)
  moreover have "no_log (keys ?r) k" if "k \<in> {key, ?last}" for k
    using either [OF that] K(1) [OF that] by (auto simp: no_log_def)
  moreover have "capacity \<le> tokens' + (int d - int past') * rate" if "k \<in> {key, ?last}" "deadline_at (keys ?r) k = Some d" for k d
  proof -
    have "deadline_at (keys r) k = Some d" using either [OF that(1)] that(2) by (auto simp: deadline_at_def)
    from K(2) [OF that(1) this] more [of "int d"] show ?thesis by (rule order_trans)
  qed
  ultimately show ?thesis
    unfolding token_credit_def using laws assms(3) redis_elapses(1) [OF laws(2) le] by blast
qed

lemma leaky_waits:
  assumes "leaky_credit L emb D elapse keys clock show_float key capacity rate f horizon t c r" "t \<le> t'" "t' \<le> horizon"
  shows "leaky_credit L emb D elapse keys clock show_float key capacity rate f horizon t'
    (min capacity (c + rate * int (t' - t))) (elapse t' r)"
proof -
  let ?last = "key @ '':last_check''" and ?r = "elapse t' r"
  from assms(1) obtain level past where laws: "lua_laws L emb" "redis_laws D elapse keys clock" "lua_tonumber L (show_float f) = Some (emb rate)"
      "exact capacity rate horizon" "t \<le> horizon" "clock r = t"
    and T: "0 \<le> level" "level \<le> capacity" "past \<le> t" "c = capacity - max 0 (level - (int t - int past) * rate)"
      "unwrap_or (show_int 0) (text_at (keys r) key) = show_int level"
      "text_at (keys r) ?last = Some (show_int (int past)) \<or> text_at (keys r) ?last = None \<and> level = 0"
    and K: "\<And>k. k \<in> {key, ?last} \<Longrightarrow> no_log (keys r) k \<and> deadline_at (keys r) k = None"
    by (rule leaky_creditE) blast
  have le: "clock r \<le> t'" using laws(6) assms(2) by simp
  have same: "keys ?r k = keys r k" if "k \<in> {key, ?last}" for k
    by (rule key_kept [OF laws(2) le]) (use K [OF that] in \<open>simp add: deadline_at_def\<close>)
  have "0 \<le> rate" using laws(4) by (simp add: exact_def)
  then have "min capacity (c + rate * int (t' - t)) = capacity - max 0 (level - (int t' - int past) * rate)"
    unfolding T(4) by (rule refill_sums [OF assms(2)])
  moreover have "past \<le> t'" using T(3) assms(2) by (rule order_trans)
  moreover have "text_at (keys ?r) k = text_at (keys r) k \<and> no_log (keys ?r) k \<and> deadline_at (keys ?r) k = None" if "k \<in> {key, ?last}" for k
    using same [OF that] K [OF that] by (simp add: text_at_def no_log_def deadline_at_def)
  ultimately show ?thesis
    unfolding leaky_credit_def using laws(1-4) assms(3) redis_elapses(1) [OF laws(2) le] T(1,2,5,6)
    by (intro conjI exI [of _ level] exI [of _ past]) simp_all
qed

lemma credit_range:
  assumes "exact capacity rate horizon" "0 \<le> x" "x \<le> capacity" "past \<le> t" "t \<le> horizon"
  shows "0 \<le> min capacity (x + (int t - int past) * rate)" "0 \<le> capacity - max 0 (x - (int t - int past) * rate)"
    "0 \<le> capacity" "0 \<le> rate"
  using exactD(1) [OF assms] assms(1-3) by (auto simp: exact_def)

interpretation token: credit_bucket "token_bucket L show_float D key capacity f period" capacity rate horizon
  "token_credit L emb D elapse keys clock show_float key capacity rate f period horizon" elapse
  for L :: "'n lua" and show_float :: "'f \<Rightarrow> string" and D :: "'r redis" and key capacity f period rate horizon emb elapse keys clock
proof
  show "0 \<le> c \<and> 0 \<le> capacity \<and> 0 \<le> rate"
    if "token_credit L emb D elapse keys clock show_float key capacity rate f period horizon t c r" for t c r
    using that credit_range [of capacity rate horizon _ _ t] unfolding token_credit_def by (elim conjE exE) simp
qed (rule token_waits token_takes; assumption)+

interpretation leaky: credit_bucket "leaky_bucket L show_float D key capacity f" capacity rate horizon
  "leaky_credit L emb D elapse keys clock show_float key capacity rate f horizon" elapse
  for L :: "'n lua" and show_float :: "'f \<Rightarrow> string" and D :: "'r redis" and key capacity f rate horizon emb elapse keys clock
proof
  show "0 \<le> c \<and> 0 \<le> capacity \<and> 0 \<le> rate"
    if "leaky_credit L emb D elapse keys clock show_float key capacity rate f horizon t c r" for t c r
    using that credit_range [of capacity rate horizon _ _ t] unfolding leaky_credit_def by (elim conjE exE) simp
qed (rule leaky_waits leaky_takes; assumption)+

text \<open>A bucket whose keys are not there is full.\<close>

lemma token_fresh:
  assumes "lua_laws L emb" "redis_laws D elapse keys clock" "lua_tonumber L (show_float f) = Some (emb rate)"
    and "0 < period" "small (int period)" "capacity \<le> rate * int period" "exact capacity rate horizon"
    and "keys r key = None" "keys r (key @ '':last_refill'') = None" "clock r \<le> horizon"
  shows "token_credit L emb D elapse keys clock show_float key capacity rate f period horizon (clock r) capacity r"
  unfolding token_credit_def using assms
  by (intro conjI exI [of _ capacity] exI [of _ 0])
    (auto simp: unwrap_or_def exact_def text_at_def no_log_def deadline_at_def)

lemma leaky_fresh:
  assumes "lua_laws L emb" "redis_laws D elapse keys clock" "lua_tonumber L (show_float f) = Some (emb rate)" "exact capacity rate horizon"
    and "keys r key = None" "keys r (key @ '':last_check'') = None" "clock r \<le> horizon"
  shows "leaky_credit L emb D elapse keys clock show_float key capacity rate f horizon (clock r) capacity r"
  unfolding leaky_credit_def using assms
  by (intro conjI exI [of _ 0]) (auto simp: unwrap_or_def exact_def text_at_def no_log_def deadline_at_def)

lemma full_bucket_run: "0 \<le> rate \<Longrightarrow> bucket_run capacity rate t capacity ts = bucket_run capacity rate 0 capacity ts"
  by (cases ts) (simp_all add: Let_def)

section \<open>Properties\<close>

text \<open>Integers as numbers, for the witnesses.\<close>

definition demo_lua :: "int lua" where
  "demo_lua = \<lparr>lua_lit = (\<lambda>i. i), lua_tonumber = parse_i64, lua_tostring = show_int, lua_add = (+), lua_sub = (-),
     lua_mul = (*), lua_min = min, lua_max = max, lua_less = (<), lua_le = (\<le>), lua_whole = Some\<rparr>"

lemma demo_lua_laws: "lua_laws demo_lua (\<lambda>i. i)"
proof -
  have "parse_i64 (show_int i) = Some i" if "0 \<le> i" "small i" for i
    using that parse_i64_show [of "nat i"] by (simp add: show_int_def small_def)
  then show ?thesis by (simp add: lua_laws_def demo_lua_def)
qed

lemma demo_sides: "lua_tonumber demo_lua (show_int 1) = Some 1" "small 60" "exact 2 1 170"
  by (simp_all add: demo_lua_def small_def exact_def show_int_def parse_i64_show del: One_nat_def)

text \<open>
  C13 (bounds). The token bucket limits the rate, as long as its period is long enough to refill it: with an integer capacity and rate,
  Lua's numbers exact, and \<open>capacity \<le> rate * period\<close>, no call fails and in every window of consecutive calls, however they
  are spread and whenever the keys expire, at most \<open>capacity + rate * d\<close> are admitted, \<open>d\<close> the seconds from the first to
  the last. (With a shorter period the bound fails: \<open>short_period_refills\<close>.)
\<close>

theorem token_bucket_bound:
  assumes "lua_laws L emb" "redis_laws D elapse keys clock" "lua_tonumber L (show_float f) = Some (emb rate)"
    and "0 < period" "small (int period)" "capacity \<le> rate * int period" "exact capacity rate horizon"
    and "keys r key = None" "keys r (key @ '':last_refill'') = None"
    and "sorted (clock r # before @ calls @ later)" "\<forall>t\<in>set (clock r # before @ calls @ later). t \<le> horizon" "calls \<noteq> []"
  shows "\<exists>as. replies (\<lambda>t r. token_bucket L show_float D key capacity f period t (elapse t r)) (before @ calls @ later) r = map Inr as \<and>
    admitted (take (length calls) (drop (length before) as)) \<le> capacity + rate * int (last calls - hd calls)"
proof -
  have "token_credit L emb D elapse keys clock show_float key capacity rate f period horizon (clock r) capacity r"
    using assms(11) by (intro token_fresh assms(1-9)) simp
  from token.replies_reference [OF this assms(10)] assms(11)
  have "replies (\<lambda>t r. token_bucket L show_float D key capacity f period t (elapse t r)) (before @ calls @ later) r =
      map Inr (bucket_run capacity rate (clock r) capacity (before @ calls @ later))" by simp
  moreover have "admitted (take (length calls) (drop (length before) (bucket_run capacity rate (clock r) capacity (before @ calls @ later)))) \<le>
      capacity + rate * int (last calls - hd calls)"
    using assms(7,10,12) by (intro window_bound) (simp_all add: exact_def sorted_append)
  ultimately show ?thesis by blast
qed

lemma token_bucket_bound_witness:
  "\<exists>as. replies (\<lambda>t r. token_bucket demo_lua show_int demo_redis ''k'' 2 1 60 t (demo_elapse t r)) ([100] @ [100, 100, 101] @ [170])
      (Map.empty, 90) = map Inr as \<and>
    admitted (take 3 (drop 1 as)) \<le> 3"
  using token_bucket_bound [where L = demo_lua and emb = "\<lambda>i. i" and D = demo_redis and elapse = demo_elapse and keys = fst and clock = snd and
      show_float = show_int and f = 1 and rate = 1 and period = 60 and capacity = 2 and horizon = 170 and r = "(Map.empty, 90)" and
      key = "''k''" and before = "[100]" and calls = "[100, 100, 101]" and later = "[170]"]
    demo_lua_laws demo_redis_laws demo_sides
  by (simp add: numeral_3_eq_3)

text \<open>
  With a shorter period the bound fails, in its simplest form: a bucket of one token that is never refilled (its
  rate is zero) admits one call, but the keys expire, and the script admits another one after every period.
\<close>

lemma short_period_refills:
  assumes "lua_laws L emb" "redis_laws D elapse keys clock" "lua_tonumber L (show_float f) = Some (emb 0)"
    and "0 < period" "small (int period)" "exact 1 0 horizon"
    and "keys r key = None" "keys r (key @ '':last_refill'') = None" "clock r \<le> s" "s + period < t" "t \<le> horizon"
  shows "replies (\<lambda>t r. token_bucket L show_float D key 1 f period t (elapse t r)) [s, t] r = map Inr [True, True] \<and>
    bucket_run 1 0 0 1 [s, t] = [True, False]"
proof -
  have fresh: "\<exists>r'. token_bucket L show_float D key 1 f period (clock q) q = (Inr True, r') \<and> clock r' = clock q \<and>
      keys r' = refilled (keys q) key 0 (clock q) period"
    if "keys q key = None" "keys q (key @ '':last_refill'') = None" "clock q \<le> horizon" for q
    by (rule token_call [of L emb D elapse keys clock show_float f 0 period 1 horizon q 1 0 1 key])
      (use that assms(1-6) in \<open>simp_all add: text_at_def unwrap_or_def no_log_def\<close>)
  have s: "clock (elapse s r) = s" by (rule redis_elapses(1) [OF assms(2,9)])
  have "keys (elapse s r) key = None" "keys (elapse s r) (key @ '':last_refill'') = None"
    using key_kept [OF assms(2,9), of key] key_kept [OF assms(2,9), of "key @ '':last_refill''"] assms(7,8) by simp_all
  from fresh [OF this] s assms(10,11) obtain r' where r': "token_bucket L show_float D key 1 f period s (elapse s r) = (Inr True, r')"
      "clock r' = s" "keys r' = refilled (keys (elapse s r)) key 0 s period" by auto
  have t: "clock (elapse t r') = t" by (rule redis_elapses(1) [OF assms(2)]) (use r'(2) assms(10) in simp)
  have "keys (elapse t r') k = None" if "k \<in> {key, key @ '':last_refill''}" for k
    using redis_elapses(2) [OF assms(2), of r' t k] that r'(2,3) assms(10) by (auto simp: key_by_def refilled_def)
  with fresh [of "elapse t r'"] t assms(11) obtain r2 where "token_bucket L show_float D key 1 f period t (elapse t r') = (Inr True, r2)"
    by auto
  with r'(1) show ?thesis by simp
qed

text \<open>
  C31 (equivalence). The two bucket scripts are one limiter, as long as the period of the token bucket is long enough to refill it: on fresh
  keys, with the same integer capacity and rate, exact numbers and \<open>capacity \<le> rate * period\<close>, they answer every series of
  calls alike, although the keys of the token bucket expire and those of the leaky one do not, and like the reference bucket
  that starts full, gains \<open>rate\<close> a second and gives a unit to each admitted call. With a rate of at least
  one, a client that calls at most once a second is never turned away.
\<close>

theorem buckets_agree:
  assumes "lua_laws L emb" "redis_laws D elapse keys clock" "lua_tonumber L (show_float f) = Some (emb rate)"
    and "0 < period" "small (int period)" "capacity \<le> rate * int period" "exact capacity rate horizon"
    and "keys r key = None" "keys r (key @ '':last_refill'') = None" "keys r' key' = None" "keys r' (key' @ '':last_check'') = None"
    and "sorted (clock r # calls)" "sorted (clock r' # calls)" "\<forall>t\<in>set (clock r # clock r' # calls). t \<le> horizon"
  shows "replies (\<lambda>t r. token_bucket L show_float D key capacity f period t (elapse t r)) calls r = map Inr (bucket_run capacity rate 0 capacity calls) \<and>
    replies (\<lambda>t r. leaky_bucket L show_float D key' capacity f t (elapse t r)) calls r' = map Inr (bucket_run capacity rate 0 capacity calls) \<and>
    (1 \<le> rate \<and> 1 \<le> capacity \<and> sorted_wrt (<) (0 # calls) \<longrightarrow> bucket_run capacity rate 0 capacity calls = replicate (length calls) True)"
proof (intro conjI impI)
  have rate: "0 \<le> rate" using assms(7) by (simp add: exact_def)
  have "token_credit L emb D elapse keys clock show_float key capacity rate f period horizon (clock r) capacity r"
    using assms(14) by (intro token_fresh assms(1-9)) simp
  from token.replies_reference [OF this assms(12)] assms(14) full_bucket_run [OF rate]
  show "replies (\<lambda>t r. token_bucket L show_float D key capacity f period t (elapse t r)) calls r = map Inr (bucket_run capacity rate 0 capacity calls)"
    by simp
  have "leaky_credit L emb D elapse keys clock show_float key' capacity rate f horizon (clock r') capacity r'"
    using assms(14) by (intro leaky_fresh assms(1-3,7,10,11)) simp
  from leaky.replies_reference [OF this assms(13)] assms(14) full_bucket_run [OF rate]
  show "replies (\<lambda>t r. leaky_bucket L show_float D key' capacity f t (elapse t r)) calls r' = map Inr (bucket_run capacity rate 0 capacity calls)"
    by simp
qed (simp add: paced_admitted)

lemma buckets_agree_witness:
  "replies (\<lambda>t r. token_bucket demo_lua show_int demo_redis ''k'' 2 1 60 t (demo_elapse t r)) [100, 100, 100, 101] (Map.empty, 90) =
     map Inr [True, True, False, True] \<and>
   replies (\<lambda>t r. leaky_bucket demo_lua show_int demo_redis ''k'' 2 1 t (demo_elapse t r)) [100, 100, 100, 101] (Map.empty, 95) =
     map Inr [True, True, False, True] \<and>
   bucket_run 2 1 0 2 [100, 101] = [True, True]"
proof -
  note agree = buckets_agree [where L = demo_lua and emb = "\<lambda>i. i" and D = demo_redis and elapse = demo_elapse and keys = fst and clock = snd and
      show_float = show_int and f = 1 and rate = 1 and period = 60 and capacity = 2 and horizon = 170 and r = "(Map.empty, 90)" and
      key = "''k''" and r' = "(Map.empty, 95)" and key' = "''k''"]
  have "bucket_run 2 1 0 2 [100, 100, 100, 101] = [True, True, False, True]" by simp
  moreover note agree [of "[100, 100, 100, 101]"] agree [of "[100, 101]"]
  ultimately show ?thesis using demo_lua_laws demo_redis_laws demo_sides by simp
qed

end
