(* ===== verification/Spec2Isabelle.thy ===== *)
theory Spec2Isabelle
  imports ServerRun ResponseExchange GatewayProperties GatewayDiscovery GatewayBuckets
begin

text \<open>
  A verification library of Hyflux, a network framework in Rust (the crate under core/src, with the small
  program bin/src/main.rs), and of Glaive, an API gateway built on the pingora proxy (glaive/src).

  The program. A core server runs services; a service listens on TCP and Unix addresses, and every accepted
  connection is proxied to a peer. The downstream session reads the client's request and writes the
  response, the upstream session does the converse with the server; both use a body reader, a body writer
  and a header type that keeps the spelling of names. Two concurrent loops joined by bounded channels copy
  the bodies, then the server stream goes back to a pool of idle connections, bounded by a cache of least
  recently used ones. The gateway turns a YAML configuration into clusters, a prefix map and consumers;
  its router chooses a cluster by the path, runs the IP, rate, credential and access filters,
  edits headers, and caches responses.

  The theories, in the order of their imports, and what they model.

  \<^item> Prelude: outcomes (\<open>Ok\<close>, \<open>Err\<close>, \<open>Panic\<close>: every panic of the code is a value), slices that panic out
    of range, \<open>usize\<close> arithmetic modulo 2^64 with its checked variants, and the string library.
  \<^item> StreamIo: the record of stream operations the sessions use, its contract, and stream/write_vec.rs.
  \<^item> Buffers: session/offset.rs and session/buffer.rs.
  \<^item> BodyWriter, BodyReader: session/writer.rs and session/reader.rs. ChunkedDecode proves the decoder of
    the chunked encoding, ReaderSafety the absence of panics, BodyProperties what the sessions rely on.
  \<^item> Headers, SessionUtils, SessionHead: session/case.rs, request.rs, response.rs; utils.rs, keepalive.rs,
    task.rs; and what the two sessions share.
  \<^item> Downstream, Upstream: session/downstream.rs and session/upstream.rs, every method an action on the
    session's record and its stream.
  \<^item> Duplex, DuplexProperties, DuplexResponse: service/proxy/duplex.rs as a step relation, and that relation
    on the sessions, in the direction of the request and in that of the response; Exchange, ResponseExchange: a request and
    a response from socket to socket, header and body.
  \<^item> Lru, Pool, PoolProperties: pool/lru.rs and pool/pool.rs.
  \<^item> Service: pool/stream.rs, service/peer.rs, the addresses of listener/socket.rs, binding
    (listener/listener.rs) and the life of one connection (service/service.rs).
  \<^item> Streams: stream/types.rs, raw.rs and duration.rs. Sockets: listener/sys.rs, the rest of
    listener/socket.rs and the socket options of a stream.
  \<^item> Server: accepting, the listeners of a service as a step relation, the signals, bin/src/main.rs. ServerRun:
    server/server.rs over all its services, as a step relation on top of theirs.
  \<^item> GatewayCache: glaive/src/cache.rs and bucket.rs. GatewayConfig: def.rs, config.rs and cluster.rs.
  \<^item> GatewaySession: request.rs, response.rs and the chaining of filters. GatewayFilters: path.rs, limiter.rs,
    auth.rs and the request filter of proxy.rs. GatewayProxy: the other phases of proxy.rs, main.rs
    and default.rs. GatewayProperties: what the filters guarantee together. GatewayDiscovery: discovery.rs.
  \<^item> GatewayRedis, GatewayBuckets: redis.rs, its commands and its Lua scripts.

  What the lemmas show.

  \<^item> Bodies: for every way the network cuts the bytes, a body with a content length, in chunks or up to the
    close is read completely and exactly, a truncated one is an error, the writer and the reader agree on
    the wire format, and no read panics as long as no chunk size overflows. Each framing is an
    interpretation of the locale \<open>body_source\<close>; \<open>session_source\<close> lifts it to the two sessions, so that a
    request and a response arrive completely.
  \<^item> Headers: serialising never panics and keeps the spelling; the two header types interpret \<open>header_block\<close>.
    Decisions on header values equal their specifications.
  \<^item> The proxy loop: whatever the interleaving, the request body on its way is in order what the client
    sent (locale \<open>request_pipe\<close>) and the response body what the server sent, complete once the response is
    finished (locale \<open>response_pipe\<close>, extended by the time before the header in \<open>headed_pipe\<close>), all interpreted with the
    sessions; so both cross from socket to socket, and an exchange can always be completed.
  \<^item> The pool: a node interprets \<open>conn_store\<close>; the pool refines a multiset of waiting connections per group,
    respects its capacity, and a service keeps it so over a whole run; a waiting connection is used before
    a new one is opened. Removals and pick-ups from several threads are stated as what goes wrong.
  \<^item> The gateway: every filter interprets \<open>request_guard\<close> (a stopped request was answered exactly once, a
    passed one not at all), two filters in a row \<open>guard_pair\<close>; from this access control over the whole
    request filter. The built router is well formed, limits are exact, retries end, cached
    responses are read back, and the updater of a cluster follows the registry. The two bucket scripts interpret \<open>credit_bucket\<close>, so they limit the rate, and alike.
  \<^item> Where the code does not do what it means to, the property states what it does; its text says so.

  Bounds and fuel. Loops on lists and buffers are structural or have a measure. Reading a whole body takes a
  number of reads as fuel; the theorems state how many are enough (twice the bytes to come and two for
  chunks) and prove that the result is then there, so that running out is never the reason they hold.
  The search through the hot queue is bounded by the queue's length as in the code. \<open>usize\<close>, ports,
  descriptors and options have their widths; the hypotheses name the places where a
  size must stay below 2^64.

  Code outside the repository is a parameter: the sockets of tokio and its \<open>BufStream\<close>, the httparse parsers,
  the http crate's header map, crossbeam's queue, the lru crate, scc's map, pingora's sessions, cache
  metadata and load balancers, the hash of a peer, Consul, Redis and the system calls. What is assumed of
  them is their documented behaviour: \<open>io_contract\<close>, \<open>delivers\<close>, \<open>accepts\<close>, \<open>buf_laws\<close>, \<open>sane_sizes\<close>, \<open>http_laws\<close>,
  \<open>queue_laws\<close>, \<open>lru_laws\<close>, \<open>scc_laws\<close>, \<open>meta_laws\<close>, \<open>message_laws\<close>, \<open>pingora_laws\<close>, \<open>rate_laws\<close>, \<open>redis_laws\<close>, \<open>text_laws\<close>,
  \<open>lua_laws\<close>, \<open>update_laws\<close>; each has an instance in the library, and the witnesses use it.

  Not modelled: how tokio schedules tasks on threads, beyond that every order of steps is allowed; the set-up of
  logging; the traits and casts of stream/stream.rs, stream/traits.rs and prelude/result.rs, which
  have no behaviour; the constructors and getters of glaive/src, which only make
  and read records; what serde does with the YAML text (the declarations of def.rs are the model's starting
  point); unit tests, commented code and everything printed or logged; idle timers as clocks (a timeout is an event).
\<close>

end
